(* ===== verification/Prelude.thy ===== *)
theory Prelude
  imports Main "HOL-Library.Word"
begin

section \<open>Shared types, control flow and word facts\<close>

text \<open>
  What every component of the model shares: the C integer types as words, the ways the C code
  can leave defined behaviour as a datatype, the sequencing of computations that may fault,
  C's counting loops, and the facts on words that the component proofs use.
\<close>

unbundle bit_operations_syntax

type_synonym u8 = "8 word"
type_synonym u16 = "16 word"
type_synonym u32 = "32 word"
type_synonym u64 = "64 word"

named_theorems layout_simps \<open>constants of the memory layout, unfolded together\<close>
named_theorems fault_free \<open>operations that return without a fault under their invariant\<close>

subsection \<open>Faults and their sequencing\<close>

text \<open>
  A C operation either returns or does something the language or the processor gives no meaning
  to: it reads or writes past an array, divides by zero, or overflows a signed integer.
  An operation that can do so returns \<open>Inl\<close> of the fault.
\<close>

datatype fault =
    BitmapOutOfBounds
  | BufferOverflow
  | DivideByZero
  | SignedOverflow
  | NullDereference

type_synonym 'a checked = "fault + 'a"

fun rbind :: "'a checked \<Rightarrow> ('a \<Rightarrow> 'b checked) \<Rightarrow> 'b checked" where
  "rbind (Inl e) f = Inl e"
| "rbind (Inr x) f = f x"

lemma rbind_cong [fundef_cong]:
  assumes "m = m'" and "\<And>x. m' = Inr x \<Longrightarrow> f x = g x"
  shows "rbind m f = rbind m' g"
  using assms by (cases m') auto

lemma rbind_eq_Inr [simp]: "rbind m f = Inr r \<longleftrightarrow> (\<exists>v. m = Inr v \<and> f v = Inr r)"
  by (cases m) auto

lemma rbind_eq_Inl: "rbind m f = Inl e \<longleftrightarrow> m = Inl e \<or> (\<exists>x. m = Inr x \<and> f x = Inl e)"
  by (cases m) auto

lemma rbind_assoc: "rbind (rbind m f) g = rbind m (\<lambda>x. rbind (f x) g)"
  by (cases m) auto

lemma rbind_Inr_right [simp]: "rbind m Inr = m"
  by (cases m) auto

subsection \<open>The loop \<open>for (i = a; i < n; i++)\<close>\<close>

function for_loop :: "nat \<Rightarrow> nat \<Rightarrow> (nat \<Rightarrow> 's \<Rightarrow> 's checked) \<Rightarrow> 's \<Rightarrow> 's checked" where
  "for_loop i n body s =
     (if i < n then rbind (body i s) (\<lambda>s'. for_loop (Suc i) n body s') else Inr s)"
  by pat_completeness auto
termination
  by (relation "measure (\<lambda>(i, n, body, s). n - i)") auto

declare for_loop.simps [simp del]

lemma for_loop_done [simp]: "n \<le> i \<Longrightarrow> for_loop i n body s = Inr s"
  by (simp add: for_loop.simps)

lemma for_loop_step:
  "i < n \<Longrightarrow> for_loop i n body s = rbind (body i s) (\<lambda>s'. for_loop (Suc i) n body s')"
  by (subst for_loop.simps) simp

text \<open>
  The rule of the loop: an invariant over the counter and the state, kept by a body that does
  not fault, holds at the end, and the loop does not fault.
\<close>

lemma for_loop_rule:
  assumes "P a s" and "a \<le> n"
    and step: "\<And>i s. a \<le> i \<Longrightarrow> i < n \<Longrightarrow> P i s \<Longrightarrow> \<exists>s'. body i s = Inr s' \<and> P (Suc i) s'"
  shows "\<exists>s'. for_loop a n body s = Inr s' \<and> P n s'"
  using assms
proof (induction "n - a" arbitrary: a s)
  case 0
  then show ?case by simp
next
  case (Suc d)
  then have lt: "a < n" by simp
  with Suc.prems obtain s' where s': "body a s = Inr s'" "P (Suc a) s'"
    by blast
  have "\<exists>s''. for_loop (Suc a) n body s' = Inr s'' \<and> P n s''"
    using Suc.hyps(2) lt s'(2) Suc.prems(3) by (intro Suc.hyps(1)) auto
  with s'(1) lt show ?case by (simp add: for_loop_step)
qed

text \<open>A loop whose body faults in round \<open>k\<close>, and in no round before.\<close>

lemma for_loop_fault:
  assumes "P a s" and "a \<le> k" and "k < n"
    and step: "\<And>i s. a \<le> i \<Longrightarrow> i < k \<Longrightarrow> P i s \<Longrightarrow> \<exists>s'. body i s = Inr s' \<and> P (Suc i) s'"
    and fault: "\<And>s. P k s \<Longrightarrow> body k s = Inl e"
  shows "for_loop a n body s = Inl e"
  using assms
proof (induction "k - a" arbitrary: a s)
  case 0
  then show ?case
    by (simp add: for_loop_step)
next
  case (Suc d)
  then have lt: "a < k" by simp
  with Suc.prems obtain s' where s': "body a s = Inr s'" "P (Suc a) s'"
    by blast
  have "for_loop (Suc a) n body s' = Inl e"
    using Suc.hyps(2) lt s'(2) Suc.prems(3-5) by (intro Suc.hyps(1)) auto
  with s'(1) lt Suc.prems(3) show ?case by (simp add: for_loop_step)
qed

text \<open>What every round keeps where it does not fault, the loop keeps.\<close>

lemma for_loop_keeps:
  assumes "\<And>i s s'. P s \<Longrightarrow> body i s = Inr s' \<Longrightarrow> P s'" and "P s" and "for_loop a n body s = Inr s'"
  shows "P s'"
  using assms(2,3)
proof (induction "n - a" arbitrary: a s)
  case 0
  then show ?case
    by simp
next
  case (Suc d)
  then obtain s1 where "body a s = Inr s1" "for_loop (Suc a) n body s1 = Inr s'"
    by (auto simp: for_loop_step)
  moreover have "d = n - Suc a"
    using Suc.hyps(2) by simp
  ultimately show ?case
    using Suc.hyps(1) Suc.prems(1) assms(1) by blast
qed

text \<open>A property of the counter and the state that every round passes on holds after a run.\<close>

lemma for_loop_ran:
  assumes "for_loop a n body s = Inr s'" and "a \<le> n" and "P a s"
    and "\<And>i s s'. P i s \<Longrightarrow> body i s = Inr s' \<Longrightarrow> P (Suc i) s'"
  shows "P n s'"
  using assms(1-3)
proof (induction "n - a" arbitrary: a s)
  case (Suc d)
  then obtain s1 where "body a s = Inr s1" "for_loop (Suc a) n body s1 = Inr s'"
    by (auto simp: for_loop_step)
  moreover have "d = n - Suc a" "Suc a \<le> n"
    using Suc.hyps(2) by simp_all
  ultimately show ?case
    using Suc.hyps(1) Suc.prems(3) assms(4) by blast
qed simp

lemma fold_keeps: "(\<And>x s. h (f x s) = h s) \<Longrightarrow> h (fold f xs s) = h s"
  by (induction xs arbitrary: s) simp_all

subsection \<open>Reading words in memory, little-endian\<close>

type_synonym byte_mem = "u64 \<Rightarrow> u8"

definition load32 :: "byte_mem \<Rightarrow> u64 \<Rightarrow> u32" where
  "load32 m a = ucast (m a) OR push_bit 8 (ucast (m (a + 1)))
     OR push_bit 16 (ucast (m (a + 2))) OR push_bit 24 (ucast (m (a + 3)))"

definition load64 :: "byte_mem \<Rightarrow> u64 \<Rightarrow> u64" where
  "load64 m a = ucast (load32 m a) OR push_bit 32 (ucast (load32 m (a + 4)))"

definition store32 :: "u64 \<Rightarrow> u32 \<Rightarrow> byte_mem \<Rightarrow> byte_mem" where
  "store32 a v m = m(a := ucast v, a + 1 := ucast (drop_bit 8 v), a + 2 := ucast (drop_bit 16 v),
     a + 3 := ucast (drop_bit 24 v))"

subsection \<open>Facts on words\<close>

lemma unat_of_nat_u64 [simp]: "i < 2 ^ 64 \<Longrightarrow> unat (of_nat i :: u64) = i"
  by (simp add: unat_of_nat take_bit_eq_mod)

lemma unat_of_nat_u32 [simp]: "i < 2 ^ 32 \<Longrightarrow> unat (of_nat i :: u32) = i"
  by (simp add: unat_of_nat take_bit_eq_mod)

lemma unat_lt_2p32: "unat (x :: u32) < 2 ^ 32"
  using unsigned_less [of x] by simp

lemma unat_lt_256: "unat (x :: u8) < 256"
  using unsigned_less [of x, where ?'a = nat] by simp

lemma unat_eq_iff: "unat (a :: 'a::len word) = unat b \<longleftrightarrow> a = b"
  by (auto intro: unsigned_word_eqI)

lemma unat_lt_2p64: "unat (x :: u64) < 2 ^ 64"
  using unsigned_less [of x] by simp

lemma bit_lt_64: "bit (w :: u64) n \<Longrightarrow> n < 64"
  by (drule bit_imp_le_length) simp

lemma word_bit_eq_iff: "(v :: 'a::len word) = w \<longleftrightarrow> (\<forall>n. bit v n = bit w n)"
  by (auto intro: bit_eqI)

lemma bit_and_one_iff: "(w :: 'a::len word) AND 1 = 0 \<longleftrightarrow> \<not> bit w 0"
  by (simp add: and_one_eq bit_0 odd_iff_mod_2_eq_one)

lemma flag_test: "n < LENGTH('a) \<Longrightarrow> (w :: 'a::len word) AND push_bit n 1 = 0 \<longleftrightarrow> \<not> bit w n"
  by (auto simp: bit_eq_iff [where ?'a = "'a word"] bit_simps)

lemma unat_add_small: "unat (a :: u64) + unat b < 2 ^ 64 \<Longrightarrow> unat (a + b) = unat a + unat b"
  by (simp add: unat_word_ariths)

text \<open>Rounding down to a multiple of a power of two, \<open>x & ~(2^k - 1)\<close>.\<close>

lemma unat_round_down:
  assumes "k < 64"
  shows "unat ((x :: u64) AND NOT (2 ^ k - 1)) = unat x div 2 ^ k * 2 ^ k"
proof -
  have "x AND NOT (mask k) = push_bit k (drop_bit k x)"
    by (subst word_bit_eq_iff) (auto simp: bit_and_iff bit_not_iff bit_mask_iff bit_push_bit_iff bit_drop_bit_eq)
  then have "x AND NOT (2 ^ k - 1) = push_bit k (drop_bit k x)"
    unfolding mask_eq_exp_minus_1 .
  then have "unat (x AND NOT (2 ^ k - 1)) = take_bit 64 (push_bit k (unat (drop_bit k x)))"
    by (simp only: unsigned_push_bit_eq) simp
  also have "unat (drop_bit k x) = unat x div 2 ^ k"
    by (simp only: unsigned_drop_bit_eq) (simp add: drop_bit_eq_div take_bit_nat_eq_self [OF unat_lt_2p64])
  also have "take_bit 64 (push_bit k (unat x div 2 ^ k)) = unat x div 2 ^ k * 2 ^ k"
    using le_less_trans [OF div_times_less_eq_dividend unat_lt_2p64]
    by (simp add: push_bit_eq_mult take_bit_nat_eq_self)
  finally show ?thesis .
qed

text \<open>Fields of a word: a narrower word put at an offset, and a small one.\<close>

lemma bit_push_ucast:
  "k + LENGTH('a) \<le> LENGTH('b) \<Longrightarrow>
    bit (push_bit k (ucast (w :: 'a::len word)) :: 'b::len word) n \<longleftrightarrow> k \<le> n \<and> bit w (n - k)"
  using bit_imp_le_length [of w "n - k"] by (auto simp: bit_push_bit_iff bit_ucast_iff)

lemma bit_small_word: "unat (w :: 'a::len word) < 2 ^ k \<Longrightarrow> bit w n \<Longrightarrow> n < k"
proof (rule ccontr)
  assume w: "unat w < 2 ^ k" and b: "bit w n" and k: "\<not> n < k"
  have "(2 :: nat) ^ k \<le> 2 ^ n"
    using k by (intro power_increasing) simp_all
  with w have "unat w < 2 ^ n"
    by linarith
  then have "unat w div 2 ^ n = 0"
    by (rule div_less)
  then have "\<not> bit (unat w) n"
    by (simp add: bit_iff_odd)
  with b show False
    by (simp add: bit_unsigned_iff)
qed

subsection \<open>A stored word read back\<close>

lemma load_store32: "load32 (store32 a v m) a = v"
proof -
  have "bit (load32 (store32 a v m) a) n = bit v n" for n
  proof -
    consider "n < 8" | k where "n = 8 + k" "k < 8" | k where "n = 16 + k" "k < 8"
      | k where "n = 24 + k" "k < 8" | "32 \<le> n"
      by atomize_elim presburger
    then show ?thesis
      by cases (auto simp: load32_def store32_def bit_or_iff bit_push_bit_iff bit_ucast_iff
          bit_drop_bit_eq dest: bit_imp_le_length)
  qed
  then show ?thesis
    by (simp add: word_bit_eq_iff)
qed

lemma store32_other: "x \<notin> {a, a + 1, a + 2, a + 3} \<Longrightarrow> store32 a v m x = m x"
  by (simp add: store32_def)

lemma load_store32_other:
  assumes "{b, b + 1, b + 2, b + 3} \<inter> {a, a + 1, a + 2, a + 3} = {}"
  shows "load32 (store32 a v m) b = load32 m b"
proof -
  have "store32 a v m x = m x" if "x \<in> {b, b + 1, b + 2, b + 3}" for x
    using assms that by (intro store32_other) blast
  then show ?thesis
    by (simp add: load32_def)
qed

end
