(* ===== verification/Interfaces.thy ===== *)
theory Interfaces
  imports Prelude
begin

section \<open>The interfaces between the components\<close>

text \<open>
  The contracts the components rely on, as locales. A client's definitions take the operation
  it calls as an argument (the page-table code takes \<open>pmm_alloc\<close>, the memory store takes
  \<open>kmalloc\<close>), its lemmas are proved from the contract, and the component that provides the
  operation interprets the contract on its own definitions.
\<close>

subsection \<open>Physical addresses a page-table entry can hold\<close>

definition PTE_ADDR_MASK :: u64 where
  "PTE_ADDR_MASK = 0x000FFFFFFFFFF000"

definition frame_addr :: "u64 \<Rightarrow> bool" where
  "frame_addr f \<longleftrightarrow> f AND PTE_ADDR_MASK = f"

lemma PTE_ADDR_MASK_eq: "PTE_ADDR_MASK = push_bit 12 (mask 40)"
  by (simp add: PTE_ADDR_MASK_def mask_eq_exp_minus_1)

lemma bit_PTE_ADDR_MASK: "bit PTE_ADDR_MASK n \<longleftrightarrow> 12 \<le> n \<and> n < 52"
  by (auto simp: PTE_ADDR_MASK_eq bit_simps)

lemma frame_addr_iff: "frame_addr f \<longleftrightarrow> (\<forall>n. bit f n \<longrightarrow> 12 \<le> n \<and> n < 52)"
  unfolding frame_addr_def bit_eq_iff [where ?'a = u64]
  by (auto simp: bit_simps bit_PTE_ADDR_MASK dest: bit_lt_64)

lemma frame_addr_masked [simp]: "frame_addr (e AND PTE_ADDR_MASK)"
  by (simp add: frame_addr_def and.assoc)

subsection \<open>A state with operations that keep an invariant\<close>

text \<open>
  \<open>step\<close> runs one operation (or faults), \<open>inv\<close> is what every operation keeps and what
  makes it fault-free where the operation is \<open>allowed\<close>.
\<close>

locale invariant_system =
  fixes step :: "'op \<Rightarrow> 's \<Rightarrow> 's checked"
    and allowed :: "'op \<Rightarrow> 's \<Rightarrow> bool"
    and inv :: "'s \<Rightarrow> bool"
  assumes step_total: "inv s \<Longrightarrow> allowed op s \<Longrightarrow> \<exists>s'. step op s = Inr s'"
    and step_inv: "inv s \<Longrightarrow> allowed op s \<Longrightarrow> step op s = Inr s' \<Longrightarrow> inv s'"
begin

inductive run :: "'s \<Rightarrow> 'op list \<Rightarrow> 's \<Rightarrow> bool" where
  run_nil: "run s [] s"
| run_cons: "allowed op s \<Longrightarrow> step op s = Inr s' \<Longrightarrow> run s' ops s'' \<Longrightarrow> run s (op # ops) s''"

lemma run_inv: "run s ops s' \<Longrightarrow> inv s \<Longrightarrow> inv s'"
  by (induction rule: run.induct) (auto intro: step_inv)

lemma run_total:
  assumes "inv s" and "\<And>op s. inv s \<Longrightarrow> op \<in> set ops \<Longrightarrow> allowed op s"
  shows "\<exists>s'. run s ops s' \<and> inv s'"
  using assms
proof (induction ops arbitrary: s)
  case Nil
  then show ?case
    by (auto intro: run_nil)
next
  case (Cons op ops)
  then have op: "allowed op s"
    by simp
  obtain s1 where s1: "step op s = Inr s1"
    using step_total [OF Cons.prems(1) op] by blast
  then have "inv s1"
    using step_inv [OF Cons.prems(1) op] by blast
  then obtain s' where "run s1 ops s'" "inv s'"
    using Cons.IH Cons.prems(2) by (metis list.set_intros(2))
  then show ?case
    using run_cons [OF op s1] by blast
qed

lemma run_preserves:
  assumes "run s ops s'" and "inv s"
    and "\<And>op s s'. inv s \<Longrightarrow> allowed op s \<Longrightarrow> step op s = Inr s' \<Longrightarrow> f s' = f s"
  shows "f s' = f s"
  using assms by (induction rule: run.induct) (auto intro: step_inv)

end

subsection \<open>An allocator of page frames\<close>

locale frame_allocator =
  fixes alloc :: "'p \<Rightarrow> (u64 \<times> 'p) checked"
    and free_frames :: "'p \<Rightarrow> u64 set"
    and ok :: "'p \<Rightarrow> bool"
  assumes alloc_total: "ok p \<Longrightarrow> \<exists>f p'. alloc p = Inr (f, p')"
    and alloc_ok: "ok p \<Longrightarrow> alloc p = Inr (f, p') \<Longrightarrow> ok p'"
    and alloc_failed: "ok p \<Longrightarrow> alloc p = Inr (0, p') \<Longrightarrow> p' = p \<and> free_frames p = {}"
    and alloc_frame: "ok p \<Longrightarrow> alloc p = Inr (f, p') \<Longrightarrow> f \<noteq> 0 \<Longrightarrow>
      f \<in> free_frames p \<and> free_frames p' = free_frames p - {f}"
    and free_frame_addr: "ok p \<Longrightarrow> f \<in> free_frames p \<Longrightarrow> frame_addr f"

subsection \<open>An allocator of heap blocks\<close>

text \<open>
  \<open>malloc r\<close> answers a request \<open>r\<close> for \<open>bytes r\<close> bytes with the address of a block or 0,
  \<open>used\<close> is the set of addresses handed out so far. The contract is for the requests that
  are \<open>valid\<close> (small enough, and aligned to a power of two).
\<close>

definition block :: "u64 \<Rightarrow> u64 \<Rightarrow> nat set" where
  "block p n = {unat p ..< unat p + unat n}"

primrec malloc_all ::
  "('r \<Rightarrow> 'h \<Rightarrow> u64 \<times> 'h) \<Rightarrow> ('r \<Rightarrow> u64) \<Rightarrow> 'r list \<Rightarrow> 'h \<Rightarrow> (u64 \<times> u64) list \<times> 'h" where
  "malloc_all malloc bytes [] h = ([], h)"
| "malloc_all malloc bytes (r # rs) h =
     (case malloc r h of (p, h') \<Rightarrow>
        case malloc_all malloc bytes rs h' of (ps, h'') \<Rightarrow> ((p, bytes r) # ps, h''))"

definition blocks_apart :: "(u64 \<times> u64) list \<Rightarrow> bool" where
  "blocks_apart ps \<longleftrightarrow> (\<forall>i < length ps. \<forall>j < length ps. i \<noteq> j \<longrightarrow>
     fst (ps ! i) \<noteq> 0 \<longrightarrow> fst (ps ! j) \<noteq> 0 \<longrightarrow>
     block (fst (ps ! i)) (snd (ps ! i)) \<inter> block (fst (ps ! j)) (snd (ps ! j)) = {})"

lemma blocks_apart_Nil [simp]: "blocks_apart []"
  by (simp add: blocks_apart_def)

lemma blocks_apart_Cons:
  assumes "blocks_apart ps"
    and "\<And>q m. (q, m) \<in> set ps \<Longrightarrow> p \<noteq> 0 \<Longrightarrow> q \<noteq> 0 \<Longrightarrow> block p n \<inter> block q m = {}"
  shows "blocks_apart ((p, n) # ps)"
  unfolding blocks_apart_def
proof (intro allI impI)
  fix i j
  assume ij: "i < length ((p, n) # ps)" "j < length ((p, n) # ps)" "i \<noteq> j"
    and nz: "fst (((p, n) # ps) ! i) \<noteq> 0" "fst (((p, n) # ps) ! j) \<noteq> 0"
  have new: "block p n \<inter> block (fst (ps ! k)) (snd (ps ! k)) = {}"
    if "k < length ps" "p \<noteq> 0" "fst (ps ! k) \<noteq> 0" for k
    using that nth_mem [of k ps] by (intro assms(2)) (simp_all add: prod.collapse)
  show "block (fst (((p, n) # ps) ! i)) (snd (((p, n) # ps) ! i)) \<inter>
        block (fst (((p, n) # ps) ! j)) (snd (((p, n) # ps) ! j)) = {}"
    using ij nz new assms(1)
    by (cases i; cases j) (auto simp: blocks_apart_def Int_commute)
qed

locale heap_allocator =
  fixes malloc :: "'r \<Rightarrow> 'h \<Rightarrow> u64 \<times> 'h"
    and bytes :: "'r \<Rightarrow> u64"
    and valid :: "'r \<Rightarrow> bool"
    and used :: "'h \<Rightarrow> nat set"
    and hok :: "'h \<Rightarrow> bool"
  assumes malloc_ok: "hok h \<Longrightarrow> valid r \<Longrightarrow> malloc r h = (p, h') \<Longrightarrow> hok h'"
    and malloc_keeps: "hok h \<Longrightarrow> valid r \<Longrightarrow> malloc r h = (p, h') \<Longrightarrow> used h \<subseteq> used h'"
    and malloc_fresh: "hok h \<Longrightarrow> valid r \<Longrightarrow> malloc r h = (p, h') \<Longrightarrow> p \<noteq> 0 \<Longrightarrow>
      block p (bytes r) \<inter> used h = {} \<and> block p (bytes r) \<subseteq> used h'"
    and malloc_fits: "hok h \<Longrightarrow> valid r \<Longrightarrow> malloc r h = (p, h') \<Longrightarrow> p \<noteq> 0 \<Longrightarrow>
      unat p + unat (bytes r) \<le> 2 ^ 64"
begin

lemma malloc_all_blocks:
  assumes "hok h" and "\<forall>r \<in> set rs. valid r" and "malloc_all malloc bytes rs h = (ps, h')"
  shows "hok h' \<and> used h \<subseteq> used h' \<and> blocks_apart ps \<and>
    (\<forall>(q, m) \<in> set ps. q \<noteq> 0 \<longrightarrow> block q m \<inter> used h = {} \<and> block q m \<subseteq> used h')"
  using assms
proof (induction rs arbitrary: h ps)
  case Nil
  then show ?case by simp
next
  case (Cons r rs)
  obtain p h1 where call: "malloc r h = (p, h1)"
    by fastforce
  obtain qs where rest: "malloc_all malloc bytes rs h1 = (qs, h')" and ps: "ps = (p, bytes r) # qs"
    using Cons.prems(3) call by (auto split: prod.splits)
  have r: "valid r" and rs: "\<forall>r \<in> set rs. valid r"
    using Cons.prems(2) by auto
  note IH = Cons.IH [OF malloc_ok [OF Cons.prems(1) r call] rs rest]
  have sub: "used h \<subseteq> used h1"
    using malloc_keeps [OF Cons.prems(1) r call] .
  have new: "p \<noteq> 0 \<longrightarrow> block p (bytes r) \<inter> used h = {} \<and> block p (bytes r) \<subseteq> used h1"
    using malloc_fresh [OF Cons.prems(1) r call] by blast
  have "blocks_apart ps"
    unfolding ps using IH new by (intro blocks_apart_Cons) (auto, blast)
  then show ?case
    using IH new sub unfolding ps by auto blast+
qed

end

text \<open>
  What the memory store asks of the heap: small blocks by their size, and a release that never
  gives a live block away.
\<close>

definition SMALL_BLOCK :: nat where "SMALL_BLOCK = 4097"

locale block_heap =
  heap_allocator malloc "\<lambda>n. n" "\<lambda>n. unat n \<le> SMALL_BLOCK" used hok
  for malloc :: "u64 \<Rightarrow> 'h \<Rightarrow> u64 \<times> 'h" and used :: "'h \<Rightarrow> nat set" and hok :: "'h \<Rightarrow> bool" +
  fixes release :: "u64 \<Rightarrow> 'h \<Rightarrow> 'h"
  assumes release_ok: "hok h \<Longrightarrow> hok (release p h) \<and> used (release p h) = used h"

text \<open>A heap that says for how many small blocks it is sure to have room.\<close>

locale roomy_heap = block_heap malloc used hok release
  for malloc :: "u64 \<Rightarrow> 'h \<Rightarrow> u64 \<times> 'h" and used :: "'h \<Rightarrow> nat set" and hok :: "'h \<Rightarrow> bool"
    and release :: "u64 \<Rightarrow> 'h \<Rightarrow> 'h" +
  fixes room :: "'h \<Rightarrow> nat"
  assumes room_ok: "hok h \<Longrightarrow> unat n \<le> SMALL_BLOCK \<Longrightarrow> 0 < room h \<Longrightarrow> malloc n h = (p, h') \<Longrightarrow>
    p \<noteq> 0 \<and> room h \<le> Suc (room h')"

end
