(* ===== verification/PhysMem.thy ===== *)
theory PhysMem
  imports Interfaces
begin

section \<open>The physical memory manager\<close>

text \<open>
  \<^verbatim>\<open>kernel/memory/memory.c\<close>, lines 28 to 179: the bitmap of free 4 KB frames, its set-up
  from the UEFI memory map, the allocation of one frame and of a run of frames, and the release
  of a frame. A page index (a \<open>uint64_t\<close> in C) is kept as the natural number it denotes where
  it only counts up to a 64-bit bound; sums that may wrap are taken on words first. An access
  to \<open>phys_bitmap\<close> past its end is the fault \<open>BitmapOutOfBounds\<close>.
\<close>

subsection \<open>State\<close>

definition PAGE_SIZE :: u64 where "PAGE_SIZE = 4096"

definition PAGE_INDEX :: "u64 \<Rightarrow> u64" where "PAGE_INDEX a = a div PAGE_SIZE"

definition MAX_PAGES :: nat where "MAX_PAGES = 33554432"

definition BITMAP_SIZE :: nat where "BITMAP_SIZE = 4194304"

lemmas pmm_consts [layout_simps] = PAGE_SIZE_def PAGE_INDEX_def MAX_PAGES_def BITMAP_SIZE_def

record pmm =
  phys_bitmap :: "nat \<Rightarrow> u8"
  phys_total_pages :: u64
  phys_free_pages :: u64

definition pmm_static :: pmm where
  "pmm_static = \<lparr>phys_bitmap = (\<lambda>_. 0), phys_total_pages = 0, phys_free_pages = 0\<rparr>"

subsection \<open>The bitmap\<close>

definition bitmap_set_free :: "nat \<Rightarrow> pmm \<Rightarrow> pmm checked" where
  "bitmap_set_free page_idx s =
     (if page_idx div 8 < BITMAP_SIZE
      then Inr (s\<lparr>phys_bitmap := (phys_bitmap s)
             (page_idx div 8 := phys_bitmap s (page_idx div 8) OR push_bit (page_idx mod 8) 1)\<rparr>)
      else Inl BitmapOutOfBounds)"

definition bitmap_set_used :: "nat \<Rightarrow> pmm \<Rightarrow> pmm checked" where
  "bitmap_set_used page_idx s =
     (if page_idx div 8 < BITMAP_SIZE
      then Inr (s\<lparr>phys_bitmap := (phys_bitmap s)
             (page_idx div 8 := phys_bitmap s (page_idx div 8) AND NOT (push_bit (page_idx mod 8) 1))\<rparr>)
      else Inl BitmapOutOfBounds)"

definition bitmap_is_free :: "nat \<Rightarrow> pmm \<Rightarrow> bool checked" where
  "bitmap_is_free page_idx s =
     (if page_idx div 8 < BITMAP_SIZE
      then Inr (drop_bit (page_idx mod 8) (phys_bitmap s (page_idx div 8)) AND 1 \<noteq> 0)
      else Inl BitmapOutOfBounds)"

subsection \<open>Set-up from the UEFI memory map\<close>

record EfiMemoryDescriptor =
  efi_type :: u32
  efi_pad :: u32
  phys_start :: u64
  virt_start :: u64
  num_pages :: u64
  efi_attr :: u64

definition load_descriptor :: "byte_mem \<Rightarrow> u64 \<Rightarrow> EfiMemoryDescriptor" where
  "load_descriptor m a =
     \<lparr>efi_type = load32 m a, efi_pad = load32 m (a + 4), phys_start = load64 m (a + 8),
      virt_start = load64 m (a + 16), num_pages = load64 m (a + 24), efi_attr = load64 m (a + 32)\<rparr>"

definition efi_usable :: "u32 \<Rightarrow> bool" where
  "efi_usable t \<longleftrightarrow> t = 7 \<or> t = 3 \<or> t = 4"

definition pmm_add_page :: "u64 \<Rightarrow> nat \<Rightarrow> pmm \<Rightarrow> pmm checked" where
  "pmm_add_page start_page p s =
     (let idx = unat (start_page + of_nat p) in
      if idx < MAX_PAGES
      then rbind (bitmap_set_free idx s) (\<lambda>s.
        Inr (s\<lparr>phys_free_pages := phys_free_pages s + 1,
               phys_total_pages := phys_total_pages s + 1\<rparr>))
      else Inr s)"

definition pmm_add_region :: "EfiMemoryDescriptor \<Rightarrow> pmm \<Rightarrow> pmm checked" where
  "pmm_add_region d s =
     (if efi_usable (efi_type d)
      then for_loop 0 (unat (num_pages d)) (pmm_add_page (PAGE_INDEX (phys_start d))) s
      else Inr s)"

definition pmm_take_page :: "nat \<Rightarrow> pmm \<Rightarrow> pmm checked" where
  "pmm_take_page j s =
     rbind (bitmap_set_used j s) (\<lambda>s. Inr (s\<lparr>phys_free_pages := phys_free_pages s - 1\<rparr>))"

definition pmm_init :: "byte_mem \<Rightarrow> u64 \<Rightarrow> u64 \<Rightarrow> u64 \<Rightarrow> pmm \<Rightarrow> pmm checked" where
  "pmm_init m mmap_addr mmap_size desc_size s =
     (let s0 = s\<lparr>phys_bitmap := (\<lambda>i. if i < BITMAP_SIZE then 0 else phys_bitmap s i)\<rparr> in
      if desc_size = 0 then Inl DivideByZero
      else rbind
        (for_loop 0 (unat (mmap_size div desc_size))
          (\<lambda>i. pmm_add_region (load_descriptor m (mmap_addr + of_nat i * desc_size))) s0)
        (for_loop 0 512 pmm_take_page))"

subsection \<open>Allocation and release\<close>

function pmm_alloc_loop :: "nat \<Rightarrow> pmm \<Rightarrow> (u64 \<times> pmm) checked" where
  "pmm_alloc_loop i s =
     (if i < unat (phys_total_pages s)
      then rbind (bitmap_is_free i s) (\<lambda>free.
        if free then rbind (pmm_take_page i s) (\<lambda>s'. Inr (of_nat i * PAGE_SIZE, s'))
        else pmm_alloc_loop (Suc i) s)
      else Inr (0, s))"
  by pat_completeness auto
termination
  by (relation "measure (\<lambda>(i, s). unat (phys_total_pages s) - i)") auto

definition pmm_alloc :: "pmm \<Rightarrow> (u64 \<times> pmm) checked" where
  "pmm_alloc s = pmm_alloc_loop 512 s"

function pmm_run_loop :: "nat \<Rightarrow> nat \<Rightarrow> nat \<Rightarrow> nat \<Rightarrow> pmm \<Rightarrow> (u64 \<times> pmm) checked" where
  "pmm_run_loop n i run_start run_len s =
     (if i < unat (phys_total_pages s)
      then rbind (bitmap_is_free i s) (\<lambda>free.
        if free then
          (let start = (if run_len = 0 then i else run_start); len = run_len + 1 in
           if len = n
           then rbind (for_loop start (start + n) pmm_take_page s)
                  (\<lambda>s'. Inr (of_nat start * PAGE_SIZE, s'))
           else pmm_run_loop n (Suc i) start len s)
        else pmm_run_loop n (Suc i) run_start 0 s)
      else Inr (0, s))"
  by pat_completeness auto
termination
  by (relation "measure (\<lambda>(n, i, run_start, run_len, s). unat (phys_total_pages s) - i)") auto

definition pmm_alloc_contiguous :: "u64 \<Rightarrow> pmm \<Rightarrow> (u64 \<times> pmm) checked" where
  "pmm_alloc_contiguous n s = pmm_run_loop (unat n) 512 0 0 s"

definition pmm_free :: "u64 \<Rightarrow> pmm \<Rightarrow> pmm checked" where
  "pmm_free phys_addr s =
     (let idx = unat (phys_addr div PAGE_SIZE) in
      rbind (bitmap_is_free idx s) (\<lambda>free.
        if \<not> free
        then rbind (bitmap_set_free idx s) (\<lambda>s. Inr (s\<lparr>phys_free_pages := phys_free_pages s + 1\<rparr>))
        else Inr s))"

definition pmm_free_pages :: "pmm \<Rightarrow> u64" where "pmm_free_pages s = phys_free_pages s"
definition pmm_total_pages :: "pmm \<Rightarrow> u64" where "pmm_total_pages s = phys_total_pages s"

declare pmm_alloc_loop.simps [simp del] pmm_run_loop.simps [simp del]

subsection \<open>What the bitmap says: the set of free pages\<close>

definition page_free :: "pmm \<Rightarrow> nat \<Rightarrow> bool" where
  "page_free s i \<longleftrightarrow> bit (phys_bitmap s (i div 8)) (i mod 8)"

definition free_set :: "pmm \<Rightarrow> nat set" where
  "free_set s = {i. i < MAX_PAGES \<and> page_free s i}"

lemma finite_free_set [simp]: "finite (free_set s)"
  by (rule finite_subset [of _ "{..<MAX_PAGES}"]) (auto simp: free_set_def)

lemma free_set_lt: "i \<in> free_set s \<Longrightarrow> i < MAX_PAGES"
  by (simp add: free_set_def)

lemma free_set_frame [simp]:
  "free_set (s\<lparr>phys_free_pages := f\<rparr>) = free_set s"
  "free_set (s\<lparr>phys_total_pages := t\<rparr>) = free_set s"
  by (simp_all add: free_set_def page_free_def)

lemma in_bitmap [simp]: "i div 8 < BITMAP_SIZE \<longleftrightarrow> i < MAX_PAGES"
  by (simp add: layout_simps) presburger

lemma same_bit: "(i::nat) div 8 = j div 8 \<Longrightarrow> i mod 8 = j mod 8 \<Longrightarrow> i = j"
  by (metis div_mult_mod_eq)

lemma bitmap_is_free_eq [fault_free]:
  "i < MAX_PAGES \<Longrightarrow> bitmap_is_free i s = Inr (i \<in> free_set s)"
  by (auto simp: bitmap_is_free_def free_set_def page_free_def bit_and_one_iff bit_simps)

lemma mod8_less_len [simp]: "(i::nat) mod 8 < LENGTH(8)"
  by simp

lemma bitmap_set_free_eq [fault_free]:
  assumes "i < MAX_PAGES"
  shows "\<exists>b. bitmap_set_free i s = Inr (s\<lparr>phys_bitmap := b\<rparr>)
    \<and> free_set (s\<lparr>phys_bitmap := b\<rparr>) = insert i (free_set s)"
proof (intro exI conjI)
  let ?b = "(phys_bitmap s)(i div 8 := phys_bitmap s (i div 8) OR push_bit (i mod 8) 1)"
  show "bitmap_set_free i s = Inr (s\<lparr>phys_bitmap := ?b\<rparr>)"
    using assms by (simp add: bitmap_set_free_def)
  show "free_set (s\<lparr>phys_bitmap := ?b\<rparr>) = insert i (free_set s)"
    using assms by (auto simp: free_set_def page_free_def bit_simps split: if_splits
        dest: same_bit)
qed

lemma bitmap_set_used_eq [fault_free]:
  assumes "i < MAX_PAGES"
  shows "\<exists>b. bitmap_set_used i s = Inr (s\<lparr>phys_bitmap := b\<rparr>)
    \<and> free_set (s\<lparr>phys_bitmap := b\<rparr>) = free_set s - {i}"
proof (intro exI conjI)
  let ?b = "(phys_bitmap s)(i div 8 := phys_bitmap s (i div 8) AND NOT (push_bit (i mod 8) 1))"
  show "bitmap_set_used i s = Inr (s\<lparr>phys_bitmap := ?b\<rparr>)"
    using assms by (simp add: bitmap_set_used_def)
  show "free_set (s\<lparr>phys_bitmap := ?b\<rparr>) = free_set s - {i}"
    using assms by (auto simp: free_set_def page_free_def bit_simps split: if_splits
        dest: same_bit)
qed

subsection \<open>Taking pages\<close>

definition pmm_ok :: "pmm \<Rightarrow> bool" where
  "pmm_ok s \<longleftrightarrow> unat (phys_total_pages s) \<le> MAX_PAGES"

text \<open>\<open>takes A s s'\<close>: from \<open>s\<close> to \<open>s'\<close> exactly the pages of \<open>A\<close> left the free set, and the
  counter went down by their number.\<close>

definition takes :: "nat set \<Rightarrow> pmm \<Rightarrow> pmm \<Rightarrow> bool" where
  "takes A s s' \<longleftrightarrow> free_set s' = free_set s - A
     \<and> phys_free_pages s' = phys_free_pages s - of_nat (card A)
     \<and> phys_total_pages s' = phys_total_pages s"

lemma takes_refl: "takes {} s s"
  by (simp add: takes_def)

lemma takes_ok: "takes A s s' \<Longrightarrow> pmm_ok s' = pmm_ok s"
  by (simp add: takes_def pmm_ok_def)

lemma pmm_take_page_takes [fault_free]:
  assumes "j < MAX_PAGES"
  shows "\<exists>s'. pmm_take_page j s = Inr s' \<and> takes {j} s s'"
  using bitmap_set_used_eq [OF assms, of s] by (auto simp: pmm_take_page_def takes_def)

lemma takes_insert:
  assumes "takes A s s'" and "takes {j} s' s''" and "j \<notin> A" and "finite A"
  shows "takes (insert j A) s s''"
  using assms by (auto simp: takes_def diff_diff_eq add.commute)

lemma take_run:
  assumes "a + n \<le> MAX_PAGES"
  shows "\<exists>s'. for_loop a (a + n) pmm_take_page s = Inr s' \<and> takes {a..<a + n} s s'"
proof (rule for_loop_rule [where P = "\<lambda>i s'. takes {a..<i} s s'"])
  fix i s' assume i: "a \<le> i" "i < a + n" and t: "takes {a..<i} s s'"
  obtain s'' where s'': "pmm_take_page i s' = Inr s''" "takes {i} s' s''"
    using pmm_take_page_takes [of i s'] i assms by auto
  from takes_insert [OF t s''(2)] i have "takes {a..<Suc i} s s''"
    by (simp add: atLeastLessThanSuc)
  with s''(1) show "\<exists>s''. pmm_take_page i s' = Inr s'' \<and> takes {a..<Suc i} s s''"
    by blast
qed (auto simp: takes_refl)

subsection \<open>One frame: the first free page from 512 on\<close>

lemma pmm_alloc_loop_none:
  assumes "pmm_ok s" and "\<And>j. i \<le> j \<Longrightarrow> j < unat (phys_total_pages s) \<Longrightarrow> j \<notin> free_set s"
  shows "pmm_alloc_loop i s = Inr (0, s)"
  using assms
proof (induction i s rule: pmm_alloc_loop.induct)
  case (1 i s)
  show ?case
  proof (cases "i < unat (phys_total_pages s)")
    case True
    with "1.prems" have "bitmap_is_free i s = Inr False"
      by (simp add: fault_free pmm_ok_def)
    with "1.IH" [OF True, of False] "1.prems" True show ?thesis
      by (subst pmm_alloc_loop.simps) simp
  qed (simp add: pmm_alloc_loop.simps)
qed

lemma pmm_alloc_loop_first:
  assumes "pmm_ok s" and "i \<le> k" and "k < unat (phys_total_pages s)" and "k \<in> free_set s"
    and "\<And>j. i \<le> j \<Longrightarrow> j < k \<Longrightarrow> j \<notin> free_set s"
  shows "\<exists>s'. pmm_alloc_loop i s = Inr (of_nat k * PAGE_SIZE, s') \<and> takes {k} s s'"
  using assms
proof (induction i s rule: pmm_alloc_loop.induct)
  case (1 i s)
  have lt: "i < unat (phys_total_pages s)" and free: "bitmap_is_free i s = Inr (i \<in> free_set s)"
    using "1.prems" by (auto simp: fault_free pmm_ok_def)
  show ?case
  proof (cases "i = k")
    case True
    then show ?thesis
      using pmm_take_page_takes [of k s] "1.prems"(4) lt free free_set_lt
      by (subst pmm_alloc_loop.simps) auto
  next
    case False
    then have "i < k" and "i \<notin> free_set s"
      using "1.prems" by (auto simp: le_less)
    with "1.IH" [OF lt, of False] "1.prems" free lt show ?thesis
      by (subst pmm_alloc_loop.simps) simp
  qed
qed

text \<open>The pages the allocator looks at, and its result in terms of them.\<close>

definition usable_set :: "pmm \<Rightarrow> nat set" where
  "usable_set s = free_set s \<inter> {512..<unat (phys_total_pages s)}"

lemma finite_usable_set [simp]: "finite (usable_set s)"
  by (simp add: usable_set_def)

lemma usable_setD:
  "k \<in> usable_set s \<Longrightarrow> 512 \<le> k \<and> k < MAX_PAGES \<and> k < unat (phys_total_pages s) \<and> k \<in> free_set s"
  by (auto simp: usable_set_def free_set_lt)

lemma pmm_alloc_empty: "pmm_ok s \<Longrightarrow> usable_set s = {} \<Longrightarrow> pmm_alloc s = Inr (0, s)"
  unfolding pmm_alloc_def
  by (rule pmm_alloc_loop_none) (auto simp: usable_set_def)

lemma pmm_alloc_Min:
  assumes "pmm_ok s" and "usable_set s \<noteq> {}"
  shows "\<exists>s'. pmm_alloc s = Inr (of_nat (Min (usable_set s)) * PAGE_SIZE, s')
    \<and> takes {Min (usable_set s)} s s'"
  unfolding pmm_alloc_def
proof (rule pmm_alloc_loop_first [OF assms(1)])
  let ?k = "Min (usable_set s)"
  have k: "?k \<in> usable_set s"
    using assms(2) by (simp add: Min_in)
  then show "512 \<le> ?k" "?k < unat (phys_total_pages s)" "?k \<in> free_set s"
    by (auto dest: usable_setD)
  fix j assume j: "512 \<le> j" "j < ?k"
  show "j \<notin> free_set s"
  proof
    assume "j \<in> free_set s"
    with j usable_setD [OF k] have "j \<in> usable_set s"
      unfolding usable_set_def by auto
    then have "?k \<le> j"
      by (rule Min_le [OF finite_usable_set])
    with j show False by simp
  qed
qed

text \<open>Frame addresses.\<close>

lemma page_addr_of_nat: "of_nat i * PAGE_SIZE = of_nat (i * 4096)"
  by (simp add: PAGE_SIZE_def)

lemma unat_page_addr: "i < MAX_PAGES \<Longrightarrow> unat (of_nat i * PAGE_SIZE) = i * 4096"
  unfolding page_addr_of_nat by (rule unat_of_nat_u64) (simp add: MAX_PAGES_def)

lemma page_addr_inj:
  assumes "i < MAX_PAGES" and "j < MAX_PAGES" and eq: "of_nat i * PAGE_SIZE = of_nat j * PAGE_SIZE"
  shows "i = j"
proof -
  from unat_page_addr [OF assms(1)] unat_page_addr [OF assms(2)] have "i * 4096 = j * 4096"
    unfolding eq by (rule trans [OF sym])
  then show ?thesis by simp
qed

lemma page_addr_div [simp]: "i < MAX_PAGES \<Longrightarrow> unat (of_nat i * PAGE_SIZE div PAGE_SIZE) = i"
  using unat_page_addr [of i] by (simp add: unat_div_distrib PAGE_SIZE_def)

subsection \<open>A run of frames: first fit\<close>

definition run_at :: "pmm \<Rightarrow> nat \<Rightarrow> nat \<Rightarrow> bool" where
  "run_at s n k \<longleftrightarrow> 512 \<le> k \<and> k + n \<le> unat (phys_total_pages s) \<and> {k..<k + n} \<subseteq> free_set s"

definition first_run :: "pmm \<Rightarrow> nat \<Rightarrow> nat \<Rightarrow> bool" where
  "first_run s n k \<longleftrightarrow> run_at s n k \<and> (\<forall>k' < k. \<not> run_at s n k')"

lemma first_run_exists: "run_at s n k \<Longrightarrow> \<exists>k. first_run s n k"
  unfolding first_run_def using exists_least_iff [of "run_at s n"] by blast

lemma first_run_unique: "first_run s n k \<Longrightarrow> first_run s n k' \<Longrightarrow> k = k'"
  unfolding first_run_def by (meson linorder_neqE_nat)

text \<open>The scan's invariant: the last \<open>len\<close> pages were free, and no run starts before them.\<close>

definition scan_inv :: "nat \<Rightarrow> nat \<Rightarrow> nat \<Rightarrow> nat \<Rightarrow> pmm \<Rightarrow> bool" where
  "scan_inv n i start len s \<longleftrightarrow> len < n \<and> 512 + len \<le> i \<and> (0 < len \<longrightarrow> start = i - len)
     \<and> {i - len..<i} \<subseteq> free_set s \<and> (\<forall>k. run_at s n k \<longrightarrow> i - len \<le> k)"

lemma scan_inv_start: "0 < n \<Longrightarrow> scan_inv n 512 0 0 s"
  by (simp add: scan_inv_def run_at_def)

lemma scan_inv_extend:
  assumes "scan_inv n i start len s" and "i \<in> free_set s" and "len + 1 \<noteq> n"
  shows "scan_inv n (Suc i) (if len = 0 then i else start) (len + 1) s"
  using assms by (auto simp: scan_inv_def atLeastLessThanSuc)

lemma scan_inv_restart:
  assumes "scan_inv n i start len s" and "i \<notin> free_set s"
  shows "scan_inv n (Suc i) start 0 s"
proof -
  have "Suc i \<le> k" if run: "run_at s n k" for k
  proof (rule ccontr)
    assume "\<not> Suc i \<le> k"
    moreover from assms(1) run have "i - len \<le> k" "len < n" "len \<le> i"
      by (auto simp: scan_inv_def)
    ultimately have "i \<in> {k..<k + n}" by simp
    with run assms(2) show False by (auto simp: run_at_def)
  qed
  with assms(1) show ?thesis by (auto simp: scan_inv_def)
qed

lemma scan_inv_found:
  assumes "scan_inv n i start len s" and "i \<in> free_set s" and "len + 1 = n"
    and "i < unat (phys_total_pages s)"
  shows "first_run s n (i - len)" and "(if len = 0 then i else start) = i - len"
proof -
  have "{i - len..<i - len + n} = insert i {i - len..<i}"
    using assms(1,3) by (auto simp: scan_inv_def)
  then have "run_at s n (i - len)"
    using assms by (auto simp: scan_inv_def run_at_def)
  then show "first_run s n (i - len)"
    using assms(1) unfolding first_run_def scan_inv_def by (meson not_le)
  show "(if len = 0 then i else start) = i - len"
    using assms(1) by (simp add: scan_inv_def)
qed

lemma scan_inv_end:
  assumes "scan_inv n i start len s" and "unat (phys_total_pages s) \<le> i"
  shows "\<not> run_at s n k"
proof
  assume run: "run_at s n k"
  with assms(1) have "i - len \<le> k" "len < n" "len \<le> i"
    by (auto simp: scan_inv_def)
  moreover from run assms(2) have "k + n \<le> i"
    by (simp add: run_at_def)
  ultimately show False by simp
qed

lemma pmm_run_loop_none:
  assumes "pmm_ok s" and "scan_inv n i start len s" and "\<And>k. \<not> run_at s n k"
  shows "pmm_run_loop n i start len s = Inr (0, s)"
  using assms
proof (induction n i start len s rule: pmm_run_loop.induct)
  case (1 n i start len s)
  show ?case
  proof (cases "i < unat (phys_total_pages s)")
    case lt: True
    with "1.prems"(1) have free: "bitmap_is_free i s = Inr (i \<in> free_set s)"
      by (simp add: fault_free pmm_ok_def)
    show ?thesis
    proof (cases "i \<in> free_set s")
      case True
      with "1.prems"(3) have "len + 1 \<noteq> n"
        using scan_inv_found(1) [OF "1.prems"(2) True _ lt] by (auto simp: first_run_def)
      with "1.IH"(1) [OF lt, of True] "1.prems" lt free True scan_inv_extend [OF "1.prems"(2)]
      show ?thesis
        by (subst pmm_run_loop.simps) (simp add: Let_def)
    next
      case False
      with "1.IH"(2) [OF lt, of False] "1.prems" lt free scan_inv_restart [OF "1.prems"(2)]
      show ?thesis
        by (subst pmm_run_loop.simps) simp
    qed
  qed (simp add: pmm_run_loop.simps)
qed

lemma pmm_run_loop_first:
  assumes "pmm_ok s" and "scan_inv n i start len s" and "first_run s n k"
  shows "\<exists>s'. pmm_run_loop n i start len s = Inr (of_nat k * PAGE_SIZE, s')
    \<and> takes {k..<k + n} s s'"
  using assms
proof (induction n i start len s rule: pmm_run_loop.induct)
  case (1 n i start len s)
  from "1.prems"(2,3) have lt: "i < unat (phys_total_pages s)"
    using scan_inv_end by (fastforce simp: first_run_def not_less)
  with "1.prems"(1) have free: "bitmap_is_free i s = Inr (i \<in> free_set s)"
    by (simp add: fault_free pmm_ok_def)
  show ?case
  proof (cases "i \<in> free_set s")
    case True
    show ?thesis
    proof (cases "len + 1 = n")
      case found: True
      note f = scan_inv_found [OF "1.prems"(2) True found lt]
      have k: "k = i - len"
        using "1.prems"(3) f(1) by (rule first_run_unique)
      have "k + n \<le> MAX_PAGES"
        using "1.prems"(1,3) by (simp add: first_run_def run_at_def pmm_ok_def)
      from take_run [OF this, of s] show ?thesis
        using found True free lt f(2) k by (subst pmm_run_loop.simps) (auto simp: Let_def)
    next
      case more: False
      with "1.IH"(1) [OF lt, of True] "1.prems" True scan_inv_extend [OF "1.prems"(2) True more]
      show ?thesis
        using free lt by (subst pmm_run_loop.simps) (simp add: Let_def)
    qed
  next
    case False
    with "1.IH"(2) [OF lt, of False] "1.prems" scan_inv_restart [OF "1.prems"(2) False]
    show ?thesis
      using free lt by (subst pmm_run_loop.simps) simp
  qed
qed

lemma pmm_alloc_contiguous_none:
  "pmm_ok s \<Longrightarrow> 0 < n \<Longrightarrow> (\<And>k. \<not> run_at s (unat n) k) \<Longrightarrow>
    pmm_alloc_contiguous n s = Inr (0, s)"
  unfolding pmm_alloc_contiguous_def
  by (rule pmm_run_loop_none) (simp_all add: scan_inv_start unat_gt_0 word_neq_0_conv)

lemma pmm_alloc_contiguous_first:
  "pmm_ok s \<Longrightarrow> 0 < n \<Longrightarrow> first_run s (unat n) k \<Longrightarrow>
    \<exists>s'. pmm_alloc_contiguous n s = Inr (of_nat k * PAGE_SIZE, s')
      \<and> takes {k..<k + unat n} s s'"
  unfolding pmm_alloc_contiguous_def
  by (rule pmm_run_loop_first) (simp_all add: scan_inv_start unat_gt_0 word_neq_0_conv)

subsection \<open>Release\<close>

lemma pmm_free_eq:
  assumes "unat (phys_addr div PAGE_SIZE) < MAX_PAGES"
  shows "\<exists>s'. pmm_free phys_addr s = Inr s'
    \<and> free_set s' = insert (unat (phys_addr div PAGE_SIZE)) (free_set s)
    \<and> phys_free_pages s' = phys_free_pages s
        + (if unat (phys_addr div PAGE_SIZE) \<in> free_set s then 0 else 1)
    \<and> phys_total_pages s' = phys_total_pages s"
proof -
  let ?i = "unat (phys_addr div PAGE_SIZE)"
  obtain b where b: "bitmap_set_free ?i s = Inr (s\<lparr>phys_bitmap := b\<rparr>)"
    "free_set (s\<lparr>phys_bitmap := b\<rparr>) = insert ?i (free_set s)"
    using bitmap_set_free_eq [OF assms] by blast
  then show ?thesis
    using assms by (auto simp: pmm_free_def bitmap_is_free_eq insert_absorb)
qed

lemma pmm_free_out_of_range:
  "MAX_PAGES \<le> unat (phys_addr div PAGE_SIZE) \<Longrightarrow> pmm_free phys_addr s = Inl BitmapOutOfBounds"
  using in_bitmap [of "unat (phys_addr div PAGE_SIZE)"]
  by (auto simp: pmm_free_def bitmap_is_free_def Let_def)

subsection \<open>What set-up does\<close>

definition region_pages :: "EfiMemoryDescriptor \<Rightarrow> nat set" where
  "region_pages d =
     (if efi_usable (efi_type d)
      then {i. i < MAX_PAGES \<and> (\<exists>p < unat (num_pages d). unat (PAGE_INDEX (phys_start d) + of_nat p) = i)}
      else {})"

definition mmap_desc :: "byte_mem \<Rightarrow> u64 \<Rightarrow> u64 \<Rightarrow> nat \<Rightarrow> EfiMemoryDescriptor" where
  "mmap_desc m mmap_addr desc_size i = load_descriptor m (mmap_addr + of_nat i * desc_size)"

definition mmap_pages :: "byte_mem \<Rightarrow> u64 \<Rightarrow> u64 \<Rightarrow> u64 \<Rightarrow> nat set" where
  "mmap_pages m mmap_addr mmap_size desc_size =
     (\<Union>i < unat (mmap_size div desc_size). region_pages (mmap_desc m mmap_addr desc_size i))"

definition mmap_count :: "byte_mem \<Rightarrow> u64 \<Rightarrow> u64 \<Rightarrow> u64 \<Rightarrow> nat" where
  "mmap_count m mmap_addr mmap_size desc_size =
     (\<Sum>i < unat (mmap_size div desc_size). card (region_pages (mmap_desc m mmap_addr desc_size i)))"

definition adds :: "nat set \<Rightarrow> nat \<Rightarrow> pmm \<Rightarrow> pmm \<Rightarrow> bool" where
  "adds A n s s' \<longleftrightarrow> free_set s' = free_set s \<union> A
     \<and> phys_free_pages s' = phys_free_pages s + of_nat n
     \<and> phys_total_pages s' = phys_total_pages s + of_nat n"

lemma adds_refl: "adds {} 0 s s"
  by (simp add: adds_def)

lemma adds_trans: "adds A n s s' \<Longrightarrow> adds B k s' s'' \<Longrightarrow> adds (A \<union> B) (n + k) s s''"
  by (auto simp: adds_def)

lemma region_pages_lt: "region_pages d \<subseteq> {..<MAX_PAGES}"
  by (auto simp: region_pages_def)

lemma finite_region_pages [simp]: "finite (region_pages d)"
  by (rule finite_subset [OF region_pages_lt]) simp

lemma pmm_add_page_adds:
  "\<exists>s'. pmm_add_page start p s = Inr s' \<and>
    (let i = unat (start + of_nat p) in
     if i < MAX_PAGES then adds {i} 1 s s' else s' = s)"
proof (cases "unat (start + of_nat p) < MAX_PAGES")
  case True
  then obtain b where "bitmap_set_free (unat (start + of_nat p)) s = Inr (s\<lparr>phys_bitmap := b\<rparr>)"
    "free_set (s\<lparr>phys_bitmap := b\<rparr>) = insert (unat (start + of_nat p)) (free_set s)"
    using bitmap_set_free_eq by blast
  with True show ?thesis
    by (auto simp: pmm_add_page_def adds_def Let_def)
qed (simp add: pmm_add_page_def)

text \<open>The pages the first \<open>n\<close> rounds of the inner loop have added.\<close>

definition added :: "u64 \<Rightarrow> nat \<Rightarrow> nat set" where
  "added start n = {i. i < MAX_PAGES \<and> (\<exists>p < n. unat (start + of_nat p) = i)}"

lemma finite_added [simp]: "finite (added start n)"
  by (rule finite_subset [of _ "{..<MAX_PAGES}"]) (auto simp: added_def)

lemma page_index_inj:
  "p < 2 ^ 64 \<Longrightarrow> q < 2 ^ 64 \<Longrightarrow> unat (start + of_nat p :: u64) = unat (start + of_nat q) \<Longrightarrow> p = q"
  by (metis add_left_cancel unat_of_nat_u64 word_unat_eq_iff)

lemma added_Suc:
  "added start (Suc n) =
    (if unat (start + of_nat n) < MAX_PAGES
     then insert (unat (start + of_nat n)) (added start n) else added start n)"
  by (auto simp: added_def less_Suc_eq)

lemma added_new: "n < 2 ^ 64 \<Longrightarrow> unat (start + of_nat n) \<notin> added start n"
  by (auto simp: added_def dest: page_index_inj [rotated 2])

lemma pmm_add_region_adds:
  "\<exists>s'. pmm_add_region d s = Inr s' \<and> adds (region_pages d) (card (region_pages d)) s s'"
proof (cases "efi_usable (efi_type d)")
  case True
  let ?start = "PAGE_INDEX (phys_start d)"
  have "\<exists>s'. for_loop 0 (unat (num_pages d)) (pmm_add_page ?start) s = Inr s'
    \<and> adds (added ?start (unat (num_pages d))) (card (added ?start (unat (num_pages d)))) s s'"
  proof (rule for_loop_rule [where P = "\<lambda>n s'. adds (added ?start n) (card (added ?start n)) s s'"])
    show "adds (added ?start 0) (card (added ?start 0)) s s"
      by (simp add: added_def adds_refl)
    fix n s' assume n: "n < unat (num_pages d)" and IH: "adds (added ?start n) (card (added ?start n)) s s'"
    from n have "n < 2 ^ 64" using unat_lt_2p64 [of "num_pages d"] by simp
    note new = added_new [OF this, of ?start]
    obtain s'' where s'': "pmm_add_page ?start n s' = Inr s''"
      "let i = unat (?start + of_nat n) in if i < MAX_PAGES then adds {i} 1 s' s'' else s'' = s'"
      using pmm_add_page_adds by blast
    have "adds (added ?start (Suc n)) (card (added ?start (Suc n))) s s''"
      using s''(2) IH new adds_trans [OF IH, of "{unat (?start + of_nat n)}" 1 s'']
      by (auto simp: added_Suc Let_def split: if_splits)
    with s''(1) show "\<exists>s''. pmm_add_page ?start n s' = Inr s''
      \<and> adds (added ?start (Suc n)) (card (added ?start (Suc n))) s s''" by blast
  qed simp
  moreover have "added ?start (unat (num_pages d)) = region_pages d"
    using True by (simp add: added_def region_pages_def)
  ultimately show ?thesis using True by (simp add: pmm_add_region_def)
qed (simp add: pmm_add_region_def region_pages_def adds_refl)

lemma pmm_init_regions:
  "\<exists>s'. for_loop 0 n (\<lambda>i. pmm_add_region (load_descriptor m (a + of_nat i * dsz))) s = Inr s'
    \<and> adds (\<Union>i < n. region_pages (mmap_desc m a dsz i))
        (\<Sum>i < n. card (region_pages (mmap_desc m a dsz i))) s s'"
proof (rule for_loop_rule [where P = "\<lambda>n s'. adds (\<Union>i < n. region_pages (mmap_desc m a dsz i))
        (\<Sum>i < n. card (region_pages (mmap_desc m a dsz i))) s s'"])
  fix n s' assume IH: "adds (\<Union>i < n. region_pages (mmap_desc m a dsz i))
        (\<Sum>i < n. card (region_pages (mmap_desc m a dsz i))) s s'"
  obtain s'' where s'': "pmm_add_region (mmap_desc m a dsz n) s' = Inr s''"
    "adds (region_pages (mmap_desc m a dsz n)) (card (region_pages (mmap_desc m a dsz n))) s' s''"
    using pmm_add_region_adds by blast
  from adds_trans [OF IH s''(2)] s''(1)
  show "\<exists>s''. pmm_add_region (load_descriptor m (a + of_nat n * dsz)) s' = Inr s''
    \<and> adds (\<Union>i < Suc n. region_pages (mmap_desc m a dsz i))
        (\<Sum>i < Suc n. card (region_pages (mmap_desc m a dsz i))) s s''"
    by (auto simp: mmap_desc_def lessThan_Suc Un_commute add.commute)
qed (simp_all add: adds_refl)

lemma pmm_init_eq:
  assumes "dsz \<noteq> 0"
  shows "\<exists>s'. pmm_init m a sz dsz s = Inr s'
    \<and> free_set s' = mmap_pages m a sz dsz - {..<512}
    \<and> phys_total_pages s' = phys_total_pages s + of_nat (mmap_count m a sz dsz)
    \<and> phys_free_pages s' = phys_free_pages s + of_nat (mmap_count m a sz dsz) - 512"
proof -
  let ?s0 = "s\<lparr>phys_bitmap := (\<lambda>i. if i < BITMAP_SIZE then 0 else phys_bitmap s i)\<rparr>"
  have s0: "free_set ?s0 = {}"
    by (auto simp: free_set_def page_free_def)
  obtain s1 where s1: "for_loop 0 (unat (sz div dsz))
      (\<lambda>i. pmm_add_region (load_descriptor m (a + of_nat i * dsz))) ?s0 = Inr s1"
    "adds (mmap_pages m a sz dsz) (mmap_count m a sz dsz) ?s0 s1"
    unfolding mmap_pages_def mmap_count_def using pmm_init_regions by blast
  obtain s2 where s2: "for_loop 0 512 pmm_take_page s1 = Inr s2" "takes {0..<512} s1 s2"
    using take_run [of 0 512 s1] by (auto simp: MAX_PAGES_def)
  have "pmm_init m a sz dsz s = Inr s2"
    using assms s1(1) s2(1) by (simp add: pmm_init_def Let_def)
  then show ?thesis
    using s1(2) s2(2) s0 by (auto simp: adds_def takes_def atLeast0LessThan)
qed

subsection \<open>The manager as a state machine; the counter of free pages\<close>

datatype pmm_op = PmmAlloc | PmmAllocContiguous u64 | PmmFree u64

fun pmm_step :: "pmm_op \<Rightarrow> pmm \<Rightarrow> pmm checked" where
  "pmm_step PmmAlloc s = rbind (pmm_alloc s) (\<lambda>(a, s'). Inr s')"
| "pmm_step (PmmAllocContiguous n) s = rbind (pmm_alloc_contiguous n s) (\<lambda>(a, s'). Inr s')"
| "pmm_step (PmmFree a) s = pmm_free a s"

fun pmm_allowed :: "pmm_op \<Rightarrow> pmm \<Rightarrow> bool" where
  "pmm_allowed (PmmFree a) s = (unat (a div PAGE_SIZE) < MAX_PAGES)"
| "pmm_allowed _ s = True"

text \<open>
  \<open>phys_free_pages\<close> against the number of pages the bitmap holds free: the drift between
  the two. No operation changes it, so what set-up leaves behind stays.
\<close>

definition pmm_drift :: "pmm \<Rightarrow> u64" where
  "pmm_drift s = phys_free_pages s - of_nat (card (free_set s))"

lemma takes_drift:
  assumes "takes A s s'" and "A \<subseteq> free_set s"
  shows "pmm_drift s' = pmm_drift s"
proof -
  have "finite A" using assms(2) by (rule finite_subset) simp
  then have "card (free_set s') = card (free_set s) - card A"
    using assms by (simp add: takes_def card_Diff_subset)
  moreover have "card A \<le> card (free_set s)"
    using assms(2) by (simp add: card_mono)
  ultimately show ?thesis
    using assms(1) by (simp add: pmm_drift_def takes_def)
qed

lemma pmm_run_loop_zero: "pmm_ok s \<Longrightarrow> pmm_run_loop 0 i start len s = Inr (0, s)"
proof (induction "0::nat" i start len s rule: pmm_run_loop.induct)
  case (1 i start len s)
  show ?case
  proof (cases "i < unat (phys_total_pages s)")
    case lt: True
    with "1.prems" have "bitmap_is_free i s = Inr (i \<in> free_set s)"
      by (simp add: fault_free pmm_ok_def)
    with "1.hyps"(1) [OF lt, of True] "1.hyps"(2) [OF lt, of False] "1.prems" lt show ?thesis
      by (subst pmm_run_loop.simps) (auto simp: Let_def)
  qed (simp add: pmm_run_loop.simps)
qed

text \<open>What each call of an allocator does, in one form.\<close>

lemma pmm_alloc_cases:
  assumes "pmm_ok s"
  obtains (none) "pmm_alloc s = Inr (0, s)" "usable_set s = {}"
  | (frame) k s' where "pmm_alloc s = Inr (of_nat k * PAGE_SIZE, s')" "takes {k} s s'"
      "k \<in> usable_set s" "k = Min (usable_set s)"
  using pmm_alloc_empty [OF assms] pmm_alloc_Min [OF assms] Min_in [OF finite_usable_set]
  by (cases "usable_set s = {}") blast+

lemma pmm_alloc_contiguous_cases:
  assumes "pmm_ok s"
  obtains (none) "pmm_alloc_contiguous n s = Inr (0, s)" "n = 0 \<or> (\<forall>k. \<not> run_at s (unat n) k)"
  | (run) k s' where "pmm_alloc_contiguous n s = Inr (of_nat k * PAGE_SIZE, s')"
      "takes {k..<k + unat n} s s'" "first_run s (unat n) k" "0 < n"
proof (cases "n = 0")
  case True
  with pmm_run_loop_zero [OF assms] none show thesis
    by (simp add: pmm_alloc_contiguous_def)
next
  case False
  then have n: "0 < n" by (simp add: word_neq_0_conv)
  show thesis
  proof (cases "\<exists>k. run_at s (unat n) k")
    case True
    then obtain k where k: "first_run s (unat n) k"
      using first_run_exists by blast
    from pmm_alloc_contiguous_first [OF assms n k] n k run show thesis by blast
  next
    case False
    with pmm_alloc_contiguous_none [OF assms n] none show thesis by blast
  qed
qed

lemma pmm_step_total:
  assumes "pmm_ok s" and "pmm_allowed op s"
  shows "\<exists>s'. pmm_step op s = Inr s' \<and> pmm_ok s' \<and> pmm_drift s' = pmm_drift s"
proof (cases op)
  case PmmAlloc
  show ?thesis
  proof (rule pmm_alloc_cases [OF assms(1)])
    assume "pmm_alloc s = Inr (0, s)"
    with PmmAlloc assms(1) show ?thesis by simp
  next
    fix k s' assume a: "pmm_alloc s = Inr (of_nat k * PAGE_SIZE, s')" "takes {k} s s'" "k \<in> usable_set s"
    have "pmm_drift s' = pmm_drift s"
      using a(2) usable_setD [OF a(3)] by (intro takes_drift) auto
    with a PmmAlloc assms(1) show ?thesis by (simp add: takes_ok)
  qed
next
  case (PmmAllocContiguous n)
  show ?thesis
  proof (rule pmm_alloc_contiguous_cases [OF assms(1), of n])
    assume "pmm_alloc_contiguous n s = Inr (0, s)"
    with PmmAllocContiguous assms(1) show ?thesis by simp
  next
    fix k s' assume a: "pmm_alloc_contiguous n s = Inr (of_nat k * PAGE_SIZE, s')"
      "takes {k..<k + unat n} s s'" "first_run s (unat n) k"
    then have "pmm_drift s' = pmm_drift s"
      by (intro takes_drift) (auto simp: first_run_def run_at_def)
    with a PmmAllocContiguous assms(1) show ?thesis by (simp add: takes_ok)
  qed
next
  case (PmmFree a)
  with assms pmm_free_eq [of a s] show ?thesis
    by (auto simp: pmm_ok_def pmm_drift_def insert_absorb split: if_splits)
qed

interpretation pmm_sys: invariant_system pmm_step pmm_allowed pmm_ok
  by unfold_locales (use pmm_step_total in fastforce)+

subsection \<open>The manager as the allocator of frames\<close>

text \<open>The frames \<open>pmm_alloc\<close> can hand out.\<close>

definition pmm_free_frames :: "pmm \<Rightarrow> u64 set" where
  "pmm_free_frames s = (\<lambda>i. of_nat i * PAGE_SIZE) ` usable_set s"

lemma page_addr_frame: "i < MAX_PAGES \<Longrightarrow> frame_addr (of_nat i * PAGE_SIZE)"
proof -
  assume i: "i < MAX_PAGES"
  have shift: "of_nat i * PAGE_SIZE = push_bit 12 (of_nat i :: u64)"
    by (simp add: PAGE_SIZE_def push_bit_eq_mult)
  have "m < 25" if "bit (of_nat i :: u64) m" for m
  proof (rule ccontr)
    assume "\<not> m < 25"
    then have "(2::nat) ^ 25 \<le> 2 ^ m" by (intro power_increasing) auto
    with i have "i < 2 ^ m" by (simp add: MAX_PAGES_def)
    then have "\<not> bit i m" by (simp add: bit_iff_odd)
    with that show False by (simp add: bit_of_nat_iff)
  qed
  then show ?thesis
    unfolding frame_addr_iff shift by (fastforce simp: bit_push_bit_iff)
qed

lemma page_addr_neq_0: "512 \<le> k \<Longrightarrow> k < MAX_PAGES \<Longrightarrow> of_nat k * PAGE_SIZE \<noteq> 0"
  using unat_page_addr [of k] by (metis mult_eq_0_iff not_numeral_le_zero unat_0 zero_neq_numeral)

lemma page_in_frames:
  assumes "i < MAX_PAGES"
  shows "of_nat i * PAGE_SIZE \<in> pmm_free_frames s \<longleftrightarrow> i \<in> usable_set s"
proof
  assume "of_nat i * PAGE_SIZE \<in> pmm_free_frames s"
  then obtain j where "j \<in> usable_set s" "of_nat i * PAGE_SIZE = of_nat j * PAGE_SIZE"
    unfolding pmm_free_frames_def by blast
  then show "i \<in> usable_set s"
    using page_addr_inj [OF assms, of j] usable_setD by blast
qed (simp add: pmm_free_frames_def)

lemma pmm_free_frames_takes:
  assumes "takes {k} s s'" and "k < MAX_PAGES"
  shows "pmm_free_frames s' = pmm_free_frames s - {of_nat k * PAGE_SIZE}"
proof -
  have "inj_on (\<lambda>i. of_nat i * PAGE_SIZE) (insert k (usable_set s))"
    using assms(2) by (auto simp: inj_on_def intro: page_addr_inj dest: usable_setD)
  moreover have "usable_set s' = usable_set s - {k}"
    using assms(1) by (auto simp: takes_def usable_set_def)
  ultimately show ?thesis
    by (auto simp: pmm_free_frames_def inj_on_def)
qed

interpretation pmm_frames: frame_allocator pmm_alloc pmm_free_frames pmm_ok
proof unfold_locales
  fix p assume ok: "pmm_ok p"
  show "\<exists>f p'. pmm_alloc p = Inr (f, p')"
    by (rule pmm_alloc_cases [OF ok]) blast+
  show "frame_addr f" if "f \<in> pmm_free_frames p" for f
    using that by (auto simp: pmm_free_frames_def page_addr_frame dest: usable_setD)
  fix f p' assume a: "pmm_alloc p = Inr (f, p')"
  show "pmm_ok p'"
    by (rule pmm_alloc_cases [OF ok]) (use a ok in \<open>auto simp: takes_ok\<close>)
  show "f \<in> pmm_free_frames p \<and> pmm_free_frames p' = pmm_free_frames p - {f}" if "f \<noteq> 0"
    by (rule pmm_alloc_cases [OF ok])
      (use a that in \<open>auto simp: pmm_free_frames_takes dest: usable_setD\<close>,
        auto simp: pmm_free_frames_def dest: usable_setD)
next
  fix p p' assume ok: "pmm_ok p" and a: "pmm_alloc p = Inr (0, p')"
  show "p' = p \<and> pmm_free_frames p = {}"
    by (rule pmm_alloc_cases [OF ok])
      (use a page_addr_neq_0 in \<open>auto simp: pmm_free_frames_def dest!: usable_setD\<close>)
qed

subsection \<open>What the manager promises\<close>

text \<open>A manager of 600 pages whose bitmap is all free, to try the properties on.\<close>

definition pmm_sample :: pmm where
  "pmm_sample = \<lparr>phys_bitmap = (\<lambda>_. 0xFF), phys_total_pages = 600, phys_free_pages = 600\<rparr>"

lemma pmm_sample_ok: "pmm_ok pmm_sample"
  by (simp add: pmm_ok_def pmm_sample_def MAX_PAGES_def)

lemma bit_all_free: "bit (0xFF :: u8) (i mod 8)" for i :: nat
proof -
  have "i mod 8 \<in> {0, 1, 2, 3, 4, 5, 6, 7}"
    by auto
  then show ?thesis
    by auto
qed

lemma pmm_sample_usable: "usable_set pmm_sample = {512..<600}"
  using bit_all_free
  by (auto simp: usable_set_def free_set_def page_free_def pmm_sample_def MAX_PAGES_def)

lemma pmm_sample_Min: "Min (usable_set pmm_sample) = 512"
  unfolding pmm_sample_usable by (rule Min_eqI) auto

text \<open>C17: \<open>pmm_alloc\<close> returns and hands out the lowest free page from page 512 up to the page
  count, takes exactly that page out of the bitmap and counts it; if there is none it returns 0
  and changes nothing.\<close>

theorem pmm_alloc_lowest_page:
  assumes "pmm_ok s"
  shows "if usable_set s = {} then pmm_alloc s = Inr (0, s)
    else \<exists>s'. pmm_alloc s = Inr (of_nat (Min (usable_set s)) * PAGE_SIZE, s')
      \<and> free_set s' = free_set s - {Min (usable_set s)}
      \<and> phys_free_pages s' = phys_free_pages s - 1 \<and> phys_total_pages s' = phys_total_pages s"
  using pmm_alloc_empty [OF assms] pmm_alloc_Min [OF assms] by (auto simp: takes_def)

theorem pmm_alloc_lowest_page_witness:
  "\<exists>s'. pmm_alloc pmm_sample = Inr (2097152, s') \<and> free_set s' = free_set pmm_sample - {512}
    \<and> phys_free_pages s' = 599 \<and> phys_total_pages s' = 600"
  using pmm_alloc_lowest_page [OF pmm_sample_ok] unfolding pmm_sample_Min
  by (simp add: pmm_sample_usable) (simp add: PAGE_SIZE_def pmm_sample_def)

text \<open>C16: \<open>pmm_alloc_contiguous\<close> is first fit: it returns the address of the lowest run of \<open>n\<close>
  free pages between page 512 and the page count and takes exactly that run; without such a run,
  or for \<open>n = 0\<close>, it returns 0 and changes nothing.\<close>

theorem pmm_alloc_contiguous_first_fit:
  assumes "pmm_ok s"
  shows "if n = 0 \<or> (\<forall>k. \<not> run_at s (unat n) k) then pmm_alloc_contiguous n s = Inr (0, s)
    else \<exists>k s'. first_run s (unat n) k \<and> pmm_alloc_contiguous n s = Inr (of_nat k * PAGE_SIZE, s')
      \<and> free_set s' = free_set s - {k..<k + unat n}
      \<and> phys_free_pages s' = phys_free_pages s - n \<and> phys_total_pages s' = phys_total_pages s"
proof (cases "n = 0 \<or> (\<forall>k. \<not> run_at s (unat n) k)")
  case True
  then have "pmm_alloc_contiguous n s = Inr (0, s)"
    using pmm_alloc_contiguous_none [OF assms, of n] pmm_run_loop_zero [OF assms]
    by (cases "n = 0") (auto simp: pmm_alloc_contiguous_def word_neq_0_conv)
  with True show ?thesis by simp
next
  case False
  then obtain k where "run_at s (unat n) k" and n: "0 < n"
    by (auto simp: word_neq_0_conv)
  then obtain k where k: "first_run s (unat n) k"
    using first_run_exists by blast
  with False pmm_alloc_contiguous_first [OF assms n k] show ?thesis
    by (auto simp: takes_def)
qed

theorem pmm_alloc_contiguous_first_fit_witness:
  "\<exists>k s'. first_run pmm_sample 88 k \<and> pmm_alloc_contiguous 88 pmm_sample = Inr (of_nat k * PAGE_SIZE, s')
      \<and> free_set s' = free_set pmm_sample - {k..<k + 88}
      \<and> phys_free_pages s' = 512 \<and> phys_total_pages s' = 600"
proof -
  have "{512..<600} \<subseteq> free_set pmm_sample"
    using pmm_sample_usable by (auto simp: usable_set_def)
  then have "run_at pmm_sample 88 512"
    by (simp add: run_at_def) (simp add: pmm_sample_def)
  then show ?thesis
    using pmm_alloc_contiguous_first_fit [OF pmm_sample_ok, of 88]
    by (auto simp: pmm_sample_def split: if_splits)
qed

text \<open>The two allocators agree: asking for a run of one page is asking for a page.\<close>

theorem pmm_alloc_is_run_of_one: "pmm_alloc_contiguous 1 s = pmm_alloc s"
proof -
  have "pmm_run_loop 1 i start 0 s = pmm_alloc_loop i s" for i start
  proof (induction i s rule: pmm_alloc_loop.induct)
    case (1 i s)
    have body: "for_loop i (i + 1) pmm_take_page s = pmm_take_page i s"
      by (simp add: for_loop_step)
    show ?case
      using 1 by (subst pmm_run_loop.simps, subst pmm_alloc_loop.simps)
        (auto simp: Let_def body [simplified] intro!: rbind_cong)
  qed
  then show ?thesis
    by (simp add: pmm_alloc_contiguous_def pmm_alloc_def)
qed

text \<open>The state \<open>pmm_alloc\<close> leaves when it finds a page.\<close>

lemma pmm_alloc_loop_takes:
  assumes "pmm_ok s" "i \<le> k" "k < unat (phys_total_pages s)" "k \<in> free_set s"
    "\<And>j. i \<le> j \<Longrightarrow> j < k \<Longrightarrow> j \<notin> free_set s" "pmm_alloc_loop i s = Inr (a, s')"
  shows "pmm_take_page k s = Inr s'"
  using assms
proof (induction i s rule: pmm_alloc_loop.induct)
  case (1 i s)
  have lt: "i < unat (phys_total_pages s)" and free: "bitmap_is_free i s = Inr (i \<in> free_set s)"
    using "1.prems" by (auto simp: fault_free pmm_ok_def)
  note step = "1.prems"(6) [unfolded pmm_alloc_loop.simps [of i s]]
  show ?case
  proof (cases "i = k")
    case True
    with step lt free "1.prems"(4) show ?thesis by auto
  next
    case False
    then have "i < k" and "i \<notin> free_set s"
      using "1.prems" by (auto simp: le_less)
    with "1.IH" [OF lt, of False] "1.prems" free lt step show ?thesis by simp
  qed
qed

lemma pmm_alloc_takes:
  assumes "pmm_ok s" "k \<in> usable_set s" "k = Min (usable_set s)" "pmm_alloc s = Inr (a, s')"
  shows "pmm_take_page k s = Inr s'"
proof (rule pmm_alloc_loop_takes [of s 512 k a s'])
  show "512 \<le> k" "k < unat (phys_total_pages s)" "k \<in> free_set s"
    using usable_setD [OF assms(2)] by auto
  fix j assume j: "512 \<le> j" "j < k"
  show "j \<notin> free_set s"
  proof
    assume "j \<in> free_set s"
    then have "j \<in> usable_set s"
      using j usable_setD [OF assms(2)] by (auto simp: usable_set_def)
    then have "Min (usable_set s) \<le> j"
      by (rule Min_le [OF finite_usable_set])
    with j(2) assms(3) show False by linarith
  qed
qed (use assms in \<open>simp_all add: pmm_alloc_def\<close>)

text \<open>Freeing the page just allocated undoes the allocation: the whole state is as before.\<close>

theorem pmm_free_undoes_alloc:
  assumes "pmm_ok s" and "pmm_alloc s = Inr (a, s')" and "a \<noteq> 0"
  shows "pmm_free a s' = Inr s"
proof (rule pmm_alloc_cases [OF assms(1)])
  assume "pmm_alloc s = Inr (0, s)"
  with assms show ?thesis by simp
next
  fix k t assume a: "pmm_alloc s = Inr (of_nat k * PAGE_SIZE, t)" "k = Min (usable_set s)"
    and t: "takes {k} s t" and k: "k \<in> usable_set s"
  have lt: "k < MAX_PAGES" and free: "k \<in> free_set s"
    using usable_setD [OF k] by auto
  have take: "pmm_take_page k s = Inr s'"
    using pmm_alloc_takes [OF assms(1) k a(2)] a(1) assms(2) by auto
  have idx: "unat (a div PAGE_SIZE) = k"
    using a(1) assms(2) lt by simp
  have mask: "(2 :: u8) ^ n = push_bit n 1" for n
    by simp
  have undo: "(b AND NOT (2 ^ n)) OR 2 ^ n = b" if "bit b n" for b :: u8 and n
    unfolding mask using that by (intro bit_eqI) (auto simp: bit_or_iff bit_and_iff bit_not_iff bit_exp_iff)
  have gone: "\<not> bit (b AND NOT (2 ^ n)) n" for b :: u8 and n
    by (auto simp: bit_and_iff bit_not_iff bit_exp_iff dest: bit_imp_le_length)
  have "bit (phys_bitmap s (k div 8)) (k mod 8)"
    using free by (simp add: free_set_def page_free_def)
  with take lt idx show ?thesis
    by (auto simp: pmm_take_page_def bitmap_set_used_def pmm_free_def bitmap_is_free_eq
        bitmap_set_free_def free_set_def page_free_def undo gone)
qed

theorem pmm_free_undoes_alloc_witness:
  "\<exists>s'. pmm_alloc pmm_sample = Inr (2097152, s') \<and> pmm_free 2097152 s' = Inr pmm_sample"
proof -
  obtain s' where s': "pmm_alloc pmm_sample = Inr (2097152, s')"
    using pmm_alloc_Min [OF pmm_sample_ok] unfolding pmm_sample_Min
    by (auto simp: pmm_sample_usable PAGE_SIZE_def)
  with pmm_free_undoes_alloc [OF pmm_sample_ok s'] show ?thesis by auto
qed

text \<open>\<open>pmm_free\<close> stays inside the bitmap exactly for the addresses below 128 GB. There it
  marks the page free and counts it unless it was free already; above, it runs past the
  bitmap.\<close>

theorem pmm_free_outcome:
  "if unat (a div PAGE_SIZE) < MAX_PAGES
   then \<exists>s'. pmm_free a s = Inr s' \<and> free_set s' = insert (unat (a div PAGE_SIZE)) (free_set s)
     \<and> phys_free_pages s' = phys_free_pages s + (if unat (a div PAGE_SIZE) \<in> free_set s then 0 else 1)
     \<and> phys_total_pages s' = phys_total_pages s
   else pmm_free a s = Inl BitmapOutOfBounds"
  using pmm_free_eq [of a s] pmm_free_out_of_range [of a s] by simp

text \<open>C18: Any sequence of allocations of pages and runs and of frees of addresses below 128 GB runs
  without a fault and keeps the difference between the counter of free pages and the number of
  pages free in the bitmap.\<close>

theorem pmm_runs_keep_counter:
  assumes "pmm_ok s" and "\<forall>op \<in> set ops. pmm_allowed op s"
  shows "\<exists>s'. pmm_sys.run s ops s' \<and> pmm_ok s' \<and> pmm_drift s' = pmm_drift s"
  using assms
proof (induction ops arbitrary: s)
  case Nil
  then show ?case by (auto intro: pmm_sys.run_nil)
next
  case (Cons op ops)
  then obtain s1 where s1: "pmm_step op s = Inr s1" "pmm_ok s1" "pmm_drift s1 = pmm_drift s"
    using pmm_step_total [of s op] by auto
  have "pmm_allowed o' s1 = pmm_allowed o' s" for o'
    by (cases o') simp_all
  with Cons.prems(2) Cons.IH [OF s1(2)] obtain s' where
    s': "pmm_sys.run s1 ops s'" "pmm_ok s'" "pmm_drift s' = pmm_drift s1"
    by auto
  moreover have "pmm_sys.run s (op # ops) s'"
    using pmm_sys.run_cons [OF _ s1(1) s'(1)] Cons.prems(2) by simp
  ultimately show ?case
    using s1(3) by auto
qed

theorem pmm_runs_keep_counter_witness:
  "\<exists>s'. pmm_sys.run pmm_sample [PmmAlloc, PmmAllocContiguous 16, PmmFree 0x200000, PmmFree 0x200000] s'
    \<and> pmm_ok s' \<and> pmm_drift s' = pmm_drift pmm_sample"
  by (rule pmm_runs_keep_counter [OF pmm_sample_ok])
    (simp add: PAGE_SIZE_def MAX_PAGES_def unat_div_distrib)

subsection \<open>What set-up leaves behind\<close>

text \<open>A memory map of one usable region: four pages from 2 MB on, described at \<open>0x1000\<close>.\<close>

definition efi_sample :: byte_mem where
  "efi_sample = (\<lambda>_. 0)(0x1000 := 7, 0x100A := 0x20, 0x1018 := 4)"

lemma efi_sample_desc:
  "mmap_desc efi_sample 0x1000 40 0 =
    \<lparr>efi_type = 7, efi_pad = 0, phys_start = 0x200000, virt_start = 0, num_pages = 4, efi_attr = 0\<rparr>"
  by (simp add: mmap_desc_def load_descriptor_def load64_def load32_def efi_sample_def)

lemma efi_sample_region: "region_pages (mmap_desc efi_sample 0x1000 40 0) = {512, 513, 514, 515}"
proof -
  have img: "{i. i < n \<and> (\<exists>p < k. f p = i)} = f ` {..<k} \<inter> {..<n}" for f :: "nat \<Rightarrow> nat" and n k
    by auto
  have four: "{..<4 :: nat} = {0, 1, 2, 3}"
    by auto
  show ?thesis
    unfolding efi_sample_desc
    by (simp add: region_pages_def efi_usable_def img four PAGE_INDEX_def PAGE_SIZE_def MAX_PAGES_def)
qed

lemma efi_sample_pages:
  "mmap_pages efi_sample 0x1000 40 40 = {512, 513, 514, 515}"
  "mmap_count efi_sample 0x1000 40 40 = 4"
  by (simp_all add: mmap_pages_def mmap_count_def efi_sample_region lessThan_Suc)

text \<open>From the zeroed state, \<open>pmm_init\<close> faults exactly if the descriptor size is 0 and otherwise
  frees the pages below 128 GB of the conventional and boot-services regions, less the first
  512; the total counts the pages of those regions, and the free counter is 512 below it.\<close>

theorem pmm_init_effect:
  "if dsz = 0 then pmm_init m a sz dsz pmm_static = Inl DivideByZero
   else \<exists>s. pmm_init m a sz dsz pmm_static = Inr s
     \<and> free_set s = mmap_pages m a sz dsz - {..<512}
     \<and> phys_total_pages s = of_nat (mmap_count m a sz dsz)
     \<and> phys_free_pages s = of_nat (mmap_count m a sz dsz) - 512"
  using pmm_init_eq [of dsz m a sz pmm_static]
  by (auto simp: pmm_static_def) (simp add: pmm_init_def Let_def)

text \<open>C34: The free counter set-up leaves is the number of free pages exactly if all 512 pages below
  2 MB are in the memory map (for a map whose regions do not overlap): set-up subtracts them from
  the counter whether it had counted them or not.\<close>

theorem pmm_init_counter_exact_iff:
  assumes "dsz \<noteq> 0" and "mmap_count m a sz dsz = card (mmap_pages m a sz dsz)"
    and "pmm_init m a sz dsz pmm_static = Inr s"
  shows "phys_free_pages s = of_nat (card (free_set s)) \<longleftrightarrow> {..<512} \<subseteq> mmap_pages m a sz dsz"
proof -
  let ?P = "mmap_pages m a sz dsz" and ?low = "{..<512} :: nat set"
  have s: "free_set s = ?P - ?low" "phys_free_pages s = of_nat (card ?P) - 512"
    using pmm_init_eq [OF assms(1), of m a sz pmm_static] assms(2,3) by (auto simp: pmm_static_def)
  have fin: "finite ?P"
    by (simp add: mmap_pages_def)
  then have split: "card ?P = card (free_set s) + card (?P \<inter> ?low)"
    using card_Int_Diff [of ?P ?low] s(1) by simp
  have le: "card (?P \<inter> ?low) \<le> 512"
    using card_mono [of ?low "?P \<inter> ?low"] by simp
  have "phys_free_pages s = of_nat (card (free_set s)) \<longleftrightarrow> (of_nat (card (?P \<inter> ?low)) :: u64) = 512"
    unfolding s(2) split by (simp add: algebra_simps)
  also have "\<dots> \<longleftrightarrow> card (?P \<inter> ?low) = 512"
    using le unat_of_nat_u64 [of "card (?P \<inter> ?low)"] by (auto simp flip: unat_eq_iff)
  also have "\<dots> \<longleftrightarrow> ?low \<subseteq> ?P"
    using card_subset_eq [of ?low "?P \<inter> ?low"] by (auto simp: Int_absorb1)
  finally show ?thesis .
qed

theorem pmm_init_counter_exact_iff_witness:
  "\<exists>s. pmm_init efi_sample 0x1000 40 40 pmm_static = Inr s \<and> phys_free_pages s \<noteq> of_nat (card (free_set s))"
proof -
  obtain s where s: "pmm_init efi_sample 0x1000 40 40 pmm_static = Inr s"
    using pmm_init_eq [of 40 efi_sample "0x1000" 40 pmm_static] by auto
  have "\<not> {..<512} \<subseteq> mmap_pages efi_sample 0x1000 40 40"
    unfolding efi_sample_pages by (simp add: subset_iff) (intro exI [of _ 0], simp)
  with pmm_init_counter_exact_iff [OF _ _ s] s show ?thesis
    by (auto simp: efi_sample_pages)
qed

text \<open>The allocators stop at the page whose index is the number of pages, so memory that lies
  above its own size is never handed out: with a map of \<open>n\<close> pages all at index \<open>n\<close> or higher,
  \<open>pmm_alloc\<close> finds nothing right after set-up.\<close>

theorem pmm_high_memory_lost:
  assumes "dsz \<noteq> 0" and "mmap_count m a sz dsz \<le> MAX_PAGES"
    and "\<forall>i \<in> mmap_pages m a sz dsz. mmap_count m a sz dsz \<le> i"
  shows "\<exists>s. pmm_init m a sz dsz pmm_static = Inr s \<and> card (free_set s) = card (mmap_pages m a sz dsz - {..<512})
    \<and> pmm_alloc s = Inr (0, s)"
proof -
  obtain s where s: "pmm_init m a sz dsz pmm_static = Inr s"
    "free_set s = mmap_pages m a sz dsz - {..<512}" "phys_total_pages s = of_nat (mmap_count m a sz dsz)"
    using pmm_init_eq [OF assms(1), of m a sz pmm_static] by (auto simp: pmm_static_def)
  have total: "unat (phys_total_pages s) = mmap_count m a sz dsz"
    unfolding s(3) using assms(2) by (intro unat_of_nat_u64) (simp add: MAX_PAGES_def)
  then have "pmm_ok s" "usable_set s = {}"
    using assms(2,3) s(2) by (auto simp: pmm_ok_def usable_set_def)
  from pmm_alloc_empty [OF this] s(1,2) show ?thesis by auto
qed

theorem pmm_high_memory_lost_witness:
  "\<exists>s. pmm_init efi_sample 0x1000 40 40 pmm_static = Inr s \<and> card (free_set s) = 4 \<and> pmm_alloc s = Inr (0, s)"
proof -
  have "{512, 513, 514, 515} - {..<512 :: nat} = {512, 513, 514, 515}"
    by auto
  then have "card (mmap_pages efi_sample 0x1000 40 40 - {..<512}) = 4"
    unfolding efi_sample_pages by simp
  moreover have "\<exists>s. pmm_init efi_sample 0x1000 40 40 pmm_static = Inr s
      \<and> card (free_set s) = card (mmap_pages efi_sample 0x1000 40 40 - {..<512}) \<and> pmm_alloc s = Inr (0, s)"
    by (rule pmm_high_memory_lost) (auto simp: efi_sample_pages MAX_PAGES_def)
  ultimately show ?thesis
    by (simp only:)
qed

end
