(* ===== verification/PageTable.thy ===== *)
theory PageTable
  imports PhysMem
begin

section \<open>The virtual memory manager\<close>

text \<open>
  \<^verbatim>\<open>kernel/memory/memory.c\<close>, lines 36 to 53 and 181 to 286: the walk of the four-level page
  table that creates missing tables, the operations that map, unmap and translate a page, and
  the set-up of the kernel's own tables. Memory is the map from the pointer the C code
  dereferences to the 64-bit word there; page tables are only read and written through the
  window at \<open>VIRT_PHYS_MAP_BASE\<close>. The frame allocator the walk calls is an argument, with the
  contract of locale \<open>frame_allocator\<close>.
\<close>

declare One_nat_def [simp del]

subsection \<open>Constants and state\<close>

definition VIRT_PHYS_MAP_BASE :: u64 where "VIRT_PHYS_MAP_BASE = 0xFFFF000000000000"
definition PTE_PRESENT :: u64 where "PTE_PRESENT = push_bit 0 1"
definition PTE_WRITABLE :: u64 where "PTE_WRITABLE = push_bit 1 1"
definition PTE_GLOBAL :: u64 where "PTE_GLOBAL = push_bit 8 1"
definition PTE_NX :: u64 where "PTE_NX = push_bit 63 1"

lemmas pte_flags [layout_simps] =
  PTE_PRESENT_def PTE_WRITABLE_def PTE_GLOBAL_def PTE_NX_def

record 'p vmm =
  frames :: 'p
  cells :: "u64 \<Rightarrow> u64"
  invlpgs :: "u64 list"
  kernel_pml4 :: u64
  cr3 :: u64

definition vmm_get_cr3 :: "'p vmm \<Rightarrow> u64" where "vmm_get_cr3 s = cr3 s"

subsection \<open>The walk\<close>

definition pt_index :: "u64 \<Rightarrow> nat \<Rightarrow> nat" where
  "pt_index vaddr l = unat (drop_bit (12 + 9 * (l - 1)) vaddr AND 0x1FF)"

definition phys_ptr :: "u64 \<Rightarrow> u64" where
  "phys_ptr p = p + VIRT_PHYS_MAP_BASE"

definition entry_ptr :: "u64 \<Rightarrow> nat \<Rightarrow> u64" where
  "entry_ptr table i = table + 8 * of_nat i"

definition zero_table :: "u64 \<Rightarrow> (u64 \<Rightarrow> u64) \<Rightarrow> (u64 \<Rightarrow> u64)" where
  "zero_table nt c = fold (\<lambda>i c. c(entry_ptr nt i := 0)) [0..<512] c"

text \<open>One round of the loop: the table the entry points to, created when it is missing.\<close>

definition vmm_descend ::
    "('p \<Rightarrow> (u64 \<times> 'p) checked) \<Rightarrow> bool \<Rightarrow> u64 \<Rightarrow> 'p vmm \<Rightarrow> (u64 option \<times> 'p vmm) checked" where
  "vmm_descend alloc create entry s =
     (if cells s entry AND PTE_PRESENT = 0 then
        if \<not> create then Inr (None, s)
        else rbind (alloc (frames s)) (\<lambda>(new_table, p).
          let s1 = s\<lparr>frames := p\<rparr> in
          if new_table = 0 then Inr (None, s1)
          else
            let c = (zero_table (phys_ptr new_table) (cells s1))
                      (entry := new_table OR PTE_PRESENT OR PTE_WRITABLE) in
            Inr (Some (phys_ptr (c entry AND PTE_ADDR_MASK)), s1\<lparr>cells := c\<rparr>))
      else Inr (Some (phys_ptr (cells s entry AND PTE_ADDR_MASK)), s))"

function vmm_walk ::
    "('p \<Rightarrow> (u64 \<times> 'p) checked) \<Rightarrow> u64 \<Rightarrow> nat \<Rightarrow> bool \<Rightarrow> nat \<Rightarrow> u64 \<Rightarrow> 'p vmm
      \<Rightarrow> (u64 option \<times> 'p vmm) checked" where
  "vmm_walk alloc vaddr level create l table s =
     (if level < l
      then rbind (vmm_descend alloc create (entry_ptr table (pt_index vaddr l)) s) (\<lambda>(next, s').
        case next of
          None \<Rightarrow> Inr (None, s')
        | Some table' \<Rightarrow> vmm_walk alloc vaddr level create (l - 1) table' s')
      else Inr (Some (entry_ptr table (pt_index vaddr level)), s))"
  by pat_completeness auto
termination
  by (relation "measure (\<lambda>(alloc, vaddr, level, create, l, table, s). l)") auto

declare vmm_walk.simps [simp del]

definition vmm_get_pte ::
    "('p \<Rightarrow> (u64 \<times> 'p) checked) \<Rightarrow> u64 \<Rightarrow> u64 \<Rightarrow> nat \<Rightarrow> bool \<Rightarrow> 'p vmm
      \<Rightarrow> (u64 option \<times> 'p vmm) checked" where
  "vmm_get_pte alloc pml4_phys vaddr level create s =
     vmm_walk alloc vaddr level create 4 (phys_ptr pml4_phys) s"

subsection \<open>Map, unmap, translate, set up\<close>

definition vmm_invlpg :: "u64 \<Rightarrow> 'p vmm \<Rightarrow> 'p vmm" where
  "vmm_invlpg vaddr s = s\<lparr>invlpgs := vaddr # invlpgs s\<rparr>"

definition write_cell :: "u64 \<Rightarrow> u64 \<Rightarrow> 'p vmm \<Rightarrow> 'p vmm" where
  "write_cell ptr v s = s\<lparr>cells := (cells s)(ptr := v)\<rparr>"

definition vmm_map ::
    "('p \<Rightarrow> (u64 \<times> 'p) checked) \<Rightarrow> u64 \<Rightarrow> u64 \<Rightarrow> u64 \<Rightarrow> u64 \<Rightarrow> 'p vmm \<Rightarrow> (int \<times> 'p vmm) checked" where
  "vmm_map alloc pml4_phys vaddr phys flags s =
     rbind (vmm_get_pte alloc pml4_phys vaddr 1 True s) (\<lambda>(pte, s).
       case pte of
         None \<Rightarrow> Inr (-1, s)
       | Some ptr \<Rightarrow>
           Inr (0, vmm_invlpg vaddr
                     (write_cell ptr ((phys AND PTE_ADDR_MASK) OR flags OR PTE_PRESENT) s)))"

definition vmm_unmap ::
    "('p \<Rightarrow> (u64 \<times> 'p) checked) \<Rightarrow> u64 \<Rightarrow> u64 \<Rightarrow> 'p vmm \<Rightarrow> 'p vmm checked" where
  "vmm_unmap alloc pml4_phys vaddr s =
     rbind (vmm_get_pte alloc pml4_phys vaddr 1 False s) (\<lambda>(pte, s).
       case pte of
         None \<Rightarrow> Inr s
       | Some ptr \<Rightarrow>
           if cells s ptr AND PTE_PRESENT \<noteq> 0
           then Inr (vmm_invlpg vaddr (write_cell ptr 0 s))
           else Inr s)"

definition vmm_virt_to_phys ::
    "('p \<Rightarrow> (u64 \<times> 'p) checked) \<Rightarrow> u64 \<Rightarrow> u64 \<Rightarrow> 'p vmm \<Rightarrow> u64 checked" where
  "vmm_virt_to_phys alloc pml4_phys vaddr s =
     rbind (vmm_get_pte alloc pml4_phys vaddr 1 False s) (\<lambda>(pte, s).
       case pte of
         None \<Rightarrow> Inr 0
       | Some ptr \<Rightarrow>
           if cells s ptr AND PTE_PRESENT = 0 then Inr 0
           else Inr ((cells s ptr AND PTE_ADDR_MASK) OR (vaddr AND 0xFFF)))"

definition vmm_map_range ::
    "('p \<Rightarrow> (u64 \<times> 'p) checked) \<Rightarrow> u64 \<Rightarrow> u64 \<Rightarrow> nat \<Rightarrow> 'p vmm \<Rightarrow> 'p vmm checked" where
  "vmm_map_range alloc base flags n s =
     for_loop 0 n (\<lambda>i s.
       let addr = of_nat i * PAGE_SIZE in
       rbind (vmm_map alloc (kernel_pml4 s) (base + addr) addr flags s) (\<lambda>(r, s). Inr s)) s"

definition vmm_init :: "('p \<Rightarrow> (u64 \<times> 'p) checked) \<Rightarrow> 'p vmm \<Rightarrow> 'p vmm checked" where
  "vmm_init alloc s =
     rbind (alloc (frames s)) (\<lambda>(root, p).
       let s1 = s\<lparr>frames := p, kernel_pml4 := root\<rparr> in
       if root = 0 then Inr s1
       else
         let s2 = s1\<lparr>cells := zero_table (phys_ptr root) (cells s1)\<rparr> in
         rbind (vmm_map_range alloc 0 (PTE_PRESENT OR PTE_WRITABLE OR PTE_GLOBAL) 524288 s2) (\<lambda>s3.
         rbind (vmm_map_range alloc VIRT_PHYS_MAP_BASE
                 (PTE_PRESENT OR PTE_WRITABLE OR PTE_NX OR PTE_GLOBAL) 1048576 s3) (\<lambda>s4.
         Inr (s4\<lparr>cr3 := kernel_pml4 s4\<rparr>))))"

subsection \<open>Entries of different tables, and different entries of a table, do not overlap\<close>

definition slot :: "u64 \<Rightarrow> nat \<Rightarrow> u64" where
  "slot T i = entry_ptr (phys_ptr T) i"

lemma pt_index_lt [simp]: "pt_index v l < 512"
proof -
  have "drop_bit (12 + 9 * (l - 1)) v AND 0x1FF \<le> (0x1FF :: u64)"
    by (rule word_and_le1)
  then show ?thesis
    unfolding pt_index_def by (simp add: word_le_nat_alt)
qed

lemma small_bits:
  assumes "i < 512" and "bit (8 * of_nat i :: u64) n"
  shows "n < 12"
proof (rule ccontr)
  assume "\<not> n < 12"
  then have "(2::nat) ^ 12 \<le> 2 ^ n"
    by (intro power_increasing) auto
  with assms(1) have "\<not> bit (8 * i) n"
    by (simp add: bit_iff_odd)
  moreover have "bit (of_nat (8 * i) :: u64) n"
    using assms(2) by simp
  ultimately show False
    by (simp add: bit_of_nat_iff del: of_nat_mult)
qed

lemma slot_fields:
  assumes "frame_addr T" and "i < 512"
  shows "(slot T i - VIRT_PHYS_MAP_BASE) AND PTE_ADDR_MASK = T"
    and "(slot T i - VIRT_PHYS_MAP_BASE) AND NOT PTE_ADDR_MASK = 8 * of_nat i"
proof -
  let ?x = "8 * of_nat i :: u64"
  have low: "n < 12" if "bit ?x n" for n
    using small_bits [OF assms(2) that] .
  have T: "bit T n \<Longrightarrow> 12 \<le> n \<and> n < 52" for n
    using assms(1) by (simp add: frame_addr_iff)
  have "slot T i - VIRT_PHYS_MAP_BASE = T + ?x"
    by (simp add: slot_def entry_ptr_def phys_ptr_def)
  also have "T + ?x = T OR ?x"
    by (rule disjunctive_add_eq_or, rule bit_eqI) (use low T in \<open>fastforce simp: bit_simps\<close>)
  finally have *: "slot T i - VIRT_PHYS_MAP_BASE = T OR ?x" .
  show "(slot T i - VIRT_PHYS_MAP_BASE) AND PTE_ADDR_MASK = T"
    unfolding * by (rule bit_eqI) (use low T in \<open>fastforce simp: bit_simps bit_PTE_ADDR_MASK\<close>)
  show "(slot T i - VIRT_PHYS_MAP_BASE) AND NOT PTE_ADDR_MASK = ?x"
    unfolding * by (rule bit_eqI) (use low T in \<open>fastforce simp: bit_simps bit_PTE_ADDR_MASK\<close>)
qed

lemma slot_inj:
  assumes "frame_addr T" "frame_addr U" "i < 512" "j < 512"
  shows "slot T i = slot U j \<longleftrightarrow> T = U \<and> i = j"
proof
  assume eq: "slot T i = slot U j"
  have "8 * of_nat i = (8 * of_nat j :: u64)"
    using slot_fields(2) [OF assms(1,3)] slot_fields(2) [OF assms(2,4)] unfolding eq by simp
  then have "of_nat (8 * i) = (of_nat (8 * j) :: u64)" by simp
  then have "unat (of_nat (8 * i) :: u64) = unat (of_nat (8 * j) :: u64)" by (rule arg_cong)
  moreover have "8 * i < 2 ^ 64" "8 * j < 2 ^ 64" using assms(3,4) by simp_all
  ultimately have "i = j"
    by (simp only: unat_of_nat_u64)
  moreover have "T = U"
    using slot_fields(1) [OF assms(1,3)] slot_fields(1) [OF assms(2,4)] unfolding eq by simp
  ultimately show "T = U \<and> i = j" by simp
qed simp

lemma zero_table_fold:
  "fold (\<lambda>i c. c(entry_ptr nt i := 0)) is c a = (if \<exists>i \<in> set is. a = entry_ptr nt i then 0 else c a)"
  by (induction "is" arbitrary: c) auto

lemma zero_table_eq: "zero_table nt c a = (if \<exists>i < 512. a = entry_ptr nt i then 0 else c a)"
  by (simp add: zero_table_def zero_table_fold atLeast0LessThan Bex_def conj_commute)

lemma zero_table_slot:
  assumes "frame_addr N" "frame_addr U" "j < 512"
  shows "zero_table (phys_ptr N) c (slot U j) = (if U = N then 0 else c (slot U j))"
  using assms slot_inj [OF assms(2,1,3)] unfolding zero_table_eq slot_def [symmetric] by auto

subsection \<open>The tree of tables\<close>

text \<open>
  \<open>tbl c R q\<close> is the physical address of the table reached from the root \<open>R\<close> by the indices
  \<open>q\<close>, if every entry on the way is present.
\<close>

definition present :: "u64 \<Rightarrow> bool" where
  "present e \<longleftrightarrow> e AND PTE_PRESENT \<noteq> 0"

fun tbl :: "(u64 \<Rightarrow> u64) \<Rightarrow> u64 \<Rightarrow> nat list \<Rightarrow> u64 option" where
  "tbl c R [] = Some R"
| "tbl c R (i # q) =
     (if present (c (slot R i)) then tbl c (c (slot R i) AND PTE_ADDR_MASK) q else None)"

lemma tbl_snoc:
  "tbl c R (q @ [i]) = (case tbl c R q of None \<Rightarrow> None
     | Some T \<Rightarrow> if present (c (slot T i)) then Some (c (slot T i) AND PTE_ADDR_MASK) else None)"
  by (induction q arbitrary: R) auto

lemma tbl_snoc_Some:
  "tbl c R (q @ [i]) = Some U \<longleftrightarrow>
    (\<exists>T. tbl c R q = Some T \<and> present (c (slot T i)) \<and> U = c (slot T i) AND PTE_ADDR_MASK)"
  by (auto simp: tbl_snoc split: option.splits)

definition valid_path :: "nat list \<Rightarrow> bool" where
  "valid_path q \<longleftrightarrow> length q \<le> 3 \<and> set q \<subseteq> {..<512}"

lemma valid_path_snoc: "valid_path (q @ [i]) \<Longrightarrow> valid_path q \<and> i < 512 \<and> length q < 3"
  by (auto simp: valid_path_def)

text \<open>
  The tables form a tree of frames: every table is a frame that is not free, and no frame is
  two tables.
\<close>

definition pt_ok :: "u64 set \<Rightarrow> (u64 \<Rightarrow> u64) \<Rightarrow> u64 \<Rightarrow> bool" where
  "pt_ok F c R \<longleftrightarrow>
     (\<forall>q T. valid_path q \<longrightarrow> tbl c R q = Some T \<longrightarrow> frame_addr T \<and> T \<notin> F) \<and>
     (\<forall>q q' T. valid_path q \<longrightarrow> valid_path q' \<longrightarrow> tbl c R q = Some T \<longrightarrow> tbl c R q' = Some T
        \<longrightarrow> q = q')"

lemma pt_ok_frame: "pt_ok F c R \<Longrightarrow> valid_path q \<Longrightarrow> tbl c R q = Some T \<Longrightarrow> frame_addr T \<and> T \<notin> F"
  unfolding pt_ok_def by blast

lemma pt_ok_unique:
  "pt_ok F c R \<Longrightarrow> valid_path q \<Longrightarrow> valid_path q' \<Longrightarrow> tbl c R q = Some T \<Longrightarrow> tbl c R q' = Some T
    \<Longrightarrow> q = q'"
  unfolding pt_ok_def by blast

lemma pt_ok_subset: "pt_ok F c R \<Longrightarrow> F' \<subseteq> F \<Longrightarrow> pt_ok F' c R"
  unfolding pt_ok_def by blast

text \<open>
  What the tables say of a virtual address: the entry of the last level, 0 where a table on the
  way is missing. Two addresses are of the same page when their indices agree.
\<close>

definition vpath :: "u64 \<Rightarrow> nat list" where
  "vpath v = [pt_index v 4, pt_index v 3, pt_index v 2]"

definition pt_view :: "(u64 \<Rightarrow> u64) \<Rightarrow> u64 \<Rightarrow> u64 \<Rightarrow> u64" where
  "pt_view c R v = (case tbl c R (vpath v) of None \<Rightarrow> 0 | Some T \<Rightarrow> c (slot T (pt_index v 1)))"

definition same_page :: "u64 \<Rightarrow> u64 \<Rightarrow> bool" where
  "same_page v w \<longleftrightarrow> vpath v = vpath w \<and> pt_index v 1 = pt_index w 1"

lemma valid_vpath [simp]: "valid_path (vpath v)"
  by (simp add: valid_path_def vpath_def)

lemma length_vpath [simp]: "length (vpath v) = 3"
  by (simp add: vpath_def)

lemma same_page_refl [simp]: "same_page v v"
  by (simp add: same_page_def)

subsection \<open>A leaf write changes one page\<close>

lemma tbl_leaf_write:
  assumes ok: "pt_ok F c R" and T: "tbl c R q = Some T" and q: "valid_path q" "length q = 3"
    and i: "i < 512" and q': "valid_path q'"
  shows "tbl (c(slot T i := e)) R q' = tbl c R q'"
  using q'
proof (induction q' rule: rev_induct)
  case (snoc j r)
  note v = valid_path_snoc [OF snoc.prems]
  then have IH: "tbl (c(slot T i := e)) R r = tbl c R r"
    using snoc.IH by blast
  show ?case
  proof (cases "tbl c R r")
    case None
    with IH show ?thesis by (simp add: tbl_snoc del: fun_upd_apply)
  next
    case (Some U)
    have "U \<noteq> T"
      using pt_ok_unique [OF ok _ q(1), of r U] Some T v q(2) by auto
    with slot_inj [of U T j i] have "slot U j \<noteq> slot T i"
      using pt_ok_frame [OF ok q(1) T] pt_ok_frame [OF ok _ Some] v i by blast
    with Some show ?thesis by (simp add: tbl_snoc IH del: fun_upd_apply) simp
  qed
qed simp

lemma pt_ok_leaf_write:
  assumes "pt_ok F c R" "tbl c R (vpath v) = Some T" "i < 512"
  shows "pt_ok F (c(slot T i := e)) R"
  using assms(1) tbl_leaf_write [OF assms(1,2) valid_vpath length_vpath assms(3)]
  unfolding pt_ok_def by simp

text \<open>The frames that are tables.\<close>

definition tables :: "(u64 \<Rightarrow> u64) \<Rightarrow> u64 \<Rightarrow> u64 set" where
  "tables c R = {T. \<exists>q. valid_path q \<and> tbl c R q = Some T}"

lemma tables_leaf_write:
  assumes "pt_ok F c R" "tbl c R (vpath v) = Some T" "i < 512"
  shows "tables (c(slot T i := e)) R = tables c R"
  using tbl_leaf_write [OF assms(1,2) valid_vpath length_vpath assms(3)] by (auto simp: tables_def)

lemma pt_view_leaf_write:
  assumes ok: "pt_ok F c R" and T: "tbl c R (vpath v) = Some T"
  shows "pt_view (c(slot T (pt_index v 1) := e)) R w = (if same_page w v then e else pt_view c R w)"
proof -
  have t: "tbl (c(slot T (pt_index v 1) := e)) R (vpath w) = tbl c R (vpath w)"
    by (rule tbl_leaf_write [OF ok T]) simp_all
  show ?thesis
  proof (cases "tbl c R (vpath w)")
    case None
    with T have "\<not> same_page w v" by (auto simp: same_page_def)
    with None t show ?thesis by (simp add: pt_view_def)
  next
    case (Some U)
    have "slot U (pt_index w 1) = slot T (pt_index v 1) \<longleftrightarrow> U = T \<and> pt_index w 1 = pt_index v 1"
      using pt_ok_frame [OF ok _ T] pt_ok_frame [OF ok _ Some] by (intro slot_inj) auto
    moreover have "U = T \<longleftrightarrow> vpath w = vpath v"
      using pt_ok_unique [OF ok _ _ Some, of "vpath v"] T Some by auto
    ultimately show ?thesis
      using Some t by (auto simp: pt_view_def same_page_def)
  qed
qed

subsection \<open>A new table adds one path and no page\<close>

definition new_table_cells :: "(u64 \<Rightarrow> u64) \<Rightarrow> u64 \<Rightarrow> u64 \<Rightarrow> (u64 \<Rightarrow> u64)" where
  "new_table_cells c entry N =
     (zero_table (phys_ptr N) c)(entry := N OR PTE_PRESENT OR PTE_WRITABLE)"

lemma table_entry:
  assumes "frame_addr N"
  shows "present (N OR PTE_PRESENT OR PTE_WRITABLE)"
    and "(N OR PTE_PRESENT OR PTE_WRITABLE) AND PTE_ADDR_MASK = N"
proof -
  have b: "bit PTE_PRESENT n \<longleftrightarrow> n = 0" "bit PTE_WRITABLE n \<longleftrightarrow> n = 1" for n
    by (auto simp: PTE_PRESENT_def PTE_WRITABLE_def bit_simps)
  have "bit ((N OR PTE_PRESENT OR PTE_WRITABLE) AND PTE_PRESENT) 0"
    by (simp add: bit_simps b)
  then show "present (N OR PTE_PRESENT OR PTE_WRITABLE)"
    unfolding present_def by auto
  show "(N OR PTE_PRESENT OR PTE_WRITABLE) AND PTE_ADDR_MASK = N"
    using assms unfolding frame_addr_iff
    by (intro bit_eqI) (auto simp: bit_simps bit_PTE_ADDR_MASK b)
qed

lemma not_present_0 [simp]: "\<not> present 0"
  by (simp add: present_def)

text \<open>
  The situation in which the walk adds a table: at index \<open>i\<close> of the table \<open>T\<close> at path \<open>q\<close>
  the entry is missing, and \<open>N\<close> is a free frame.
\<close>

definition adds_table ::
    "u64 set \<Rightarrow> (u64 \<Rightarrow> u64) \<Rightarrow> u64 \<Rightarrow> nat list \<Rightarrow> nat \<Rightarrow> u64 \<Rightarrow> u64 \<Rightarrow> bool" where
  "adds_table F c R q i T N \<longleftrightarrow> pt_ok F c R \<and> valid_path q \<and> length q < 3 \<and> i < 512
     \<and> tbl c R q = Some T \<and> \<not> present (c (slot T i)) \<and> N \<in> F \<and> frame_addr N"

lemma adds_tableD:
  assumes "adds_table F c R q i T N"
  shows "pt_ok F c R" "valid_path q" "length q < 3" "i < 512" "tbl c R q = Some T"
    "N \<in> F" "frame_addr N" "frame_addr T" "T \<noteq> N" "tbl c R (q @ [i]) = None"
proof -
  from assms show a: "pt_ok F c R" "valid_path q" "length q < 3" "i < 512" "tbl c R q = Some T"
    "N \<in> F" "frame_addr N"
    by (simp_all add: adds_table_def)
  from pt_ok_frame [OF a(1,2,5)] a(6) show "frame_addr T" "T \<noteq> N" by auto
  from assms show "tbl c R (q @ [i]) = None"
    by (simp add: adds_table_def tbl_snoc)
qed

lemma new_table_zero:
  assumes "adds_table F c R q i T N" and "j < 512"
  shows "new_table_cells c (slot T i) N (slot N j) = 0"
  using adds_tableD [OF assms(1)] assms(2) slot_inj [of N T j i]
  by (auto simp: new_table_cells_def zero_table_slot)

lemma new_table_entry: "new_table_cells c e N e = N OR PTE_PRESENT OR PTE_WRITABLE"
  by (simp add: new_table_cells_def)

lemma new_table_old:
  assumes A: "adds_table F c R q i T N"
    and r: "valid_path r" "tbl c R r = Some U" "j < 512" "r \<noteq> q \<or> j \<noteq> i"
  shows "new_table_cells c (slot T i) N (slot U j) = c (slot U j)"
proof -
  note a = adds_tableD [OF A]
  have U: "frame_addr U" "U \<noteq> N"
    using pt_ok_frame [OF a(1) r(1,2)] a(6) by auto
  have "slot U j \<noteq> slot T i"
    using slot_inj [of U T j i] U a r pt_ok_unique [OF a(1) r(1) a(2) r(2)] by auto
  with U a(7) r(3) show ?thesis
    by (simp add: new_table_cells_def zero_table_slot)
qed

lemma tbl_new_table:
  assumes A: "adds_table F c R q i T N"
  shows "valid_path r \<Longrightarrow>
    tbl (new_table_cells c (slot T i) N) R r = (if r = q @ [i] then Some N else tbl c R r)"
proof (induction r rule: rev_induct)
  case Nil
  then show ?case by simp
next
  case (snoc j r)
  let ?c' = "new_table_cells c (slot T i) N"
  note a = adds_tableD [OF A]
  note v = valid_path_snoc [OF snoc.prems]
  from v snoc.IH have IH: "tbl ?c' R r = (if r = q @ [i] then Some N else tbl c R r)"
    by blast
  consider (new) "r = q @ [i]" | (none) "r \<noteq> q @ [i]" "tbl c R r = None"
    | (entry) "r = q" "j = i" "r \<noteq> q @ [i]"
    | (old) U where "r \<noteq> q @ [i]" "tbl c R r = Some U" "r \<noteq> q \<or> j \<noteq> i"
    by fastforce
  then show ?case
  proof cases
    case new
    with IH v new_table_zero [OF A, of j] a(10) show ?thesis
      unfolding tbl_snoc [of _ _ r j] by simp
  next
    case none
    with IH a(5) show ?thesis
      unfolding tbl_snoc [of _ _ r j] by auto
  next
    case entry
    with IH a(5) table_entry [OF a(7)] show ?thesis
      unfolding tbl_snoc [of _ _ r j] by (simp add: new_table_entry)
  next
    case old
    with IH v new_table_old [OF A _ old(2), of j] show ?thesis
      unfolding tbl_snoc [of _ _ r j] by auto
  qed
qed

lemma tables_new_table:
  assumes A: "adds_table F c R q i T N"
  shows "tables (new_table_cells c (slot T i) N) R = insert N (tables c R)"
proof -
  note a = adds_tableD [OF A]
  have q: "valid_path (q @ [i])"
    using a(2,3,4) by (simp add: valid_path_def)
  have t: "tbl (new_table_cells c (slot T i) N) R (q @ [i]) = Some N"
    by (simp add: tbl_new_table [OF A q])
  have "tbl (new_table_cells c (slot T i) N) R r = Some U" if "valid_path r" "tbl c R r = Some U" for r U
    using that a(10) by (auto simp: tbl_new_table [OF A])
  then show ?thesis
    using q t tbl_new_table [OF A] by (fastforce simp: tables_def split: if_splits)
qed

lemma pt_ok_new_table:
  assumes A: "adds_table F c R q i T N"
  shows "pt_ok (F - {N}) (new_table_cells c (slot T i) N) R"
  unfolding pt_ok_def
proof (intro conjI allI impI)
  note a = adds_tableD [OF A] and t = tbl_new_table [OF A]
  fix r U assume r: "valid_path r" "tbl (new_table_cells c (slot T i) N) R r = Some U"
  then show "frame_addr U" "U \<notin> F - {N}"
    using pt_ok_frame [OF a(1) r(1)] a(7) by (auto simp: t split: if_splits)
next
  note a = adds_tableD [OF A] and t = tbl_new_table [OF A]
  fix r r' U
  assume r: "valid_path r" "valid_path r'" "tbl (new_table_cells c (slot T i) N) R r = Some U"
    "tbl (new_table_cells c (slot T i) N) R r' = Some U"
  have "tbl c R p \<noteq> Some N" if "valid_path p" for p
    using pt_ok_frame [OF a(1) that] a(6) by blast
  with r show "r = r'"
    using pt_ok_unique [OF a(1) r(1,2)] by (auto simp: t split: if_splits)
qed

lemma pt_view_new_table:
  assumes A: "adds_table F c R q i T N"
  shows "pt_view (new_table_cells c (slot T i) N) R v = pt_view c R v"
proof (cases "vpath v = q @ [i]")
  case True
  then show ?thesis
    using tbl_new_table [OF A valid_vpath, of v] adds_tableD(10) [OF A] new_table_zero [OF A]
    by (simp add: pt_view_def)
next
  case False
  then have "tbl (new_table_cells c (slot T i) N) R (vpath v) = tbl c R (vpath v)"
    using tbl_new_table [OF A valid_vpath, of v] by simp
  moreover have "vpath v \<noteq> q"
    using adds_tableD(3) [OF A] length_vpath [of v] by auto
  ultimately show ?thesis
    using new_table_old [OF A valid_vpath] by (auto simp: pt_view_def split: option.splits)
qed

subsection \<open>The walk without creation: a lookup\<close>

lemma tbl_append: "tbl c R (p @ q) = (case tbl c R p of None \<Rightarrow> None | Some T \<Rightarrow> tbl c T q)"
  by (induction p arbitrary: R) auto

lemma take_vpath:
  assumes "2 \<le> l" "l \<le> 4"
  shows "take (4 - (l - 1)) (vpath v) = take (4 - l) (vpath v) @ [pt_index v l]"
proof -
  from assms consider "l = 2" | "l = 3" | "l = 4" by linarith
  then show ?thesis by cases (simp_all add: vpath_def)
qed

lemma valid_take_vpath [simp]: "valid_path (take n (vpath v))"
  using set_take_subset [of n "vpath v"] valid_vpath [of v] by (auto simp: valid_path_def)

lemma tbl_take_None: "tbl c R (take n q) = None \<Longrightarrow> tbl c R q = None"
  using tbl_append [of c R "take n q" "drop n q"] by simp

definition leaf_ptr :: "(u64 \<Rightarrow> u64) \<Rightarrow> u64 \<Rightarrow> u64 \<Rightarrow> u64 option" where
  "leaf_ptr c R v = map_option (\<lambda>T. slot T (pt_index v 1)) (tbl c R (vpath v))"

lemma vmm_walk_end: "vmm_walk alloc v 1 create 1 (phys_ptr T) s = Inr (Some (slot T (pt_index v 1)), s)"
  by (subst vmm_walk.simps) (simp add: slot_def)

lemma vmm_walk_next:
  "1 \<le> l \<Longrightarrow> vmm_walk alloc v 1 create (Suc l) (phys_ptr T) s =
    rbind (vmm_descend alloc create (slot T (pt_index v (Suc l))) s) (\<lambda>(next, s').
      case next of None \<Rightarrow> Inr (None, s') | Some t \<Rightarrow> vmm_walk alloc v 1 create l t s')"
  by (subst vmm_walk.simps) (simp add: slot_def cong: option.case_cong)

lemma vmm_walk_lookup:
  assumes "1 \<le> l" "l \<le> 4" "tbl (cells s) R (take (4 - l) (vpath v)) = Some T"
  shows "vmm_walk alloc v 1 False l (phys_ptr T) s = Inr (leaf_ptr (cells s) R v, s)"
  using assms
proof (induction l arbitrary: T)
  case (Suc l)
  show ?case
  proof (cases "l = 0")
    case True
    with Suc.prems show ?thesis
      using vmm_walk_end [of alloc v False T s] by (simp add: leaf_ptr_def flip: One_nat_def)
  next
    case False
    let ?e = "cells s (slot T (pt_index v (Suc l)))"
    have step: "take (4 - l) (vpath v) = take (4 - Suc l) (vpath v) @ [pt_index v (Suc l)]"
      using take_vpath [of "Suc l" v] False Suc.prems by simp
    have next_tbl: "tbl (cells s) R (take (4 - l) (vpath v)) =
        (if present ?e then Some (?e AND PTE_ADDR_MASK) else None)"
      unfolding step tbl_snoc using Suc.prems(3) by simp
    show ?thesis
    proof (cases "present ?e")
      case True
      have "vmm_walk alloc v 1 False l (phys_ptr (?e AND PTE_ADDR_MASK)) s
          = Inr (leaf_ptr (cells s) R v, s)"
        by (rule Suc.IH) (use False Suc.prems(2) next_tbl True in simp_all)
      moreover have "vmm_descend alloc False (slot T (pt_index v (Suc l))) s
          = Inr (Some (phys_ptr (?e AND PTE_ADDR_MASK)), s)"
        using True by (simp add: vmm_descend_def present_def)
      ultimately show ?thesis
        using False by (simp add: vmm_walk_next del: One_nat_def)
    next
      case absent: False
      with next_tbl tbl_take_None [of "cells s" R "4 - l" "vpath v"]
      have "leaf_ptr (cells s) R v = None"
        by (simp add: leaf_ptr_def)
      moreover have "vmm_descend alloc False (slot T (pt_index v (Suc l))) s = Inr (None, s)"
        using absent by (simp add: vmm_descend_def present_def)
      ultimately show ?thesis
        using False by (simp add: vmm_walk_next del: One_nat_def)
    qed
  qed
qed simp

lemma vmm_get_pte_lookup:
  "vmm_get_pte alloc R v 1 False s = Inr (leaf_ptr (cells s) R v, s)"
  unfolding vmm_get_pte_def by (rule vmm_walk_lookup) simp_all

lemma leaf_ptr_view: "leaf_ptr (cells s) R v = Some ptr \<Longrightarrow> cells s ptr = pt_view (cells s) R v"
  by (auto simp: leaf_ptr_def pt_view_def)

lemma leaf_ptr_None: "leaf_ptr c R v = None \<Longrightarrow> pt_view c R v = 0"
  by (auto simp: leaf_ptr_def pt_view_def)

subsection \<open>The walk with creation\<close>

definition vm_inv :: "('p \<Rightarrow> bool) \<Rightarrow> ('p \<Rightarrow> u64 set) \<Rightarrow> u64 \<Rightarrow> 'p vmm \<Rightarrow> bool" where
  "vm_inv ok ff R s \<longleftrightarrow> ok (frames s) \<and> pt_ok (ff (frames s)) (cells s) R"

definition same_map :: "u64 \<Rightarrow> 'p vmm \<Rightarrow> 'p vmm \<Rightarrow> bool" where
  "same_map R s s' \<longleftrightarrow> pt_view (cells s') R = pt_view (cells s) R \<and> invlpgs s' = invlpgs s
     \<and> kernel_pml4 s' = kernel_pml4 s \<and> cr3 s' = cr3 s"

lemma same_map_refl [simp]: "same_map R s s"
  by (simp add: same_map_def)

lemma same_map_trans: "same_map R s s' \<Longrightarrow> same_map R s' s'' \<Longrightarrow> same_map R s s''"
  by (simp add: same_map_def)

text \<open>From \<open>s\<close> to \<open>s'\<close> some free frames became tables, and no table was given up.\<close>

definition grows :: "('p \<Rightarrow> u64 set) \<Rightarrow> u64 \<Rightarrow> 'p vmm \<Rightarrow> 'p vmm \<Rightarrow> bool" where
  "grows ff R s s' \<longleftrightarrow> (\<exists>N \<subseteq> ff (frames s). ff (frames s') = ff (frames s) - N \<and>
     tables (cells s') R = tables (cells s) R \<union> N)"

lemma grows_refl [simp]: "grows ff R s s"
  by (auto simp: grows_def intro!: exI [of _ "{}"])

lemma grows_same: "frames s' = frames s \<Longrightarrow> tables (cells s') R = tables (cells s) R \<Longrightarrow> grows ff R s s'"
  by (auto simp: grows_def intro!: exI [of _ "{}"])

lemma grows_trans:
  assumes "grows ff R s s'" and "grows ff R s' s''"
  shows "grows ff R s s''"
proof -
  obtain N where N: "N \<subseteq> ff (frames s)" "ff (frames s') = ff (frames s) - N"
    "tables (cells s') R = tables (cells s) R \<union> N"
    using assms(1) by (auto simp: grows_def)
  obtain M where "M \<subseteq> ff (frames s')" "ff (frames s'') = ff (frames s') - M"
    "tables (cells s'') R = tables (cells s') R \<union> M"
    using assms(2) by (auto simp: grows_def)
  with N show ?thesis
    unfolding grows_def by (intro exI [of _ "N \<union> M"]) auto
qed

context frame_allocator
begin

lemma vmm_descend_cases:
  assumes inv: "vm_inv ok free_frames R s" and q: "valid_path q" "length q < 3" "i < 512"
    and T: "tbl (cells s) R q = Some T"
  obtains (none) "vmm_descend alloc True (slot T i) s = Inr (None, s)"
      "tbl (cells s) R (q @ [i]) = None" "free_frames (frames s) = {}"
  | (old) U where "vmm_descend alloc True (slot T i) s = Inr (Some (phys_ptr U), s)"
      "tbl (cells s) R (q @ [i]) = Some U"
  | (new) U s' where "vmm_descend alloc True (slot T i) s = Inr (Some (phys_ptr U), s')"
      "tbl (cells s) R (q @ [i]) = None" "tbl (cells s') R (q @ [i]) = Some U"
      "vm_inv ok free_frames R s'" "same_map R s s'" "free_frames (frames s') = free_frames (frames s) - {U}"
      "grows free_frames R s s'"
proof (cases "present (cells s (slot T i))")
  case True
  with T show thesis
    by (intro old [of "cells s (slot T i) AND PTE_ADDR_MASK"])
      (simp_all add: vmm_descend_def present_def tbl_snoc)
next
  case False
  from inv have ok: "ok (frames s)" and pt: "pt_ok (free_frames (frames s)) (cells s) R"
    by (simp_all add: vm_inv_def)
  have no: "tbl (cells s) R (q @ [i]) = None"
    using T False by (simp add: tbl_snoc)
  obtain N p where N: "alloc (frames s) = Inr (N, p)"
    using alloc_total [OF ok] by blast
  show thesis
  proof (cases "N = 0")
    case True
    with N have "p = frames s" "free_frames (frames s) = {}"
      using alloc_failed [OF ok] by simp_all
    with N True False no show thesis
      by (intro none) (simp_all add: vmm_descend_def present_def)
  next
    case N0: False
    from alloc_frame [OF ok N N0] have fresh: "N \<in> free_frames (frames s)"
      and rest: "free_frames p = free_frames (frames s) - {N}" by auto
    have A: "adds_table (free_frames (frames s)) (cells s) R q i T N"
      using pt q T False fresh free_frame_addr [OF ok fresh] by (simp add: adds_table_def)
    let ?c = "new_table_cells (cells s) (slot T i) N"
    let ?s' = "s\<lparr>frames := p, cells := ?c\<rparr>"
    have r: "vmm_descend alloc True (slot T i) s = Inr (Some (phys_ptr N), ?s')"
      using N N0 False table_entry(2) [OF adds_tableD(7) [OF A]]
      by (simp add: vmm_descend_def present_def new_table_cells_def Let_def)
    have t: "tbl (cells ?s') R (q @ [i]) = Some N"
      using tbl_new_table [OF A, of "q @ [i]"] q by (simp add: valid_path_def)
    have i: "vm_inv ok free_frames R ?s'"
      using alloc_ok [OF ok N] pt_ok_new_table [OF A] rest by (simp add: vm_inv_def)
    have m: "same_map R s ?s'"
      using pt_view_new_table [OF A] by (auto simp: same_map_def)
    have f: "free_frames (frames ?s') = free_frames (frames s) - {N}"
      using rest by simp
    have g: "grows free_frames R s ?s'"
      using fresh rest tables_new_table [OF A] by (auto simp: grows_def intro!: exI [of _ "{N}"])
    from new [OF r no t i m f g] show thesis .
  qed
qed

text \<open>One frame taken is one frame fewer to run out of, and to be left.\<close>

lemma one_frame_taken:
  assumes F': "F' = F - {U}" and "1 \<le> l"
  shows "(\<exists>A. finite A \<and> card A < l - 1 \<and> F' \<subseteq> A) \<Longrightarrow> \<exists>A. finite A \<and> card A < Suc l - 1 \<and> F \<subseteq> A"
    and "card F' \<le> n + (l - 1) \<Longrightarrow> card F \<le> n + (Suc l - 1)"
proof -
  show "\<exists>A. finite A \<and> card A < Suc l - 1 \<and> F \<subseteq> A" if few: "\<exists>A. finite A \<and> card A < l - 1 \<and> F' \<subseteq> A"
  proof -
    from few obtain A where A: "finite A" "card A < l - 1" "F' \<subseteq> A"
      by blast
    then have "card (insert U A) \<le> Suc (card A)"
      by (simp add: card_insert_if)
    with A(2) have "card (insert U A) < Suc l - 1"
      by linarith
    with A F' show ?thesis
      by (intro exI [of _ "insert U A"]) auto
  qed
  show "card F \<le> n + (Suc l - 1)" if "card F' \<le> n + (l - 1)"
    using that assms diff_card_le_card_Diff [of "{U}" F] by simp
qed

lemma vmm_walk_create:
  assumes "1 \<le> l" "l \<le> 4" "vm_inv ok free_frames R s"
    and "tbl (cells s) R (take (4 - l) (vpath v)) = Some T"
  shows "\<exists>r s'. vmm_walk alloc v 1 True l (phys_ptr T) s = Inr (r, s')
    \<and> vm_inv ok free_frames R s' \<and> same_map R s s'
    \<and> (r \<noteq> None \<longrightarrow> r = leaf_ptr (cells s') R v)
    \<and> (leaf_ptr (cells s) R v \<noteq> None \<longrightarrow> r \<noteq> None)
    \<and> (r = None \<longrightarrow> (\<exists>A. finite A \<and> card A < l - 1 \<and> free_frames (frames s) \<subseteq> A))
    \<and> card (free_frames (frames s)) \<le> card (free_frames (frames s')) + (l - 1)
    \<and> grows free_frames R s s'"
  using assms
proof (induction l arbitrary: T s)
  case (Suc l)
  show ?case
  proof (cases "l = 0")
    case True
    with Suc.prems show ?thesis
      using vmm_walk_end [of alloc v True T s] by (simp add: leaf_ptr_def flip: One_nat_def)
  next
    case False
    let ?q = "take (4 - Suc l) (vpath v)" and ?i = "pt_index v (Suc l)"
    have l: "1 \<le> l" "l \<le> 4" and q: "valid_path ?q" "length ?q < 3" "?i < 512"
      using False Suc.prems(2) by simp_all
    have path: "take (4 - l) (vpath v) = ?q @ [?i]"
      using take_vpath [of "Suc l" v] False Suc.prems by simp
    have walk: "vmm_walk alloc v 1 True (Suc l) (phys_ptr T) s =
        rbind (vmm_descend alloc True (slot T ?i) s) (\<lambda>(next, s'). case next of
          None \<Rightarrow> Inr (None, s') | Some t \<Rightarrow> vmm_walk alloc v 1 True l t s')"
      using l by (rule_tac vmm_walk_next)
    from Suc.prems(3) q Suc.prems(4) show ?thesis
    proof (cases rule: vmm_descend_cases)
      case none
      then have "leaf_ptr (cells s) R v = None"
        using tbl_take_None [of _ _ "4 - l" "vpath v"] path by (simp add: leaf_ptr_def)
      with none Suc.prems(3) False show ?thesis
        unfolding walk by (auto intro!: exI [of _ "{}"])
    next
      case (old U)
      from Suc.IH [OF l Suc.prems(3), of U] old path
      obtain r s' where "vmm_walk alloc v 1 True l (phys_ptr U) s = Inr (r, s')"
        "vm_inv ok free_frames R s'" "same_map R s s'" "r \<noteq> None \<longrightarrow> r = leaf_ptr (cells s') R v"
        "leaf_ptr (cells s) R v \<noteq> None \<longrightarrow> r \<noteq> None"
        "r = None \<longrightarrow> (\<exists>A. finite A \<and> card A < l - 1 \<and> free_frames (frames s) \<subseteq> A)"
        "card (free_frames (frames s)) \<le> card (free_frames (frames s')) + (l - 1)" "grows free_frames R s s'"
        by auto
      with old show ?thesis
        unfolding walk by (auto intro: less_le_trans)
    next
      case (new U s')
      then have none: "leaf_ptr (cells s) R v = None"
        using tbl_take_None [of _ _ "4 - l" "vpath v"] path by (simp add: leaf_ptr_def)
      from Suc.IH [OF l new(4), of U] new(3) path
      obtain r s'' where w: "vmm_walk alloc v 1 True l (phys_ptr U) s' = Inr (r, s'')"
        "vm_inv ok free_frames R s''" "same_map R s' s''" "r \<noteq> None \<longrightarrow> r = leaf_ptr (cells s'') R v"
        and few: "r = None \<longrightarrow> (\<exists>A. finite A \<and> card A < l - 1 \<and> free_frames (frames s') \<subseteq> A)"
        and left: "card (free_frames (frames s')) \<le> card (free_frames (frames s'')) + (l - 1)"
        and grown: "grows free_frames R s' s''"
        by auto
      note one = one_frame_taken [OF new(6) l(1)]
      from one(2) [OF left] one(1) few show ?thesis
        using new none w same_map_trans [OF new(5)] grows_trans [OF new(7) grown] unfolding walk by simp
    qed
  qed
qed simp

lemma vmm_get_pte_create:
  assumes "vm_inv ok free_frames R s"
  obtains r s' where "vmm_get_pte alloc R v 1 True s = Inr (r, s')"
    "vm_inv ok free_frames R s'" "same_map R s s'"
    "r \<noteq> None \<Longrightarrow> r = leaf_ptr (cells s') R v" "leaf_ptr (cells s) R v \<noteq> None \<Longrightarrow> r \<noteq> None"
    "r = None \<Longrightarrow> card (free_frames (frames s)) < 3"
    "card (free_frames (frames s)) \<le> card (free_frames (frames s')) + 3" "grows free_frames R s s'"
proof -
  from vmm_walk_create [of 4 R s v R] assms obtain r s'
    where w: "vmm_walk alloc v 1 True 4 (phys_ptr R) s = Inr (r, s')"
      "vm_inv ok free_frames R s'" "same_map R s s'" "r \<noteq> None \<longrightarrow> r = leaf_ptr (cells s') R v"
      "leaf_ptr (cells s) R v \<noteq> None \<longrightarrow> r \<noteq> None"
      "r = None \<longrightarrow> (\<exists>A. finite A \<and> card A < 3 \<and> free_frames (frames s) \<subseteq> A)"
      "card (free_frames (frames s)) \<le> card (free_frames (frames s')) + 3" "grows free_frames R s s'"
    by auto
  have "card (free_frames (frames s)) < 3" if "r = None"
    using w(6) that by (meson card_mono le_less_trans)
  with w that show thesis
    by (simp add: vmm_get_pte_def)
qed

lemma leaf_write:
  assumes inv: "vm_inv ok free_frames R s" and p: "leaf_ptr (cells s) R v = Some ptr"
  shows "vm_inv ok free_frames R (write_cell ptr e s)"
    and "pt_view (cells (write_cell ptr e s)) R w = (if same_page w v then e else pt_view (cells s) R w)"
    and "tables (cells (write_cell ptr e s)) R = tables (cells s) R"
proof -
  from p obtain T where T: "tbl (cells s) R (vpath v) = Some T" and ptr: "ptr = slot T (pt_index v 1)"
    by (auto simp: leaf_ptr_def)
  from inv have pt: "pt_ok (free_frames (frames s)) (cells s) R"
    by (simp add: vm_inv_def)
  show "vm_inv ok free_frames R (write_cell ptr e s)"
    using inv pt_ok_leaf_write [OF pt T pt_index_lt] by (simp add: vm_inv_def write_cell_def ptr)
  show "pt_view (cells (write_cell ptr e s)) R w = (if same_page w v then e else pt_view (cells s) R w)"
    using pt_view_leaf_write [OF pt T] by (simp add: write_cell_def ptr)
  show "tables (cells (write_cell ptr e s)) R = tables (cells s) R"
    using tables_leaf_write [OF pt T pt_index_lt] by (simp add: write_cell_def ptr)
qed

end

subsection \<open>Pages and bits of an address\<close>

lemma bit_index_field: "bit (drop_bit k (v :: u64) AND 0x1FF) n \<longleftrightarrow> n < 9 \<and> bit v (k + n)"
proof -
  have m: "(0x1FF :: u64) = mask 9"
    by (simp add: mask_eq_exp_minus_1)
  show ?thesis
    unfolding m bit_and_iff bit_drop_bit_eq bit_mask_iff by auto
qed

lemma pt_index_eq_iff:
  "pt_index v l = pt_index w l \<longleftrightarrow> (\<forall>n < 9. bit v (12 + 9 * (l - 1) + n) = bit w (12 + 9 * (l - 1) + n))"
proof -
  have "pt_index v l = pt_index w l \<longleftrightarrow>
      drop_bit (12 + 9 * (l - 1)) v AND 0x1FF = drop_bit (12 + 9 * (l - 1)) w AND 0x1FF"
    unfolding pt_index_def by (simp only: word_unat_eq_iff)
  also have "\<dots> \<longleftrightarrow> (\<forall>n < 9. bit v (12 + 9 * (l - 1) + n) = bit w (12 + 9 * (l - 1) + n))"
    unfolding word_bit_eq_iff bit_index_field by blast
  finally show ?thesis .
qed

lemma same_page_iff: "same_page v w \<longleftrightarrow> (\<forall>n. 12 \<le> n \<longrightarrow> n < 48 \<longrightarrow> bit v n = bit w n)"
proof
  assume "same_page v w"
  then have p: "pt_index v l = pt_index w l" if "l \<in> {1, 2, 3, 4}" for l
    using that by (auto simp: same_page_def vpath_def)
  show "\<forall>n. 12 \<le> n \<longrightarrow> n < 48 \<longrightarrow> bit v n = bit w n"
  proof (intro allI impI)
    fix n :: nat assume n: "12 \<le> n" "n < 48"
    let ?l = "Suc ((n - 12) div 9)"
    have "(n - 12) div 9 < 4" using n by (simp add: less_mult_imp_div_less)
    then have "?l \<in> {1, 2, 3, 4}" by auto
    from p [OF this] have "\<forall>k < 9. bit v (12 + 9 * ((n - 12) div 9) + k) = bit w (12 + 9 * ((n - 12) div 9) + k)"
      unfolding pt_index_eq_iff by simp
    then have "bit v (12 + 9 * ((n - 12) div 9) + (n - 12) mod 9) = bit w (12 + 9 * ((n - 12) div 9) + (n - 12) mod 9)"
      by (rule allE [of _ "(n - 12) mod 9"]) (rule mp, assumption, simp)
    moreover have "12 + 9 * ((n - 12) div 9) + (n - 12) mod 9 = n"
      using n by simp
    ultimately show "bit v n = bit w n" by metis
  qed
next
  assume "\<forall>n. 12 \<le> n \<longrightarrow> n < 48 \<longrightarrow> bit v n = bit w n"
  then have "pt_index v l = pt_index w l" if "l \<in> {1, 2, 3, 4}" for l
    using that unfolding pt_index_eq_iff by auto
  then show "same_page v w" by (simp add: same_page_def vpath_def)
qed

lemma pt_view_same_page: "same_page v w \<Longrightarrow> pt_view c R v = pt_view c R w"
  by (simp add: same_page_def pt_view_def cong: option.case_cong)

lemma same_page_sym: "same_page v w \<Longrightarrow> same_page w v"
  by (simp add: same_page_def)

lemma same_page_trans: "same_page v w \<Longrightarrow> same_page w x \<Longrightarrow> same_page v x"
  by (simp add: same_page_def)

lemma bit_page_addr:
  "bit (of_nat i * PAGE_SIZE) n \<longleftrightarrow> 12 \<le> n \<and> n < 64 \<and> bit i (n - 12)"
proof -
  have "of_nat i * PAGE_SIZE = push_bit 12 (of_nat i :: u64)"
    by (simp add: PAGE_SIZE_def push_bit_eq_mult)
  then show ?thesis
    by (auto simp: bit_push_bit_iff bit_of_nat_iff)
qed

lemma bit_small: "bit (i::nat) n \<Longrightarrow> i < 2 ^ k \<Longrightarrow> n < k"
proof (rule ccontr)
  assume "bit i n" "i < 2 ^ k" "\<not> n < k"
  then have "i < 2 ^ n"
    by (meson less_le_trans not_less one_le_numeral power_increasing)
  with \<open>bit i n\<close> show False by (simp add: bit_iff_odd)
qed

lemma page_addr_same_page:
  assumes "i < 2 ^ 36" "j < 2 ^ 36" "same_page (of_nat i * PAGE_SIZE) (of_nat j * PAGE_SIZE)"
  shows "i = j"
proof (rule bit_eqI)
  fix n
  show "bit i n = bit j n"
  proof (cases "n < 36")
    case True
    with assms(3) have "bit (of_nat i * PAGE_SIZE) (n + 12) = bit (of_nat j * PAGE_SIZE) (n + 12)"
      by (auto simp: same_page_iff)
    with True show ?thesis by (simp add: bit_page_addr)
  next
    case False
    then show ?thesis using bit_small assms(1,2) by blast
  qed
qed

lemma bit_VIRT_PHYS_MAP_BASE: "bit VIRT_PHYS_MAP_BASE n \<longleftrightarrow> 48 \<le> n \<and> n < 64"
proof -
  have m: "VIRT_PHYS_MAP_BASE = push_bit 48 (mask 16)"
    by (simp add: VIRT_PHYS_MAP_BASE_def mask_eq_exp_minus_1 One_nat_def)
  show ?thesis
    unfolding m bit_push_bit_iff bit_mask_iff by auto
qed

text \<open>
  The window at \<open>VIRT_PHYS_MAP_BASE\<close> begins with bits 12 to 47 clear: it has the page-table
  indices of the first 256 TB.
\<close>

lemma window_same_page:
  assumes "i < 2 ^ 36"
  shows "same_page (VIRT_PHYS_MAP_BASE + of_nat i * PAGE_SIZE) (of_nat i * PAGE_SIZE)"
proof -
  have low: "n < 48" if "bit (of_nat i * PAGE_SIZE) n" for n
    using that bit_small [OF _ assms] by (fastforce simp: bit_page_addr)
  have "VIRT_PHYS_MAP_BASE + of_nat i * PAGE_SIZE = VIRT_PHYS_MAP_BASE OR of_nat i * PAGE_SIZE"
    by (rule disjunctive_add_eq_or, rule bit_eqI)
      (use low in \<open>fastforce simp: bit_and_iff bit_VIRT_PHYS_MAP_BASE\<close>)
  then show ?thesis
    by (simp add: same_page_iff bit_or_iff bit_VIRT_PHYS_MAP_BASE)
qed

subsection \<open>Map, unmap and translate against the view\<close>

definition pte_value :: "u64 \<Rightarrow> u64 \<Rightarrow> u64" where
  "pte_value phys flags = (phys AND PTE_ADDR_MASK) OR flags OR PTE_PRESENT"

definition translation :: "u64 \<Rightarrow> u64 \<Rightarrow> u64" where
  "translation e vaddr = (if present e then (e AND PTE_ADDR_MASK) OR (vaddr AND 0xFFF) else 0)"

lemma present_pte_value [simp]: "present (pte_value phys flags)"
proof -
  have "bit (pte_value phys flags AND PTE_PRESENT) 0"
    by (simp add: pte_value_def PTE_PRESENT_def bit_simps)
  then show ?thesis unfolding present_def by auto
qed

lemma vmm_virt_to_phys_view:
  "vmm_virt_to_phys alloc R v s = Inr (translation (pt_view (cells s) R v) v)"
  unfolding vmm_virt_to_phys_def vmm_get_pte_lookup
  by (cases "leaf_ptr (cells s) R v")
    (auto simp: translation_def present_def leaf_ptr_view dest: leaf_ptr_None)

context frame_allocator
begin

lemma vmm_map_spec:
  assumes "vm_inv ok free_frames R s"
  obtains (mapped) s' where "vmm_map alloc R v phys flags s = Inr (0, s')" "vm_inv ok free_frames R s'"
      "pt_view (cells s') R = (\<lambda>w. if same_page w v then pte_value phys flags else pt_view (cells s) R w)"
      "invlpgs s' = v # invlpgs s" "kernel_pml4 s' = kernel_pml4 s" "cr3 s' = cr3 s"
      "card (free_frames (frames s)) \<le> card (free_frames (frames s')) + 3" "grows free_frames R s s'"
  | (full) s' where "vmm_map alloc R v phys flags s = Inr (-1, s')" "vm_inv ok free_frames R s'"
      "same_map R s s'" "leaf_ptr (cells s) R v = None" "card (free_frames (frames s)) < 3"
      "grows free_frames R s s'"
proof (rule vmm_get_pte_create [OF assms, of v])
  fix r s'
  assume r: "vmm_get_pte alloc R v 1 True s = Inr (r, s')" "vm_inv ok free_frames R s'" "same_map R s s'"
    "r \<noteq> None \<Longrightarrow> r = leaf_ptr (cells s') R v" "leaf_ptr (cells s) R v \<noteq> None \<Longrightarrow> r \<noteq> None"
    "r = None \<Longrightarrow> card (free_frames (frames s)) < 3"
    "card (free_frames (frames s)) \<le> card (free_frames (frames s')) + 3" "grows free_frames R s s'"
  show thesis
  proof (cases r)
    case None
    with r show thesis by (intro full [of s']) (auto simp: vmm_map_def simp flip: not_None_eq)
  next
    case (Some ptr)
    with r(4) have "leaf_ptr (cells s') R v = Some ptr" by simp
    note w = leaf_write [OF r(2) this]
    let ?s2 = "vmm_invlpg v (write_cell ptr (pte_value phys flags) s')"
    have "grows free_frames R s ?s2"
      using r(8) w(3) by (intro grows_trans [OF r(8)] grows_same) (simp_all add: vmm_invlpg_def write_cell_def)
    then show thesis
      using r(1,3,7) w(1,2) Some
      by (intro mapped [of ?s2])
        (auto simp: vmm_map_def pte_value_def vmm_invlpg_def same_map_def vm_inv_def write_cell_def)
  qed
qed

lemma vmm_unmap_spec:
  assumes "vm_inv ok free_frames R s"
  shows "\<exists>s'. vmm_unmap alloc R v s = Inr s' \<and> vm_inv ok free_frames R s'
    \<and> pt_view (cells s') R = (\<lambda>w. if same_page w v \<and> present (pt_view (cells s) R v) then 0
                                   else pt_view (cells s) R w)
    \<and> invlpgs s' = (if present (pt_view (cells s) R v) then v # invlpgs s else invlpgs s)
    \<and> kernel_pml4 s' = kernel_pml4 s \<and> cr3 s' = cr3 s \<and> frames s' = frames s
    \<and> tables (cells s') R = tables (cells s) R"
proof (cases "leaf_ptr (cells s) R v")
  case None
  with assms show ?thesis
    by (simp add: vmm_unmap_def vmm_get_pte_lookup leaf_ptr_None)
next
  case (Some ptr)
  note w = leaf_write [OF assms Some]
  show ?thesis
  proof (cases "present (pt_view (cells s) R v)")
    case True
    with Some have "vmm_unmap alloc R v s = Inr (vmm_invlpg v (write_cell ptr 0 s))"
      by (simp add: vmm_unmap_def vmm_get_pte_lookup leaf_ptr_view present_def)
    with w True show ?thesis
      by (auto simp: vmm_invlpg_def vm_inv_def write_cell_def)
  next
    case False
    with Some assms show ?thesis
      by (simp add: vmm_unmap_def vmm_get_pte_lookup leaf_ptr_view present_def)
  qed
qed

end

subsection \<open>Mapping a range, and the kernel's own tables\<close>

text \<open>What mapping the pages \<open>0..<n\<close> with the entries \<open>e\<close> does to the view; a page whose tables
  cannot be allocated had no entry before and has none after.\<close>

definition range_mapped :: "nat \<Rightarrow> (nat \<Rightarrow> u64) \<Rightarrow> (u64 \<Rightarrow> u64) \<Rightarrow> (u64 \<Rightarrow> u64) \<Rightarrow> bool" where
  "range_mapped n e view view' \<longleftrightarrow>
     (\<forall>w. (\<forall>j < n. same_page w (of_nat j * PAGE_SIZE) \<longrightarrow> view' w = e j \<or> view w = 0 \<and> view' w = 0)
        \<and> ((\<forall>j < n. \<not> same_page w (of_nat j * PAGE_SIZE)) \<longrightarrow> view' w = view w))"

lemma range_mapped_0 [simp]: "range_mapped 0 e view view"
  by (simp add: range_mapped_def)

lemma range_mapped_Suc:
  assumes r: "range_mapped n e view view'" and n: "n < 2 ^ 36"
    and hit: "\<And>w. same_page w (of_nat n * PAGE_SIZE) \<Longrightarrow> view'' w = e n \<or> view' w = 0 \<and> view'' w = 0"
    and miss: "\<And>w. \<not> same_page w (of_nat n * PAGE_SIZE) \<Longrightarrow> view'' w = view' w"
  shows "range_mapped (Suc n) e view view''"
proof -
  have other: "\<not> same_page w (of_nat j * PAGE_SIZE)"
    if "same_page w (of_nat n * PAGE_SIZE)" "j < n" for w j
    using that n page_addr_same_page [of n j] same_page_trans [OF same_page_sym [OF that(1)]] by auto
  show ?thesis
    unfolding range_mapped_def
  proof (intro allI conjI impI)
    fix w j assume j: "j < Suc n" "same_page w (of_nat j * PAGE_SIZE)"
    show "view'' w = e j \<or> view w = 0 \<and> view'' w = 0"
    proof (cases "j = n")
      case True
      with j other [of w] r have "view' w = view w"
        by (auto simp: range_mapped_def)
      with hit j True show ?thesis by fastforce
    next
      case False
      with j have "\<not> same_page w (of_nat n * PAGE_SIZE)"
        using other [of w j] by auto
      with miss r j False show ?thesis by (auto simp: range_mapped_def)
    qed
  next
    fix w assume "\<forall>j < Suc n. \<not> same_page w (of_nat j * PAGE_SIZE)"
    with miss [of w] r show "view'' w = view w"
      by (auto simp: range_mapped_def)
  qed
qed

definition page_pte :: "u64 \<Rightarrow> nat \<Rightarrow> u64" where
  "page_pte flags j = pte_value (of_nat j * PAGE_SIZE) flags"

context frame_allocator
begin

lemma vmm_map_range_spec:
  assumes inv: "vm_inv ok free_frames R s" and R: "kernel_pml4 s = R" and n: "n \<le> 2 ^ 36"
    and base: "\<And>i. i < n \<Longrightarrow> same_page (base + of_nat i * PAGE_SIZE) (of_nat i * PAGE_SIZE)"
  shows "\<exists>s'. vmm_map_range alloc base flags n s = Inr s' \<and> vm_inv ok free_frames R s'
    \<and> kernel_pml4 s' = R \<and> range_mapped n (page_pte flags) (pt_view (cells s) R) (pt_view (cells s') R)"
  unfolding vmm_map_range_def
proof (rule for_loop_rule [where P = "\<lambda>i s'. vm_inv ok free_frames R s' \<and> kernel_pml4 s' = R
    \<and> range_mapped i (page_pte flags) (pt_view (cells s) R) (pt_view (cells s') R)"])
  fix i s' assume i: "i < n" and IH: "vm_inv ok free_frames R s' \<and> kernel_pml4 s' = R
    \<and> range_mapped i (page_pte flags) (pt_view (cells s) R) (pt_view (cells s') R)"
  let ?a = "of_nat i * PAGE_SIZE" and ?v = "base + of_nat i * PAGE_SIZE"
  note b = base [OF i]
  have sp: "same_page w ?v \<longleftrightarrow> same_page w ?a" for w
    using b same_page_trans same_page_sym by blast
  have i36: "i < 2 ^ 36" using i n by simp
  let ?goal = "\<lambda>s''. (let addr = ?a in
      rbind (vmm_map alloc (kernel_pml4 s') (base + addr) addr flags s') (\<lambda>(r, s). Inr s)) = Inr s''
    \<and> vm_inv ok free_frames R s'' \<and> kernel_pml4 s'' = R
    \<and> range_mapped (Suc i) (page_pte flags) (pt_view (cells s) R) (pt_view (cells s'') R)"
  from IH have inv': "vm_inv ok free_frames R s'" by simp
  from inv' show "\<exists>s''. ?goal s''"
  proof (cases rule: vmm_map_spec [where v = ?v and phys = ?a and flags = flags])
    case (mapped s'')
    have "range_mapped (Suc i) (page_pte flags) (pt_view (cells s) R) (pt_view (cells s'') R)"
      by (rule range_mapped_Suc [OF _ i36]) (use IH mapped(3) sp in \<open>auto simp: page_pte_def\<close>)
    with mapped IH have "?goal s''" by simp
    then show ?thesis ..
  next
    case (full s'')
    have "pt_view (cells s') R w = 0" if "same_page w ?a" for w
      using that full(4) sp pt_view_same_page [of w ?v] by (simp add: leaf_ptr_None)
    with full(3) have "range_mapped (Suc i) (page_pte flags) (pt_view (cells s) R) (pt_view (cells s'') R)"
      by (intro range_mapped_Suc [OF _ i36]) (use IH in \<open>auto simp: same_map_def\<close>)
    with full IH have "?goal s''" by (simp add: same_map_def)
    then show ?thesis ..
  qed
qed (use inv R in simp_all)

lemma fresh_root:
  assumes "ok p" "alloc p = Inr (R, p')" "R \<noteq> 0"
  shows "pt_ok (free_frames p') (zero_table (phys_ptr R) c) R"
    and "pt_view (zero_table (phys_ptr R) c) R w = 0"
proof -
  from alloc_frame [OF assms] have R: "frame_addr R" "R \<notin> free_frames p'"
    using free_frame_addr [OF assms(1)] by auto
  have zero: "zero_table (phys_ptr R) c (slot R i) = 0" if "i < 512" for i
    using zero_table_slot [OF R(1) R(1) that] by simp
  have tbl: "q = [] \<and> T = R" if "valid_path q" "tbl (zero_table (phys_ptr R) c) R q = Some T" for q T
    using that zero by (cases q) (auto simp: valid_path_def split: if_splits)
  show "pt_ok (free_frames p') (zero_table (phys_ptr R) c) R"
    unfolding pt_ok_def
  proof (intro conjI allI impI)
    fix q T assume "valid_path q" "tbl (zero_table (phys_ptr R) c) R q = Some T"
    from tbl [OF this] R show "frame_addr T" "T \<notin> free_frames p'" by simp_all
  next
    fix q q' T
    assume "valid_path q" "valid_path q'" "tbl (zero_table (phys_ptr R) c) R q = Some T"
      "tbl (zero_table (phys_ptr R) c) R q' = Some T"
    with tbl show "q = q'" by blast
  qed
  have "tbl (zero_table (phys_ptr R) c) R (vpath w) = None"
    using zero [of "pt_index w 4"] by (simp add: vpath_def)
  then show "pt_view (zero_table (phys_ptr R) c) R w = 0"
    by (simp add: pt_view_def)
qed

lemma vmm_init_spec:
  assumes "ok (frames s)"
  obtains (no_frame) "vmm_init alloc s = Inr (s\<lparr>kernel_pml4 := 0\<rparr>)" "free_frames (frames s) = {}"
  | (active) R p s' where "vmm_init alloc s = Inr s'" "alloc (frames s) = Inr (R, p)" "R \<noteq> 0" "kernel_pml4 s' = R" "cr3 s' = R"
      "vm_inv ok free_frames R s'"
      "\<And>w. pt_view (cells s') R w \<noteq> 0 \<Longrightarrow> \<exists>j < 1048576. same_page w (of_nat j * PAGE_SIZE)
         \<and> pt_view (cells s') R w = page_pte (PTE_PRESENT OR PTE_WRITABLE OR PTE_NX OR PTE_GLOBAL) j"
proof -
  let ?f1 = "PTE_PRESENT OR PTE_WRITABLE OR PTE_GLOBAL"
  let ?f2 = "PTE_PRESENT OR PTE_WRITABLE OR PTE_NX OR PTE_GLOBAL"
  obtain R p where a: "alloc (frames s) = Inr (R, p)"
    using alloc_total [OF assms] by blast
  show thesis
  proof (cases "R = 0")
    case True
    with a alloc_failed [OF assms] have "p = frames s" "free_frames (frames s) = {}" by blast+
    with a True show thesis by (intro no_frame) (simp add: vmm_init_def)
  next
    case False
    let ?s2 = "s\<lparr>frames := p, kernel_pml4 := R, cells := zero_table (phys_ptr R) (cells s)\<rparr>"
    note fresh = fresh_root [OF assms a False, where c = "cells s"]
    have inv2: "vm_inv ok free_frames R ?s2"
      using fresh(1) alloc_ok [OF assms a] by (simp add: vm_inv_def)
    obtain s3 where s3: "vmm_map_range alloc 0 ?f1 524288 ?s2 = Inr s3" "vm_inv ok free_frames R s3"
      "kernel_pml4 s3 = R"
      "range_mapped 524288 (page_pte ?f1) (pt_view (cells ?s2) R) (pt_view (cells s3) R)"
      using vmm_map_range_spec [OF inv2, of 524288 0 ?f1] by auto
    obtain s4 where s4: "vmm_map_range alloc VIRT_PHYS_MAP_BASE ?f2 1048576 s3 = Inr s4"
      "vm_inv ok free_frames R s4" "kernel_pml4 s4 = R"
      "range_mapped 1048576 (page_pte ?f2) (pt_view (cells s3) R) (pt_view (cells s4) R)"
      using vmm_map_range_spec [OF s3(2,3), of 1048576 VIRT_PHYS_MAP_BASE ?f2] window_same_page by auto
    have init: "vmm_init alloc s = Inr (s4\<lparr>cr3 := R\<rparr>)"
      using a False s3(1) s4(1,3) by (simp add: vmm_init_def Let_def)
    have low: "pt_view (cells s3) R w = 0" if "\<forall>j < 524288. \<not> same_page w (of_nat j * PAGE_SIZE)" for w
      using s3(4) that fresh(2) by (auto simp: range_mapped_def)
    show thesis
    proof (rule active [OF init a False])
      show "vm_inv ok free_frames R (s4\<lparr>cr3 := R\<rparr>)"
        using s4(2) by (simp add: vm_inv_def)
      fix w assume nz: "pt_view (cells (s4\<lparr>cr3 := R\<rparr>)) R w \<noteq> 0"
      have "\<exists>j < 1048576. same_page w (of_nat j * PAGE_SIZE)"
      proof (rule ccontr)
        assume none: "\<not> ?thesis"
        then have "pt_view (cells s4) R w = pt_view (cells s3) R w"
          using s4(4) by (auto simp: range_mapped_def)
        with none low [of w] nz show False by force
      qed
      then obtain j where j: "j < 1048576" "same_page w (of_nat j * PAGE_SIZE)" by blast
      with s4(4) nz have "pt_view (cells s4) R w = page_pte ?f2 j"
        by (auto simp: range_mapped_def)
      with j show "\<exists>j < 1048576. same_page w (of_nat j * PAGE_SIZE)
         \<and> pt_view (cells (s4\<lparr>cr3 := R\<rparr>)) R w = page_pte ?f2 j" by auto
    qed (use s4(3) in simp_all)
  qed
qed

end

declare One_nat_def [simp]

subsection \<open>The virtual memory manager over the frames of the physical one\<close>

text \<open>An empty table at 2 MB, over the sample manager less that frame.\<close>

definition vm_sample :: "pmm vmm" where
  "vm_sample = \<lparr>frames = snd (projr (pmm_alloc pmm_sample)), cells = (\<lambda>_. 0), invlpgs = [],
     kernel_pml4 = 0x200000, cr3 = 0x200000\<rparr>"

lemma vm_sample_frames:
  "pmm_alloc pmm_sample = Inr (0x200000, frames vm_sample) \<and> takes {512} pmm_sample (frames vm_sample)"
proof -
  obtain p where p: "pmm_alloc pmm_sample = Inr (of_nat 512 * PAGE_SIZE, p)" "takes {512} pmm_sample p"
    using pmm_alloc_Min [OF pmm_sample_ok] unfolding pmm_sample_Min by (auto simp: pmm_sample_usable)
  have "of_nat 512 * PAGE_SIZE = 0x200000"
    by (simp add: PAGE_SIZE_def)
  with p show ?thesis
    by (simp add: vm_sample_def)
qed

lemma vm_sample_inv: "vm_inv pmm_ok pmm_free_frames 0x200000 vm_sample"
  and vm_sample_empty: "pt_view (cells vm_sample) 0x200000 w = 0"
proof -
  have zero: "zero_table t (\<lambda>_. 0) = (\<lambda>_. 0)" for t
    by (rule ext) (simp add: zero_table_eq)
  have "cells vm_sample = (\<lambda>_. 0)"
    by (simp add: vm_sample_def)
  then show "vm_inv pmm_ok pmm_free_frames 0x200000 vm_sample" "pt_view (cells vm_sample) 0x200000 w = 0"
    using pmm_frames.fresh_root [of pmm_sample "0x200000" "frames vm_sample" "\<lambda>_. 0"]
      pmm_frames.alloc_ok [OF pmm_sample_ok conjunct1 [OF vm_sample_frames]]
      pmm_sample_ok vm_sample_frames
    by (simp_all add: vm_inv_def zero)
qed

lemma vm_sample_room: "card (pmm_free_frames (frames vm_sample)) = 87"
proof -
  have "usable_set (frames vm_sample) = usable_set pmm_sample - {512}"
    using vm_sample_frames by (auto simp: usable_set_def takes_def)
  moreover have "x \<in> {512..<600} - {512} \<longleftrightarrow> x \<in> {513..<600}" for x :: nat
    unfolding Diff_iff atLeastLessThan_iff singleton_iff by linarith
  ultimately have u: "usable_set (frames vm_sample) = {513..<600}"
    unfolding pmm_sample_usable by blast
  have inj: "inj_on (\<lambda>i. of_nat i * PAGE_SIZE) {513..<600}"
  proof (rule inj_onI)
    fix i j :: nat
    assume "i \<in> {513..<600}" "j \<in> {513..<600}" and eq: "of_nat i * PAGE_SIZE = of_nat j * PAGE_SIZE"
    then have "i < MAX_PAGES" "j < MAX_PAGES"
      by (auto simp: MAX_PAGES_def)
    then show "i = j"
      using eq by (rule page_addr_inj)
  qed
  show ?thesis
    unfolding pmm_free_frames_def u card_image [OF inj] by simp
qed

text \<open>C2: Over a tree of page tables made of frames the allocator no longer has, \<open>vmm_map\<close> keeps
  the tree so, and every frame it takes from the allocator becomes a table of the tree. It answers 0 or -1. With 0 it
  has set the entry of the page and of no other page, and flushed that address. With -1 fewer than three
  frames were left, some table on the way to the page did not exist, every entry is as it was and
  nothing was flushed.\<close>

theorem vmm_map_outcome:
  assumes "vm_inv pmm_ok pmm_free_frames R s"
  shows "\<exists>r s'. vmm_map pmm_alloc R v phys flags s = Inr (r, s') \<and> vm_inv pmm_ok pmm_free_frames R s' \<and>
    grows pmm_free_frames R s s' \<and>
    (if r = 0
     then pt_view (cells s') R = (\<lambda>w. if same_page w v then pte_value phys flags else pt_view (cells s) R w)
       \<and> invlpgs s' = v # invlpgs s
     else r = -1 \<and> card (pmm_free_frames (frames s)) < 3 \<and> leaf_ptr (cells s) R v = None
       \<and> pt_view (cells s') R = pt_view (cells s) R \<and> invlpgs s' = invlpgs s)"
  using assms
proof (cases rule: pmm_frames.vmm_map_spec [where v = v and phys = phys and flags = flags])
  case (mapped s')
  then show ?thesis by auto
next
  case (full s')
  then show ?thesis by (auto simp: same_map_def)
qed

theorem vmm_map_outcome_witness:
  "\<exists>s'. vmm_map pmm_alloc 0x200000 0xB8000 0xB8000 PTE_WRITABLE vm_sample = Inr (0, s')
    \<and> vm_inv pmm_ok pmm_free_frames 0x200000 s'
    \<and> pt_view (cells s') 0x200000 = (\<lambda>w. if same_page w 0xB8000 then pte_value 0xB8000 PTE_WRITABLE else 0)"
  using vmm_map_outcome [OF vm_sample_inv, of "0xB8000" "0xB8000" PTE_WRITABLE]
  by (auto simp: vm_sample_room vm_sample_empty split: if_splits)

lemma translation_pte_value:
  assumes "flags AND PTE_ADDR_MASK = 0"
  shows "translation (pte_value phys flags) w = (phys AND PTE_ADDR_MASK) OR (w AND 0xFFF)"
proof -
  have "PTE_PRESENT AND PTE_ADDR_MASK = 0"
    by (simp add: PTE_PRESENT_def PTE_ADDR_MASK_def)
  with assms have "pte_value phys flags AND PTE_ADDR_MASK = phys AND PTE_ADDR_MASK"
    by (simp add: pte_value_def bit.conj_disj_distrib2 and.assoc)
  then show ?thesis
    by (simp add: translation_def)
qed

text \<open>C19: A page that was mapped translates to the frame it was mapped to, with the offset of the
  address, and every other page translates as it did before; the flags may use any bit outside the
  frame number.\<close>

theorem vmm_map_then_translate:
  assumes "vm_inv pmm_ok pmm_free_frames R s" and "flags AND PTE_ADDR_MASK = 0"
    and "vmm_map pmm_alloc R v phys flags s = Inr (0, s')"
  shows "vmm_virt_to_phys pmm_alloc R w s' =
    (if same_page w v then Inr ((phys AND PTE_ADDR_MASK) OR (w AND 0xFFF))
     else vmm_virt_to_phys pmm_alloc R w s)"
  using assms(1)
proof (cases rule: pmm_frames.vmm_map_spec [where v = v and phys = phys and flags = flags])
  case (mapped t)
  with assms(3) have "t = s'" by simp
  with mapped(3) show ?thesis
    by (simp add: vmm_virt_to_phys_view translation_pte_value [OF assms(2)])
next
  case (full t)
  with assms(3) show ?thesis by simp
qed

theorem vmm_map_then_translate_witness:
  "\<exists>s'. vmm_map pmm_alloc 0x200000 0xB8000 0xFEE00000 PTE_WRITABLE vm_sample = Inr (0, s')
    \<and> vmm_virt_to_phys pmm_alloc 0x200000 0xB8123 s' = Inr 0xFEE00123
    \<and> vmm_virt_to_phys pmm_alloc 0x200000 0xB9000 s' = Inr 0"
proof -
  obtain s' where s': "vmm_map pmm_alloc 0x200000 0xB8000 0xFEE00000 PTE_WRITABLE vm_sample = Inr (0, s')"
    using vm_sample_inv
    by (cases rule: pmm_frames.vmm_map_spec [where v = "0xB8000" and phys = "0xFEE00000" and flags = PTE_WRITABLE])
      (auto simp: vm_sample_room)
  have "PTE_WRITABLE AND PTE_ADDR_MASK = 0" "same_page 0xB8123 0xB8000" "\<not> same_page 0xB9000 0xB8000"
    by (simp_all add: PTE_WRITABLE_def PTE_ADDR_MASK_def same_page_def vpath_def pt_index_def)
  note sample = this
  note t = vmm_map_then_translate [OF vm_sample_inv sample(1) s']
  have "vmm_virt_to_phys pmm_alloc 0x200000 0xB8123 s' = Inr 0xFEE00123"
    unfolding t using sample(2) by (simp add: PTE_ADDR_MASK_def)
  moreover have "vmm_virt_to_phys pmm_alloc 0x200000 0xB9000 s' = Inr 0"
    unfolding t using sample(3) by (simp add: vmm_virt_to_phys_view vm_sample_empty translation_def)
  ultimately show ?thesis
    using s' by blast
qed

text \<open>C20: Unmapping clears the entry of the page if it was present, flushes it, and leaves every other
  page, the set of the tables, the root, CR3 and the frames as they were; an address of the page translates to 0 afterwards.\<close>

theorem vmm_unmap_effect:
  assumes "vm_inv pmm_ok pmm_free_frames R s"
  shows "\<exists>s'. vmm_unmap pmm_alloc R v s = Inr s' \<and> vm_inv pmm_ok pmm_free_frames R s'
    \<and> frames s' = frames s \<and> tables (cells s') R = tables (cells s) R
    \<and> kernel_pml4 s' = kernel_pml4 s \<and> cr3 s' = cr3 s
    \<and> invlpgs s' = (if present (pt_view (cells s) R v) then v # invlpgs s else invlpgs s)
    \<and> vmm_virt_to_phys pmm_alloc R v s' = Inr 0
    \<and> pt_view (cells s') R = (\<lambda>w. if same_page w v \<and> present (pt_view (cells s) R v) then 0
                                   else pt_view (cells s) R w)"
proof -
  obtain s' where s': "vmm_unmap pmm_alloc R v s = Inr s'" "vm_inv pmm_ok pmm_free_frames R s'"
    "pt_view (cells s') R = (\<lambda>w. if same_page w v \<and> present (pt_view (cells s) R v) then 0
                                   else pt_view (cells s) R w)"
    "invlpgs s' = (if present (pt_view (cells s) R v) then v # invlpgs s else invlpgs s)"
    "frames s' = frames s" "tables (cells s') R = tables (cells s) R" "kernel_pml4 s' = kernel_pml4 s" "cr3 s' = cr3 s"
    using pmm_frames.vmm_unmap_spec [OF assms, of v] by blast
  have "vmm_virt_to_phys pmm_alloc R v s' = Inr 0"
    unfolding vmm_virt_to_phys_view s'(3) by (simp add: translation_def)
  with s' show ?thesis by blast
qed

theorem vmm_unmap_effect_witness:
  "\<exists>s s'. vmm_map pmm_alloc 0x200000 0xB8000 0xB8000 PTE_WRITABLE vm_sample = Inr (0, s)
    \<and> vmm_unmap pmm_alloc 0x200000 0xB8FFF s = Inr s'
    \<and> invlpgs s' = [0xB8FFF, 0xB8000] \<and> vmm_virt_to_phys pmm_alloc 0x200000 0xB8FFF s' = Inr 0"
  using vm_sample_inv
proof (cases rule: pmm_frames.vmm_map_spec [where v = "0xB8000" and phys = "0xB8000" and flags = PTE_WRITABLE])
  case (mapped s)
  have "same_page 0xB8FFF 0xB8000"
    by (simp add: same_page_def vpath_def pt_index_def)
  with mapped vmm_unmap_effect [OF mapped(2), of "0xB8FFF"] show ?thesis
    by (auto simp: vm_sample_def)
qed (simp add: vm_sample_room)

lemma page_pte_translation:
  assumes "same_page w (of_nat j * PAGE_SIZE)" and "j < 1048576"
    and e: "e = page_pte (PTE_PRESENT OR PTE_WRITABLE OR PTE_NX OR PTE_GLOBAL) j"
  shows "translation e w = w AND 0xFFFFFFFFFFFF" and "bit e 63"
proof -
  let ?fl = "PTE_PRESENT OR PTE_WRITABLE OR PTE_NX OR PTE_GLOBAL"
  have fl: "?fl AND PTE_ADDR_MASK = 0" "bit ?fl 63"
    by (simp_all add: pte_flags PTE_ADDR_MASK_def)
  have m: "(0xFFFFFFFFFFFF :: u64) = mask 48" "(0xFFF :: u64) = mask 12"
    by (simp_all add: mask_eq_exp_minus_1)
  have j: "n < 20" if "bit j n" for n
    using that assms(2) bit_small [of j n 20] by simp
  have "bit ((of_nat j * PAGE_SIZE AND PTE_ADDR_MASK) OR (w AND mask 12)) n = bit (w AND mask 48) n" for n
  proof (cases "12 \<le> n \<and> n < 48")
    case True
    with assms(1) show ?thesis
      by (auto simp: same_page_iff bit_or_iff bit_and_iff bit_PTE_ADDR_MASK bit_mask_iff)
  next
    case False
    then show ?thesis
      using j [of "n - 12"] by (auto simp: bit_page_addr bit_or_iff bit_and_iff bit_PTE_ADDR_MASK bit_mask_iff)
  qed
  then show "translation e w = w AND 0xFFFFFFFFFFFF"
    unfolding e page_pte_def translation_pte_value [OF fl(1)] m by (simp add: word_bit_eq_iff)
  show "bit e 63"
    using fl(2) unfolding e page_pte_def pte_value_def by (simp add: bit_or_iff)
qed

end
