(* ===== verification/KernelHeap.thy ===== *)
theory KernelHeap
  imports PageTable
begin

section \<open>The kernel heap\<close>

text \<open>
  \<^verbatim>\<open>kernel/memory/memory.c\<close>, lines 381 to 420: the bump allocator \<open>kmalloc\<close> over the 16 MB
  taken from the frame allocator. A pointer is its address, \<open>NULL\<close> is 0. The section shows that
  blocks never overlap for requests up to 2\<open>^\<close>46 bytes, and what the unchecked additions do
  beyond that.
\<close>

definition HEAP_INITIAL_SIZE :: u64 where "HEAP_INITIAL_SIZE = 16 * 1024 * 1024"

record heap =
  heap_ptr :: u64
  heap_end :: u64

definition heap_static :: heap where
  "heap_static = \<lparr>heap_ptr = 0, heap_end = 0\<rparr>"

definition kmalloc_init :: "pmm \<times> heap \<Rightarrow> (pmm \<times> heap) checked" where
  "kmalloc_init = (\<lambda>(p, h).
     rbind (pmm_alloc_contiguous (HEAP_INITIAL_SIZE div PAGE_SIZE) p) (\<lambda>(phys, p').
       if phys = 0 then Inr (p', h)
       else Inr (p', h\<lparr>heap_ptr := phys + VIRT_PHYS_MAP_BASE,
                       heap_end := phys + VIRT_PHYS_MAP_BASE + HEAP_INITIAL_SIZE\<rparr>)))"

definition align16 :: "u64 \<Rightarrow> u64" where
  "align16 sz = (sz + 15) AND NOT 15"

definition kmalloc :: "u64 \<Rightarrow> heap \<Rightarrow> u64 \<times> heap" where
  "kmalloc sz h =
     (let sz' = align16 sz in
      if heap_end h < heap_ptr h + sz' then (0, h)
      else (heap_ptr h, h\<lparr>heap_ptr := heap_ptr h + sz'\<rparr>))"

definition align_up :: "u64 \<Rightarrow> u64 \<Rightarrow> u64" where
  "align_up p align = (p + align - 1) AND NOT (align - 1)"

definition kmalloc_aligned :: "u64 \<Rightarrow> u64 \<Rightarrow> heap \<Rightarrow> u64 \<times> heap" where
  "kmalloc_aligned sz align h = kmalloc sz (h\<lparr>heap_ptr := align_up (heap_ptr h) align\<rparr>)"

definition kfree :: "u64 \<Rightarrow> heap \<Rightarrow> heap" where
  "kfree ptr h = h"

lemma unat_VIRT_PHYS_MAP_BASE: "unat VIRT_PHYS_MAP_BASE = 2 ^ 64 - 2 ^ 48"
  by (simp add: VIRT_PHYS_MAP_BASE_def)

subsection \<open>The two roundings\<close>

definition KMALLOC_LIMIT :: nat where "KMALLOC_LIMIT = 2 ^ 46"

lemma unat_align16:
  assumes "unat n < 2 ^ 64 - 15"
  shows "unat (align16 n) = (unat n + 15) div 16 * 16"
proof -
  have "unat (n + 15) = unat n + 15"
    using assms by (subst unat_add_small) simp_all
  then show ?thesis
    using unat_round_down [of 4 "n + 15"] by (simp add: align16_def)
qed

lemma align16_limit:
  assumes "unat n \<le> KMALLOC_LIMIT"
  shows "unat n \<le> unat (align16 n)" and "unat (align16 n) \<le> KMALLOC_LIMIT"
    and "unat (align16 n) mod 16 = 0"
proof -
  have eq: "unat (align16 n) = (unat n + 15) div 16 * 16"
    using assms by (intro unat_align16) (simp add: KMALLOC_LIMIT_def)
  have "(unat n + 15) div 16 \<le> 4398046511104"
    using assms unfolding KMALLOC_LIMIT_def by simp
  with eq show "unat (align16 n) \<le> KMALLOC_LIMIT"
    by (simp add: KMALLOC_LIMIT_def)
  show "unat n \<le> unat (align16 n)" and "unat (align16 n) mod 16 = 0"
    unfolding eq by simp_all
qed

lemma unat_pow_u64:
  assumes "k < 64"
  shows "unat ((2 :: u64) ^ k) = 2 ^ k"
proof -
  have "(2 :: nat) ^ k < 2 ^ 64"
    using assms by (intro power_strict_increasing) simp_all
  moreover have "(2 :: u64) ^ k = of_nat (2 ^ k)"
    by simp
  ultimately show ?thesis
    by (simp only: unat_of_nat_u64)
qed

lemma unat_align_up:
  assumes k: "k < 64" and p: "unat p + 2 ^ k \<le> 2 ^ 64"
  shows "unat (align_up p (2 ^ k)) = (unat p + (2 ^ k - 1)) div 2 ^ k * 2 ^ k"
proof -
  have "(1 :: u64) \<le> 2 ^ k"
    unfolding word_le_nat_alt unat_pow_u64 [OF k] by simp
  then have m: "unat ((2 :: u64) ^ k - 1) = 2 ^ k - 1"
    by (simp add: unat_sub unat_pow_u64 [OF k])
  have "0 < (2 :: nat) ^ k"
    by simp
  then have lt: "unat p + (2 ^ k - 1) < 2 ^ 64"
    using p by linarith
  have "unat (p + (2 ^ k - 1)) = unat p + (2 ^ k - 1)"
    using unat_add_small [of p "2 ^ k - 1"] lt unfolding m by blast
  moreover have "p + 2 ^ k - 1 = p + (2 ^ k - 1)"
    by (rule add_diff_eq [symmetric])
  ultimately show ?thesis
    using unat_round_down [OF k, of "p + 2 ^ k - 1"] unfolding align_up_def by metis
qed

subsection \<open>The invariant of the heap\<close>

text \<open>
  Below \<open>HEAP_TOP\<close> no request within the limit makes \<open>heap_ptr + size\<close> wrap; \<open>HEAP_TOP\<close> is a
  multiple of every alignment up to the limit, so that aligning keeps the bound as well.
\<close>

definition HEAP_TOP :: nat where "HEAP_TOP = 2 ^ 64 - 2 ^ 47"

definition heap_ok :: "heap \<Rightarrow> bool" where
  "heap_ok h \<longleftrightarrow> unat (heap_ptr h) mod 16 = 0 \<and> unat (heap_ptr h) \<le> HEAP_TOP \<and>
     unat (heap_end h) \<le> HEAP_TOP \<and> (heap_ptr h = 0 \<longrightarrow> heap_end h = 0)"

definition heap_used :: "heap \<Rightarrow> nat set" where
  "heap_used h = {..<unat (heap_ptr h)}"

lemma heap_static_ok [simp]: "heap_ok heap_static"
  by (simp add: heap_ok_def heap_static_def)

lemma unat_bump:
  assumes "heap_ok h" and "unat n \<le> KMALLOC_LIMIT"
  shows "unat (heap_ptr h + align16 n) = unat (heap_ptr h) + unat (align16 n)"
  using assms(1) align16_limit(2) [OF assms(2)]
  by (intro unat_add_small) (simp add: heap_ok_def HEAP_TOP_def KMALLOC_LIMIT_def)

lemma kmalloc_cases:
  assumes "heap_ok h" and n: "unat n \<le> KMALLOC_LIMIT"
  obtains (full) "unat (heap_end h) < unat (heap_ptr h) + unat (align16 n)" "kmalloc n h = (0, h)"
  | (block) "unat (heap_ptr h) + unat (align16 n) \<le> unat (heap_end h)"
      "kmalloc n h = (heap_ptr h, h\<lparr>heap_ptr := heap_ptr h + align16 n\<rparr>)"
proof (cases "heap_end h < heap_ptr h + align16 n")
  case True
  then show thesis
    using unat_bump [OF assms] by (intro full) (simp_all add: kmalloc_def Let_def word_less_nat_alt)
next
  case False
  then show thesis
    using unat_bump [OF assms] by (intro block) (simp_all add: kmalloc_def Let_def word_less_nat_alt)
qed

lemma kmalloc_succeeds:
  assumes "heap_ok h" and "0 < n" and "n \<le> KMALLOC_LIMIT"
  shows "fst (kmalloc (of_nat n) h) \<noteq> 0 \<longleftrightarrow> unat (heap_ptr h) + (n + 15) div 16 * 16 \<le> unat (heap_end h)"
proof -
  have n: "unat (of_nat n :: u64) = n"
    using assms(3) by (intro unat_of_nat_u64) (simp add: KMALLOC_LIMIT_def)
  have a: "unat (align16 (of_nat n)) = (n + 15) div 16 * 16"
    using unat_align16 [of "of_nat n"] assms(3) by (simp add: n KMALLOC_LIMIT_def)
  have limit: "unat (of_nat n :: u64) \<le> KMALLOC_LIMIT"
    using assms(3) n by simp
  from assms(1) limit show ?thesis
  proof (cases rule: kmalloc_cases)
    case block
    have "heap_ptr h \<noteq> 0"
    proof
      assume "heap_ptr h = 0"
      then have "heap_end h = 0"
        using assms(1) by (simp add: heap_ok_def)
      then show False
        using block(1) assms(2) \<open>heap_ptr h = 0\<close> by (simp add: a)
    qed
    then show ?thesis
      using block by (simp add: a)
  qed (simp add: a)
qed

lemma kmalloc_ok:
  assumes "heap_ok h" and "unat n \<le> KMALLOC_LIMIT" and "kmalloc n h = (p, h')"
  shows "heap_ok h' \<and> unat (heap_ptr h) \<le> unat (heap_ptr h') \<and> heap_end h' = heap_end h"
  using assms(1,2)
proof (cases rule: kmalloc_cases)
  case full
  then show ?thesis
    using assms(1,3) by simp
next
  case block
  have "unat (heap_ptr h + align16 n) mod 16 = 0"
    unfolding unat_bump [OF assms(1,2)]
    using assms(1) align16_limit(3) [OF assms(2)] by (simp add: heap_ok_def mod_add_eq [symmetric])
  moreover have "heap_ptr h + align16 n = 0 \<Longrightarrow> heap_end h = 0"
    using unat_bump [OF assms(1,2)] assms(1) by (auto simp: heap_ok_def simp flip: unat_0_iff)
  ultimately show ?thesis
    using block assms unat_bump [OF assms(1,2)] by (auto simp: heap_ok_def)
qed

lemma kmalloc_block:
  assumes "heap_ok h" and "unat n \<le> KMALLOC_LIMIT" and "kmalloc n h = (p, h')" and "p \<noteq> 0"
  shows "p = heap_ptr h \<and> unat p + unat n \<le> unat (heap_ptr h') \<and>
    unat (heap_ptr h') \<le> unat (heap_end h) \<and> unat p mod 16 = 0"
  using assms(1,2)
proof (cases rule: kmalloc_cases)
  case full
  then show ?thesis
    using assms(3,4) by simp
next
  case block
  then show ?thesis
    using assms unat_bump [OF assms(1,2)] align16_limit(1) [OF assms(2)] by (auto simp: heap_ok_def)
qed

subsection \<open>Aligned requests\<close>

lemma round_up_facts:
  fixes p :: nat
  assumes "0 < d"
  shows "p \<le> (p + (d - 1)) div d * d" and "(p + (d - 1)) div d * d < p + d"
    and "d dvd p \<Longrightarrow> (p + (d - 1)) div d * d = p" and "p \<le> m * d \<Longrightarrow> (p + (d - 1)) div d * d \<le> m * d"
proof -
  have e: "(p + (d - 1)) div d * d + (p + (d - 1)) mod d = p + (d - 1)"
    by simp
  have r: "(p + (d - 1)) mod d < d"
    using assms by simp
  show "p \<le> (p + (d - 1)) div d * d" and "(p + (d - 1)) div d * d < p + d"
    using e r assms by linarith+
  show "(p + (d - 1)) div d * d = p" if dv: "d dvd p"
  proof -
    obtain c where "p = c * d"
      using dv by (metis dvd_def mult.commute)
    moreover have "(c * d + (d - 1)) div d = c"
      using assms div_mult_self3 [of d c "d - 1"] by (simp del: div_mult_self3)
    ultimately show ?thesis
      by simp
  qed
  show "(p + (d - 1)) div d * d \<le> m * d" if m: "p \<le> m * d"
  proof -
    have "p + (d - 1) < Suc m * d"
      using m assms by simp
    then have "(p + (d - 1)) div d \<le> m"
      by (metis less_Suc_eq_le less_mult_imp_div_less)
    then show ?thesis
      by (rule mult_le_mono1)
  qed
qed

lemma align_up_facts:
  assumes h: "heap_ok h" and k: "k \<le> 46"
  shows "unat (heap_ptr h) \<le> unat (align_up (heap_ptr h) (2 ^ k))"
    and "unat (align_up (heap_ptr h) (2 ^ k)) mod 2 ^ k = 0"
    and "unat (align_up (heap_ptr h) (2 ^ k)) < unat (heap_ptr h) + 2 ^ k"
    and "heap_ok (h\<lparr>heap_ptr := align_up (heap_ptr h) (2 ^ k)\<rparr>)"
proof -
  let ?p = "unat (heap_ptr h)" and ?d = "2 ^ k :: nat"
  have d: "0 < ?d"
    by simp
  have dle: "?d \<le> 2 ^ 46"
    using k by (intro power_increasing) simp_all
  have eq: "unat (align_up (heap_ptr h) (2 ^ k)) = (?p + (?d - 1)) div ?d * ?d"
    using h k dle by (intro unat_align_up) (simp_all add: heap_ok_def HEAP_TOP_def)
  show le: "?p \<le> unat (align_up (heap_ptr h) (2 ^ k))"
    and "unat (align_up (heap_ptr h) (2 ^ k)) mod 2 ^ k = 0"
    and "unat (align_up (heap_ptr h) (2 ^ k)) < ?p + 2 ^ k"
    unfolding eq using round_up_facts(1,2) [OF d] by simp_all
  have "HEAP_TOP = 262142 * 2 ^ (46 - k) * ?d"
    using k by (simp add: HEAP_TOP_def mult.assoc flip: power_add)
  then have top: "unat (align_up (heap_ptr h) (2 ^ k)) \<le> HEAP_TOP"
    unfolding eq using round_up_facts(4) [OF d, of ?p "262142 * 2 ^ (46 - k)"] h
    by (simp add: heap_ok_def)
  have m16: "unat (align_up (heap_ptr h) (2 ^ k)) mod 16 = 0"
  proof (cases "4 \<le> k")
    case True
    then have "?d = 16 * 2 ^ (k - 4)"
      using power_add [of "2::nat" 4 "k - 4"] by simp
    then show ?thesis
      unfolding eq by simp
  next
    case False
    then have "?d dvd 16"
      using le_imp_power_dvd [of k 4 "2::nat"] by simp
    moreover have "16 dvd ?p"
      using h by (simp add: heap_ok_def mod_0_imp_dvd)
    ultimately have "unat (align_up (heap_ptr h) (2 ^ k)) = ?p"
      unfolding eq using round_up_facts(3) [OF d] dvd_trans by blast
    then show ?thesis
      using h by (simp add: heap_ok_def)
  qed
  have "align_up (heap_ptr h) (2 ^ k) = 0 \<Longrightarrow> heap_ptr h = 0"
    using le by (simp add: unat_0_iff [symmetric] del: unat_0_iff) 
  then show "heap_ok (h\<lparr>heap_ptr := align_up (heap_ptr h) (2 ^ k)\<rparr>)"
    using h top m16 by (auto simp: heap_ok_def)
qed

text \<open>
  An aligned request is a plain one on the aligned pointer; when it does not fit, the pointer
  stays advanced.
\<close>

datatype heap_request = Plain u64 | Aligned u64 u64

fun heap_call :: "heap_request \<Rightarrow> heap \<Rightarrow> u64 \<times> heap" where
  "heap_call (Plain sz) h = kmalloc sz h"
| "heap_call (Aligned sz align) h = kmalloc_aligned sz align h"

fun heap_bytes :: "heap_request \<Rightarrow> u64" where
  "heap_bytes (Plain sz) = sz"
| "heap_bytes (Aligned sz align) = sz"

fun heap_valid :: "heap_request \<Rightarrow> bool" where
  "heap_valid (Plain sz) \<longleftrightarrow> unat sz \<le> KMALLOC_LIMIT"
| "heap_valid (Aligned sz align) \<longleftrightarrow> unat sz \<le> KMALLOC_LIMIT \<and> align \<in> set (map ((^) 2) [0..<47])"

lemma heap_call_facts:
  assumes "heap_ok h" and "heap_valid r" and "heap_call r h = (p, h')"
  shows "heap_ok h' \<and> unat (heap_ptr h) \<le> unat (heap_ptr h') \<and> heap_end h' = heap_end h \<and>
    (p \<noteq> 0 \<longrightarrow> unat (heap_ptr h) \<le> unat p \<and> unat p + unat (heap_bytes r) \<le> unat (heap_ptr h') \<and>
      unat (heap_ptr h') \<le> unat (heap_end h) \<and> unat p mod 16 = 0)"
proof (cases r)
  case (Plain sz)
  then show ?thesis
    using assms kmalloc_ok [of h sz p h'] kmalloc_block [of h sz p h'] by auto
next
  case (Aligned sz align)
  then obtain k where k: "align = 2 ^ k" "k \<le> 46" and sz: "unat sz \<le> KMALLOC_LIMIT"
    using assms(2) by auto
  let ?h = "h\<lparr>heap_ptr := align_up (heap_ptr h) align\<rparr>"
  have ok: "heap_ok ?h" and le: "unat (heap_ptr h) \<le> unat (heap_ptr ?h)"
    using align_up_facts [OF assms(1) k(2)] k(1) by simp_all
  have call: "kmalloc sz ?h = (p, h')"
    using assms(3) Aligned by (simp add: kmalloc_aligned_def)
  show ?thesis
    using Aligned le kmalloc_ok [OF ok sz call] kmalloc_block [OF ok sz call] by auto
qed

lemma kmalloc_aligned_result:
  assumes "heap_ok h" and "unat sz \<le> KMALLOC_LIMIT" and "k \<le> 46"
    and "kmalloc_aligned sz (2 ^ k) h = (p, h')" and "p \<noteq> 0"
  shows "unat p mod 2 ^ k = 0 \<and> unat p < unat (heap_ptr h) + 2 ^ k"
  using assms align_up_facts [OF assms(1,3)]
    kmalloc_block [OF align_up_facts(4) [OF assms(1,3)] assms(2), of p h']
  by (simp add: kmalloc_aligned_def)

interpretation kheap: heap_allocator kmalloc "\<lambda>n. n" "\<lambda>n. unat n \<le> KMALLOC_LIMIT" heap_used heap_ok
proof
  fix h r p h'
  assume a: "heap_ok h" "unat r \<le> KMALLOC_LIMIT" "kmalloc r h = (p, h')"
  show "heap_ok h'" "heap_used h \<subseteq> heap_used h'"
    using kmalloc_ok [OF a] by (auto simp: heap_used_def)
  show "block p r \<inter> heap_used h = {} \<and> block p r \<subseteq> heap_used h'" "unat p + unat r \<le> 2 ^ 64"
    if "p \<noteq> 0"
    using kmalloc_block [OF a that] unat_lt_2p64 [of "heap_ptr h'"]
    by (auto simp: heap_used_def block_def)
qed

interpretation kheap_requests: heap_allocator heap_call heap_bytes heap_valid heap_used heap_ok
proof
  fix h r p h'
  assume a: "heap_ok h" "heap_valid r" "heap_call r h = (p, h')"
  show "heap_ok h'" "heap_used h \<subseteq> heap_used h'"
    using heap_call_facts [OF a] by (auto simp: heap_used_def)
  show "block p (heap_bytes r) \<inter> heap_used h = {} \<and> block p (heap_bytes r) \<subseteq> heap_used h'"
    "unat p + unat (heap_bytes r) \<le> 2 ^ 64" if "p \<noteq> 0"
    using heap_call_facts [OF a] that unat_lt_2p64 [of "heap_ptr h'"]
    by (auto simp: heap_used_def block_def)
qed

interpretation kblocks: block_heap kmalloc heap_used heap_ok kfree
proof
  fix h r p h'
  assume a: "heap_ok h" "unat r \<le> SMALL_BLOCK" "kmalloc r h = (p, h')"
  then have r: "unat r \<le> KMALLOC_LIMIT"
    by (simp add: SMALL_BLOCK_def KMALLOC_LIMIT_def)
  show "heap_ok h'"
    by (rule kheap.malloc_ok [OF a(1) r a(3)])
  show "heap_used h \<subseteq> heap_used h'"
    by (rule kheap.malloc_keeps [OF a(1) r a(3)])
  show "block p r \<inter> heap_used h = {} \<and> block p r \<subseteq> heap_used h'" if "p \<noteq> 0"
    by (rule kheap.malloc_fresh [OF a(1) r a(3) that])
  show "unat p + unat r \<le> 2 ^ 64" if "p \<noteq> 0"
    by (rule kheap.malloc_fits [OF a(1) r a(3) that])
qed (simp add: kfree_def)

text \<open>A small block takes at most 4112 bytes.\<close>

definition heap_room :: "heap \<Rightarrow> nat" where
  "heap_room h = (unat (heap_end h) - unat (heap_ptr h)) div 4112"

lemma kmalloc_room:
  assumes "heap_ok h" and n: "unat n \<le> SMALL_BLOCK" and room: "0 < heap_room h"
    and call: "kmalloc n h = (p, h')"
  shows "p \<noteq> 0 \<and> heap_room h \<le> Suc (heap_room h')"
proof -
  have limit: "unat n \<le> KMALLOC_LIMIT"
    using n by (simp add: SMALL_BLOCK_def KMALLOC_LIMIT_def)
  have "unat (align16 n) = (unat n + 15) div 16 * 16"
    using n by (intro unat_align16) (simp add: SMALL_BLOCK_def)
  then have size4112: "unat (align16 n) \<le> 4112"
    using n by (simp add: SMALL_BLOCK_def)
  have free: "4112 \<le> unat (heap_end h) - unat (heap_ptr h)"
    using room by (simp add: heap_room_def div_greater_zero_iff)
  from assms(1) limit show ?thesis
  proof (cases rule: kmalloc_cases)
    case full
    then show ?thesis
      using free size4112 by simp
  next
    case block
    have "heap_ptr h \<noteq> 0"
      using assms(1) free by (auto simp: heap_ok_def)
    moreover have "unat (heap_end h) - unat (heap_ptr h) - unat (align16 n) + 4112 \<ge>
        unat (heap_end h) - unat (heap_ptr h)"
      using size4112 by simp
    then have "heap_room h \<le> (unat (heap_end h) - unat (heap_ptr h) - unat (align16 n) + 4112) div 4112"
      unfolding heap_room_def by (rule div_le_mono)
    ultimately show ?thesis
      using block call unat_bump [OF assms(1) limit] by (simp add: heap_room_def)
  qed
qed

interpretation kroomy: roomy_heap kmalloc heap_used heap_ok kfree heap_room
  by unfold_locales (rule kmalloc_room)

subsection \<open>Free bytes\<close>

definition heap_free :: "heap \<Rightarrow> nat" where
  "heap_free h = unat (heap_end h) - unat (heap_ptr h)"

lemma kmalloc_takes:
  assumes "heap_ok h" and "unat n \<le> KMALLOC_LIMIT" and "kmalloc n h = (p, h')"
  shows "heap_free h \<le> heap_free h' + (unat n + 15)"
  using assms(1,2)
proof (cases rule: kmalloc_cases)
  case full
  then show ?thesis
    using assms(3) by simp
next
  case block
  have "unat (align16 n) \<le> unat n + 15"
    using assms(2) by (subst unat_align16) (simp_all add: KMALLOC_LIMIT_def)
  then show ?thesis
    using block assms(3) unat_bump [OF assms(1,2)] by (auto simp: heap_free_def)
qed

lemma kmalloc_free:
  assumes "heap_ok h" and n: "unat n \<le> KMALLOC_LIMIT" and room: "unat n + 15 \<le> heap_free h" "heap_free h \<noteq> 0"
    and call: "kmalloc n h = (p, h')"
  shows "p \<noteq> 0 \<and> heap_free h \<le> heap_free h' + (unat n + 15)"
proof -
  have size: "unat (align16 n) \<le> unat n + 15"
    using n by (subst unat_align16) (simp_all add: KMALLOC_LIMIT_def)
  have "heap_ptr h \<noteq> 0"
    using assms(1) room(2) by (auto simp: heap_ok_def heap_free_def)
  moreover from assms(1) n have "p = 0 \<longrightarrow> heap_ptr h = 0"
  proof (cases rule: kmalloc_cases)
    case full
    then show ?thesis
      using room size by (simp add: heap_free_def)
  next
    case block
    then show ?thesis
      using call by simp
  qed
  ultimately show ?thesis
    using kmalloc_takes [OF assms(1) n call] by simp
qed

text \<open>
  What is handed out above an address, on a heap that ends where it ends: the same laws hold with
  a floor below the blocks and a ceiling above them.
\<close>

definition heap_used_from :: "nat \<Rightarrow> heap \<Rightarrow> nat set" where
  "heap_used_from lo h = {lo ..< unat (heap_ptr h)}"

definition heap_between :: "nat \<Rightarrow> u64 \<Rightarrow> heap \<Rightarrow> bool" where
  "heap_between lo roof h \<longleftrightarrow> heap_ok h \<and> heap_end h = roof \<and> lo \<le> unat (heap_ptr h) \<and> heap_ptr h \<le> roof"

lemma kmalloc_between:
  assumes "heap_between lo roof h" and "unat n \<le> KMALLOC_LIMIT" and "kmalloc n h = (p, h')"
  shows "heap_between lo roof h'"
proof -
  have ok: "heap_ok h"
    using assms(1) by (simp add: heap_between_def)
  from ok assms(2) have "heap_ptr h' \<le> heap_end h"
  proof (cases rule: kmalloc_cases)
    case full
    then show ?thesis
      using assms(1,3) by (simp add: heap_between_def)
  next
    case block
    then show ?thesis
      using assms(3) unat_bump [OF ok assms(2)] by (auto simp: word_le_nat_alt)
  qed
  then show ?thesis
    using assms(1) kmalloc_ok [OF ok assms(2,3)] by (auto simp: heap_between_def)
qed

interpretation kbetween: block_heap kmalloc "heap_used_from lo" "heap_between lo roof" kfree for lo roof
proof
  fix h r p h'
  assume a: "heap_between lo roof h" "unat r \<le> SMALL_BLOCK" "kmalloc r h = (p, h')"
  then have r: "unat r \<le> KMALLOC_LIMIT" and ok: "heap_ok h" and lo: "lo \<le> unat (heap_ptr h)"
    by (simp_all add: SMALL_BLOCK_def KMALLOC_LIMIT_def heap_between_def)
  show "heap_between lo roof h'"
    by (rule kmalloc_between [OF a(1) r a(3)])
  show "heap_used_from lo h \<subseteq> heap_used_from lo h'"
    using kmalloc_ok [OF ok r a(3)] by (auto simp: heap_used_from_def)
  show "block p r \<inter> heap_used_from lo h = {} \<and> block p r \<subseteq> heap_used_from lo h'" "unat p + unat r \<le> 2 ^ 64"
    if "p \<noteq> 0"
    using kmalloc_block [OF ok r a(3) that] lo unat_lt_2p64 [of "heap_ptr h'"]
    by (auto simp: heap_used_from_def block_def)
qed (simp add: kfree_def)

subsection \<open>Set-up and the unchecked sums\<close>

lemma kmalloc_init_cases:
  assumes "pmm_ok p"
  obtains (none) "kmalloc_init (p, h) = Inr (p, h)"
  | (heap) k p' where "kmalloc_init (p, h) = Inr (p', \<lparr>heap_ptr = of_nat k * PAGE_SIZE + VIRT_PHYS_MAP_BASE,
        heap_end = of_nat k * PAGE_SIZE + VIRT_PHYS_MAP_BASE + HEAP_INITIAL_SIZE\<rparr>)"
      "takes {k..<k + 4096} p p'" "first_run p 4096 k"
      "unat (of_nat k * PAGE_SIZE + VIRT_PHYS_MAP_BASE) = unat VIRT_PHYS_MAP_BASE + k * 4096"
      "unat (of_nat k * PAGE_SIZE + VIRT_PHYS_MAP_BASE + HEAP_INITIAL_SIZE) =
        unat VIRT_PHYS_MAP_BASE + k * 4096 + 16777216"
proof (rule pmm_alloc_contiguous_cases [OF assms, of 4096])
  assume "pmm_alloc_contiguous 4096 p = Inr (0, p)"
  then show thesis
    by (intro none) (simp add: kmalloc_init_def HEAP_INITIAL_SIZE_def PAGE_SIZE_def)
next
  fix k p'
  assume call: "pmm_alloc_contiguous 4096 p = Inr (of_nat k * PAGE_SIZE, p')"
    and t: "takes {k..<k + unat (4096 :: u64)} p p'" and f: "first_run p (unat (4096 :: u64)) k"
  have k: "512 \<le> k" "k < MAX_PAGES"
    using f assms(1) by (auto simp: first_run_def run_at_def pmm_ok_def)
  have a: "unat (of_nat k * PAGE_SIZE + VIRT_PHYS_MAP_BASE) = unat VIRT_PHYS_MAP_BASE + k * 4096"
    using k(2) unat_page_addr [OF k(2)]
    by (subst unat_add_small) (simp_all add: unat_VIRT_PHYS_MAP_BASE MAX_PAGES_def)
  have b: "unat (of_nat k * PAGE_SIZE + VIRT_PHYS_MAP_BASE + HEAP_INITIAL_SIZE) =
      unat (of_nat k * PAGE_SIZE + VIRT_PHYS_MAP_BASE) + 16777216"
    using k(2) unfolding HEAP_INITIAL_SIZE_def
    by (subst unat_add_small) (simp_all add: a unat_VIRT_PHYS_MAP_BASE MAX_PAGES_def)
  show thesis
    using call t f a b page_addr_neq_0 [OF k]
    by (intro heap [of p' k]) (simp_all add: kmalloc_init_def HEAP_INITIAL_SIZE_def PAGE_SIZE_def)
qed

lemma kmalloc_init_ok:
  assumes "pmm_ok p" and "kmalloc_init (p, heap_static) = Inr (p', h)"
  shows "pmm_ok p' \<and> heap_ok h"
proof (rule kmalloc_init_cases [OF assms(1), of heap_static])
  assume "kmalloc_init (p, heap_static) = Inr (p, heap_static)"
  then show ?thesis
    using assms by simp
next
  fix k q
  assume init: "kmalloc_init (p, heap_static) = Inr (q, \<lparr>heap_ptr = of_nat k * PAGE_SIZE + VIRT_PHYS_MAP_BASE,
        heap_end = of_nat k * PAGE_SIZE + VIRT_PHYS_MAP_BASE + HEAP_INITIAL_SIZE\<rparr>)"
    and q: "takes {k..<k + 4096} p q" and f: "first_run p 4096 k"
    and u: "unat (of_nat k * PAGE_SIZE + VIRT_PHYS_MAP_BASE) = unat VIRT_PHYS_MAP_BASE + k * 4096"
      "unat (of_nat k * PAGE_SIZE + VIRT_PHYS_MAP_BASE + HEAP_INITIAL_SIZE) =
        unat VIRT_PHYS_MAP_BASE + k * 4096 + 16777216"
  have k: "k < MAX_PAGES"
    using f assms(1) by (auto simp: first_run_def run_at_def pmm_ok_def)
  have "k * 4096 mod 16 = 0" "of_nat k * PAGE_SIZE + VIRT_PHYS_MAP_BASE \<noteq> 0"
    using u(1) by (auto simp: unat_VIRT_PHYS_MAP_BASE)
  then have "heap_ok h"
    using assms(2) init u k
    by (auto simp: heap_ok_def HEAP_TOP_def unat_VIRT_PHYS_MAP_BASE MAX_PAGES_def mod_add_eq [symmetric])
  moreover have "pmm_ok p'"
    using assms init takes_ok [OF q] by auto
  ultimately show ?thesis
    by simp
qed

text \<open>
  Beyond the limit the sums wrap: a request of the last fifteen sizes rounds up to 0 bytes and
  succeeds, and a large one moves the pointer backwards.
\<close>

lemma align16_wraps:
  assumes "2 ^ 64 - 15 \<le> unat n"
  shows "align16 n = 0"
proof -
  have "unat (n + 15) = (unat n + 15) mod 2 ^ 64"
    by (simp add: unat_word_ariths)
  also have "\<dots> = unat n + 15 - 2 ^ 64"
    using assms unat_lt_2p64 [of n] by (simp add: le_mod_geq)
  finally have "unat (n + 15) < 16"
    using unat_lt_2p64 [of n] by simp
  then have "unat (align16 n) = 0"
    using unat_round_down [of 4 "n + 15"] by (simp add: align16_def)
  then show ?thesis
    by (simp add: unat_0_iff)
qed

lemma kmalloc_wraps:
  "2 ^ 64 - 15 \<le> unat n \<Longrightarrow> heap_ptr h \<le> heap_end h \<Longrightarrow> kmalloc n h = (heap_ptr h, h)"
  by (simp add: kmalloc_def align16_wraps Let_def not_less [symmetric])

subsection \<open>What the heap promises\<close>

lemma heap_blocks_inside:
  assumes "heap_ok h" and "\<forall>r \<in> set rs. heap_valid r" and "malloc_all heap_call heap_bytes rs h = (ps, h')"
  shows "\<forall>(q, n) \<in> set ps. q \<noteq> 0 \<longrightarrow> unat (heap_ptr h) \<le> unat q \<and> unat q + unat n \<le> unat (heap_end h)
    \<and> unat q mod 16 = 0"
  using assms
proof (induction rs arbitrary: h ps)
  case (Cons r rs)
  obtain p h1 where call: "heap_call r h = (p, h1)"
    by fastforce
  obtain qs where rest: "malloc_all heap_call heap_bytes rs h1 = (qs, h')" and ps: "ps = (p, heap_bytes r) # qs"
    using Cons.prems(3) call by (auto split: prod.splits)
  have f: "heap_ok h1" "unat (heap_ptr h) \<le> unat (heap_ptr h1)" "heap_end h1 = heap_end h"
    "p \<noteq> 0 \<longrightarrow> unat (heap_ptr h) \<le> unat p \<and> unat p + unat (heap_bytes r) \<le> unat (heap_ptr h1) \<and>
      unat (heap_ptr h1) \<le> unat (heap_end h) \<and> unat p mod 16 = 0"
    using heap_call_facts [OF Cons.prems(1) _ call] Cons.prems(2) by auto
  have "\<forall>r \<in> set rs. heap_valid r"
    using Cons.prems(2) by simp
  note IH = Cons.IH [OF f(1) this rest]
  show ?case
    using IH f(2-4) unfolding ps by fastforce
qed simp

text \<open>\<open>kmalloc_init\<close> takes the lowest run of 4096 free pages and makes it the heap, through the
  window at \<open>VIRT_PHYS_MAP_BASE\<close>, 16 MB from the first to the last byte; without such a run it
  changes nothing. The heap it sets up is well-formed.\<close>

theorem kmalloc_init_outcome:
  assumes "pmm_ok p"
  shows "kmalloc_init (p, heap_static) = Inr (p, heap_static) \<or>
    (\<exists>k p' h. kmalloc_init (p, heap_static) = Inr (p', h) \<and> first_run p 4096 k
      \<and> free_set p' = free_set p - {k..<k + 4096} \<and> heap_ok h
      \<and> unat (heap_ptr h) = unat VIRT_PHYS_MAP_BASE + k * 4096
      \<and> unat (heap_end h) = unat (heap_ptr h) + 16777216)"
proof (rule kmalloc_init_cases [OF assms, of heap_static])
  fix k p'
  let ?h = "\<lparr>heap_ptr = of_nat k * PAGE_SIZE + VIRT_PHYS_MAP_BASE,
        heap_end = of_nat k * PAGE_SIZE + VIRT_PHYS_MAP_BASE + HEAP_INITIAL_SIZE\<rparr>"
  assume init: "kmalloc_init (p, heap_static) = Inr (p', ?h)"
    and t: "takes {k..<k + 4096} p p'" and f: "first_run p 4096 k"
    and u: "unat (of_nat k * PAGE_SIZE + VIRT_PHYS_MAP_BASE) = unat VIRT_PHYS_MAP_BASE + k * 4096"
      "unat (of_nat k * PAGE_SIZE + VIRT_PHYS_MAP_BASE + HEAP_INITIAL_SIZE) =
        unat VIRT_PHYS_MAP_BASE + k * 4096 + 16777216"
  have "heap_ok ?h"
    using kmalloc_init_ok [OF assms init] by simp
  moreover have "unat (heap_ptr ?h) = unat VIRT_PHYS_MAP_BASE + k * 4096"
    "unat (heap_end ?h) = unat (heap_ptr ?h) + 16777216"
    using u by simp_all
  ultimately show ?thesis
    using init t f unfolding takes_def by blast
qed simp

text \<open>A manager with 4608 pages, all free: room for the heap and nothing else.\<close>

definition pmm_large :: pmm where
  "pmm_large = \<lparr>phys_bitmap = (\<lambda>_. 0xFF), phys_total_pages = 4608, phys_free_pages = 4608\<rparr>"

lemma pmm_large_ok: "pmm_ok pmm_large"
  by (simp add: pmm_ok_def pmm_large_def MAX_PAGES_def)

lemma pmm_large_free: "i < MAX_PAGES \<Longrightarrow> i \<in> free_set pmm_large"
  using bit_all_free by (simp add: free_set_def page_free_def pmm_large_def)

lemma pmm_large_run: "first_run pmm_large 4096 512"
proof -
  have "run_at pmm_large 4096 512"
    using pmm_large_free by (auto simp: run_at_def MAX_PAGES_def) (simp add: pmm_large_def)
  moreover have "\<not> run_at pmm_large 4096 k" if "k < 512" for k
    using that by (simp add: run_at_def)
  ultimately show ?thesis
    by (simp add: first_run_def)
qed

theorem kmalloc_init_outcome_witness:
  "\<exists>p' h. kmalloc_init (pmm_large, heap_static) = Inr (p', h) \<and> heap_ok h
    \<and> free_set p' = free_set pmm_large - {512..<4608}
    \<and> unat (heap_end h) = unat VIRT_PHYS_MAP_BASE + 2097152 + 16777216"
proof -
  have n: "kmalloc_init (pmm_large, heap_static) \<noteq> Inr (pmm_large, heap_static)"
    using pmm_alloc_contiguous_first [OF pmm_large_ok, of 4096 512] pmm_large_run page_addr_neq_0 [of 512]
    by (auto simp: kmalloc_init_def HEAP_INITIAL_SIZE_def PAGE_SIZE_def MAX_PAGES_def heap_static_def
        VIRT_PHYS_MAP_BASE_def)
  obtain k p' h where "kmalloc_init (pmm_large, heap_static) = Inr (p', h)" "first_run pmm_large 4096 k"
      "free_set p' = free_set pmm_large - {k..<k + 4096}" "heap_ok h"
      "unat (heap_ptr h) = unat VIRT_PHYS_MAP_BASE + k * 4096"
      "unat (heap_end h) = unat (heap_ptr h) + 16777216"
    using kmalloc_init_outcome [OF pmm_large_ok] n by blast
  moreover from this have "k = 512"
    using first_run_unique pmm_large_run by blast
  ultimately show ?thesis
    by auto
qed

text \<open>Below 2\<open>^\<close>46 bytes \<open>kmalloc\<close> hands out the next bytes of the heap, rounded up to sixteen,
  exactly if they fit before its end, and otherwise returns \<open>NULL\<close> and changes nothing.\<close>

theorem kmalloc_outcome:
  assumes "heap_ok h" and "unat n \<le> KMALLOC_LIMIT"
  shows "if unat (heap_ptr h) + (unat n + 15) div 16 * 16 \<le> unat (heap_end h)
    then \<exists>h'. kmalloc n h = (heap_ptr h, h') \<and> heap_ok h' \<and> heap_end h' = heap_end h
      \<and> unat (heap_ptr h') = unat (heap_ptr h) + (unat n + 15) div 16 * 16
    else kmalloc n h = (0, h)"
proof -
  have eq: "unat (align16 n) = (unat n + 15) div 16 * 16"
    using assms(2) by (intro unat_align16) (simp add: KMALLOC_LIMIT_def)
  from assms show ?thesis
  proof (cases rule: kmalloc_cases)
    case full
    then show ?thesis by (simp add: eq)
  next
    case block
    then show ?thesis
      using kmalloc_ok [OF assms block(2)] unat_bump [OF assms] by (simp add: eq)
  qed
qed

definition heap_sample :: heap where
  "heap_sample = \<lparr>heap_ptr = 0x1000, heap_end = 0x2000\<rparr>"

lemma heap_sample_ok: "heap_ok heap_sample"
  by (simp add: heap_ok_def heap_sample_def HEAP_TOP_def)

theorem kmalloc_outcome_witness:
  "(\<exists>h'. kmalloc 100 heap_sample = (0x1000, h') \<and> unat (heap_ptr h') = 4208) \<and>
   kmalloc 5000 heap_sample = (0, heap_sample)"
  using kmalloc_outcome [OF heap_sample_ok, of 100] kmalloc_outcome [OF heap_sample_ok, of 5000]
  by (auto simp: KMALLOC_LIMIT_def heap_sample_def)

text \<open>C3: Whatever plain and aligned requests the kernel makes of the heap \<open>kmalloc_init\<close> set up, each
  of at most 2\<open>^\<close>46 bytes and aligned to a power of two up to 2\<open>^\<close>46, the blocks it gets do not
  overlap, lie inside the 16 MB of the heap and start at multiples of sixteen.\<close>

theorem heap_blocks_apart:
  assumes "pmm_ok p" and "kmalloc_init (p, heap_static) = Inr (p', h)"
    and "\<forall>r \<in> set rs. heap_valid r" and "malloc_all heap_call heap_bytes rs h = (ps, h')"
  shows "blocks_apart ps \<and> (\<forall>(q, n) \<in> set ps. q \<noteq> 0 \<longrightarrow>
    block q n \<subseteq> {unat (heap_ptr h)..<unat (heap_end h)} \<and> unat q mod 16 = 0)"
proof -
  have ok: "heap_ok h"
    using kmalloc_init_ok [OF assms(1,2)] by simp
  have "\<forall>(q, n) \<in> set ps. q \<noteq> 0 \<longrightarrow> block q n \<subseteq> {unat (heap_ptr h)..<unat (heap_end h)} \<and> unat q mod 16 = 0"
    using heap_blocks_inside [OF ok assms(3,4)] by (auto simp: block_def)
  with kheap_requests.malloc_all_blocks [OF ok assms(3,4)] show ?thesis
    by blast
qed

theorem heap_blocks_apart_witness:
  "\<exists>p' h ps h'. kmalloc_init (pmm_large, heap_static) = Inr (p', h) \<and>
     malloc_all heap_call heap_bytes [Plain 100, Aligned 64 (2 ^ 12), Plain 1] h = (ps, h') \<and> blocks_apart ps"
proof -
  obtain p' h where init: "kmalloc_init (pmm_large, heap_static) = Inr (p', h)"
    using kmalloc_init_outcome [OF pmm_large_ok] by blast
  obtain ps h' where calls: "malloc_all heap_call heap_bytes [Plain 100, Aligned 64 (2 ^ 12), Plain 1] h = (ps, h')"
    by fastforce
  have "heap_valid (Aligned 64 (2 ^ 12))"
    unfolding heap_valid.simps set_map set_upt by (intro conjI imageI) (simp_all add: KMALLOC_LIMIT_def)
  then have "\<forall>r \<in> set [Plain 100, Aligned 64 (2 ^ 12), Plain 1]. heap_valid r"
    by (simp add: KMALLOC_LIMIT_def)
  with heap_blocks_apart [OF pmm_large_ok init _ calls] init calls show ?thesis
    by blast
qed

text \<open>An aligned request answers with a multiple of the alignment, less than one alignment past the
  heap pointer, or with \<open>NULL\<close>; it advances the pointer to the alignment even when it then fails.\<close>

theorem kmalloc_aligned_outcome:
  assumes "heap_ok h" and "unat sz \<le> KMALLOC_LIMIT" and "k \<le> 46"
    and "kmalloc_aligned sz (2 ^ k) h = (p, h')"
  shows "heap_ok h' \<and> (if p = 0 then h' = h\<lparr>heap_ptr := align_up (heap_ptr h) (2 ^ k)\<rparr>
    else unat p mod 2 ^ k = 0 \<and> unat (heap_ptr h) \<le> unat p \<and> unat p < unat (heap_ptr h) + 2 ^ k
      \<and> unat p + unat sz \<le> unat (heap_ptr h'))"
proof -
  let ?h = "h\<lparr>heap_ptr := align_up (heap_ptr h) (2 ^ k)\<rparr>"
  note al = align_up_facts [OF assms(1,3)]
  have call: "kmalloc sz ?h = (p, h')"
    using assms(4) by (simp add: kmalloc_aligned_def)
  have "h' = ?h" if "p = 0"
    using al(4) assms(2)
  proof (cases rule: kmalloc_cases)
    case block
    then have "heap_ptr ?h = 0" "heap_end ?h = 0"
      using call that al(4) by (auto simp: heap_ok_def)
    then have "align16 sz = 0"
      using block(1) by (simp add: unat_eq_0)
    with block(2) call show ?thesis
      by simp
  qed (use call in simp)
  then show ?thesis
    using kmalloc_ok [OF al(4) assms(2) call] kmalloc_block [OF al(4) assms(2) call]
      kmalloc_aligned_result [OF assms] al(1) by auto
qed

theorem kmalloc_aligned_outcome_witness:
  "\<exists>p h'. kmalloc_aligned 64 256 heap_sample = (p, h') \<and> p \<noteq> 0 \<and> unat p mod 256 = 0"
proof -
  obtain p h' where c: "kmalloc_aligned 64 (2 ^ 8) heap_sample = (p, h')"
    by fastforce
  then have "p \<noteq> 0"
    by (auto simp: kmalloc_aligned_def kmalloc_def align_up_def align16_def heap_sample_def Let_def split: if_splits)
  then show ?thesis
    using kmalloc_aligned_outcome [OF heap_sample_ok _ _ c] c by (simp add: KMALLOC_LIMIT_def)
qed

text \<open>The rounding and the sum of \<open>kmalloc\<close> are not checked: a request for one of the fifteen
  largest sizes succeeds without taking a byte, and the next request gets the same address.\<close>

theorem kmalloc_huge_succeeds:
  assumes "2 ^ 64 - 15 \<le> unat n" and "heap_ptr h \<le> heap_end h"
  shows "kmalloc n h = (heap_ptr h, h)"
  using assms by (rule kmalloc_wraps)

theorem kmalloc_huge_succeeds_witness:
  "kmalloc 0xFFFFFFFFFFFFFFFF heap_sample = (0x1000, heap_sample)"
  using kmalloc_huge_succeeds [of "0xFFFFFFFFFFFFFFFF" heap_sample] by (simp add: heap_sample_def)

end
