(* ===== verification/Ports.thy ===== *)
theory Ports
  imports Prelude
begin

section \<open>Port input and output\<close>

text \<open>
  \<^verbatim>\<open>kernel/include/io.h\<close>. The devices behind the ports are not part of the program, so a
  machine's ports are a parameter, the record \<open>bus\<close>: how a read answers and how a read or a
  write changes the devices. What a component relies on of a device is stated as a named
  hypothesis on the bus where it is needed.
\<close>

record 'd bus =
  in8 :: "u16 \<Rightarrow> 'd \<Rightarrow> u8 \<times> 'd"
  out8 :: "u16 \<Rightarrow> u8 \<Rightarrow> 'd \<Rightarrow> 'd"
  in32 :: "u16 \<Rightarrow> 'd \<Rightarrow> u32 \<times> 'd"
  out32 :: "u16 \<Rightarrow> u32 \<Rightarrow> 'd \<Rightarrow> 'd"

definition outb :: "'d bus \<Rightarrow> u16 \<Rightarrow> u8 \<Rightarrow> 'd \<Rightarrow> 'd" where "outb b port val d = out8 b port val d"

definition inb :: "'d bus \<Rightarrow> u16 \<Rightarrow> 'd \<Rightarrow> u8 \<times> 'd" where "inb b port d = in8 b port d"

definition outl :: "'d bus \<Rightarrow> u16 \<Rightarrow> u32 \<Rightarrow> 'd \<Rightarrow> 'd" where "outl b port val d = out32 b port val d"

definition inl :: "'d bus \<Rightarrow> u16 \<Rightarrow> 'd \<Rightarrow> u32 \<times> 'd" where "inl b port d = in32 b port d"

definition io_wait :: "'d bus \<Rightarrow> 'd \<Rightarrow> 'd" where "io_wait b d = outb b 0x80 0 d"

subsection \<open>Sequences of writes\<close>

definition outs :: "'d bus \<Rightarrow> (u16 \<times> u8) list \<Rightarrow> 'd \<Rightarrow> 'd" where
  "outs b ws d = fold (\<lambda>(port, val). outb b port val) ws d"

lemma outs_Nil [simp]: "outs b [] d = d"
  by (simp add: outs_def)

lemma outs_Cons [simp]: "outs b ((port, val) # ws) d = outs b ws (outb b port val d)"
  by (simp add: outs_def)

lemma outs_append: "outs b (ws @ vs) d = outs b vs (outs b ws d)"
  by (simp add: outs_def)

text \<open>A bus that only records what is written and answers every read with 0.\<close>

datatype port_write = W8 u16 u8 | W32 u16 u32

definition trace_bus :: "port_write list bus" where
  "trace_bus = \<lparr>in8 = (\<lambda>port d. (0, d)), out8 = (\<lambda>port v d. d @ [W8 port v]),
     in32 = (\<lambda>port d. (0, d)), out32 = (\<lambda>port v d. d @ [W32 port v])\<rparr>"

end
