(* ===== verification/Idt.thy ===== *)
theory Idt
  imports Ports
begin

section \<open>The interrupt descriptor table and the interrupt controllers\<close>

text \<open>
  \<^verbatim>\<open>kernel/arch/x86_64/idt.c\<close>: the 256 gates, the table of registered handlers, the 8259A
  controllers and the dispatch of an interrupt. The addresses of the assembly stubs and of the
  table are parameters, as is what a handler does (\<open>call\<close>).
\<close>

subsection \<open>Gates\<close>

record IdtEntry =
  offset_low :: u16
  selector :: u16
  ist :: u8
  type_attr :: u8
  offset_mid :: u16
  offset_high :: u32
  reserved :: u32

definition IDT_ENTRIES :: nat where "IDT_ENTRIES = 256"
definition IDT_PRESENT :: u8 where "IDT_PRESENT = push_bit 7 1"
definition IDT_RING0 :: u8 where "IDT_RING0 = push_bit 5 0"
definition IDT_INT_GATE :: u8 where "IDT_INT_GATE = 0x0E"
definition IDT_TRAP_GATE :: u8 where "IDT_TRAP_GATE = 0x0F"

definition zero_entry :: IdtEntry where
  "zero_entry = \<lparr>offset_low = 0, selector = 0, ist = 0, type_attr = 0, offset_mid = 0,
     offset_high = 0, reserved = 0\<rparr>"

definition make_entry :: "u64 \<Rightarrow> u8 \<Rightarrow> u8 \<Rightarrow> IdtEntry" where
  "make_entry handler attr ist_index =
     \<lparr>offset_low = ucast (handler AND 0xFFFF), selector = 0x08, ist = ist_index,
      type_attr = IDT_PRESENT OR IDT_RING0 OR attr,
      offset_mid = ucast (drop_bit 16 handler AND 0xFFFF),
      offset_high = ucast (drop_bit 32 handler AND 0xFFFFFFFF), reserved = 0\<rparr>"

subsection \<open>State\<close>

text \<open>The value of the register IDTR.\<close>

record IdtDescriptor =
  idt_limit :: u16
  idt_base :: u64

record ('h, 'c, 'd) irq =
  idt :: "nat \<Rightarrow> IdtEntry"
  user_handlers :: "u8 \<Rightarrow> 'h option"
  user_handler_ctx :: "u8 \<Rightarrow> 'c option"
  idtr :: "IdtDescriptor option"
  interrupts_on :: bool
  dev :: 'd

definition irq_static :: "'d \<Rightarrow> ('h, 'c, 'd) irq" where
  "irq_static d = \<lparr>idt = (\<lambda>_. zero_entry), user_handlers = (\<lambda>_. None),
     user_handler_ctx = (\<lambda>_. None), idtr = None, interrupts_on = False, dev = d\<rparr>"

definition idt_set_entry :: "nat \<Rightarrow> u64 \<Rightarrow> u8 \<Rightarrow> u8 \<Rightarrow> ('h, 'c, 'd) irq \<Rightarrow> ('h, 'c, 'd) irq" where
  "idt_set_entry vec handler attr ist_index s =
     s\<lparr>idt := (idt s)(vec := make_entry handler attr ist_index)\<rparr>"

subsection \<open>The 8259A pair\<close>

definition PIC1_CMD :: u16 where "PIC1_CMD = 0x20"
definition PIC1_DATA :: u16 where "PIC1_DATA = 0x21"
definition PIC2_CMD :: u16 where "PIC2_CMD = 0xA0"
definition PIC2_DATA :: u16 where "PIC2_DATA = 0xA1"
definition PIC_EOI :: u8 where "PIC_EOI = 0x20"
definition IRQ_BASE :: u8 where "IRQ_BASE = 0x20"

lemmas pic_consts [layout_simps] =
  PIC1_CMD_def PIC1_DATA_def PIC2_CMD_def PIC2_DATA_def PIC_EOI_def IRQ_BASE_def

definition pic_remap :: "'d bus \<Rightarrow> 'd \<Rightarrow> 'd" where
  "pic_remap b d =
     (let (mask1, d) = inb b PIC1_DATA d;
          (mask2, d) = inb b PIC2_DATA d;
          d = outb b PIC1_CMD 0x11 d;
          d = outb b PIC2_CMD 0x11 d;
          d = io_wait b d;
          d = outb b PIC1_DATA IRQ_BASE d;
          d = outb b PIC2_DATA (IRQ_BASE + 8) d;
          d = io_wait b d;
          d = outb b PIC1_DATA 0x04 d;
          d = outb b PIC2_DATA 0x02 d;
          d = io_wait b d;
          d = outb b PIC1_DATA 0x01 d;
          d = outb b PIC2_DATA 0x01 d;
          d = io_wait b d;
          d = outb b PIC1_DATA mask1 d
      in outb b PIC2_DATA mask2 d)"

definition pic_send_eoi :: "'d bus \<Rightarrow> u8 \<Rightarrow> 'd \<Rightarrow> 'd" where
  "pic_send_eoi b irq d =
     outb b PIC1_CMD PIC_EOI (if 8 \<le> irq then outb b PIC2_CMD PIC_EOI d else d)"

definition pic_mask :: "'d bus \<Rightarrow> u8 \<Rightarrow> 'd \<Rightarrow> 'd" where
  "pic_mask b irq d =
     (let port = (if irq < 8 then PIC1_DATA else PIC2_DATA);
          line = (if 8 \<le> irq then irq - 8 else irq);
          (v, d) = inb b port d
      in outb b port (v OR push_bit (unat line) 1) d)"

definition pic_unmask :: "'d bus \<Rightarrow> u8 \<Rightarrow> 'd \<Rightarrow> 'd" where
  "pic_unmask b irq d =
     (let port = (if irq < 8 then PIC1_DATA else PIC2_DATA);
          line = (if 8 \<le> irq then irq - 8 else irq);
          (v, d) = inb b port d
      in outb b port (v AND NOT (push_bit (unat line) 1)) d)"

subsection \<open>Dispatch and registration\<close>

definition hardware_irq :: "u8 \<Rightarrow> bool" where
  "hardware_irq vec \<longleftrightarrow> IRQ_BASE \<le> vec \<and> vec < IRQ_BASE + 16"

type_synonym ('h, 'c, 'd, 'k) handler_call =
  "'h \<Rightarrow> u8 \<Rightarrow> 'c option \<Rightarrow> ('h, 'c, 'd) irq \<times> 'k \<Rightarrow> ('h, 'c, 'd) irq \<times> 'k"

definition idt_dispatch ::
  "'d bus \<Rightarrow> ('h, 'c, 'd, 'k) handler_call \<Rightarrow> u8 \<Rightarrow> u64 \<Rightarrow>
     ('h, 'c, 'd) irq \<times> 'k \<Rightarrow> ('h, 'c, 'd) irq \<times> 'k" where
  "idt_dispatch b call vec error_code s =
     (let s' = (case user_handlers (fst s) vec of
                  None \<Rightarrow> s
                | Some h \<Rightarrow> call h vec (user_handler_ctx (fst s) vec) s)
      in if hardware_irq vec
         then ((fst s')\<lparr>dev := pic_send_eoi b (vec - IRQ_BASE) (dev (fst s'))\<rparr>, snd s')
         else s')"

definition idt_register_handler ::
  "'d bus \<Rightarrow> u8 \<Rightarrow> 'h option \<Rightarrow> 'c option \<Rightarrow> ('h, 'c, 'd) irq \<Rightarrow> ('h, 'c, 'd) irq" where
  "idt_register_handler b vec handler ctx s =
     (let s' = s\<lparr>user_handlers := (user_handlers s)(vec := handler),
                 user_handler_ctx := (user_handler_ctx s)(vec := ctx)\<rparr>
      in if hardware_irq vec then s'\<lparr>dev := pic_unmask b (vec - IRQ_BASE) (dev s')\<rparr> else s')"

definition idt_unregister_handler :: "'d bus \<Rightarrow> u8 \<Rightarrow> ('h, 'c, 'd) irq \<Rightarrow> ('h, 'c, 'd) irq" where
  "idt_unregister_handler b vec s =
     (let s' = s\<lparr>user_handlers := (user_handlers s)(vec := None),
                 user_handler_ctx := (user_handler_ctx s)(vec := None)\<rparr>
      in if hardware_irq vec then s'\<lparr>dev := pic_mask b (vec - IRQ_BASE) (dev s')\<rparr> else s')"

text \<open>
  \<open>isr\<close> and \<open>irq_stub\<close> give the addresses of the assembly stubs, \<open>idt_addr\<close> that of the table.
\<close>

definition idt_init ::
  "'d bus \<Rightarrow> (nat \<Rightarrow> u64) \<Rightarrow> (nat \<Rightarrow> u64) \<Rightarrow> u64 \<Rightarrow> ('h, 'c, 'd) irq \<Rightarrow> ('h, 'c, 'd) irq" where
  "idt_init b isr irq_stub idt_addr s =
     (let s = idt_set_entry 0 (isr 0) IDT_INT_GATE 0 s;
          s = idt_set_entry 1 (isr 1) IDT_INT_GATE 0 s;
          s = idt_set_entry 2 (isr 2) IDT_INT_GATE 0 s;
          s = idt_set_entry 3 (isr 3) IDT_TRAP_GATE 0 s;
          s = idt_set_entry 4 (isr 4) IDT_INT_GATE 0 s;
          s = idt_set_entry 5 (isr 5) IDT_INT_GATE 0 s;
          s = idt_set_entry 6 (isr 6) IDT_INT_GATE 0 s;
          s = idt_set_entry 7 (isr 7) IDT_INT_GATE 0 s;
          s = idt_set_entry 8 (isr 8) IDT_INT_GATE 1 s;
          s = idt_set_entry 13 (isr 13) IDT_INT_GATE 0 s;
          s = idt_set_entry 14 (isr 14) IDT_INT_GATE 0 s;
          s = idt_set_entry 0x20 (irq_stub 0) IDT_INT_GATE 0 s;
          s = idt_set_entry 0x21 (irq_stub 1) IDT_INT_GATE 0 s;
          s = idt_set_entry 0x22 (irq_stub 2) IDT_INT_GATE 0 s;
          s = idt_set_entry 0x23 (irq_stub 3) IDT_INT_GATE 0 s;
          s = idt_set_entry 0x24 (irq_stub 4) IDT_INT_GATE 0 s;
          s = idt_set_entry 0x28 (irq_stub 8) IDT_INT_GATE 0 s;
          s = idt_set_entry 0x29 (irq_stub 9) IDT_INT_GATE 0 s;
          s = idt_set_entry 0x2B (irq_stub 11) IDT_INT_GATE 0 s;
          s = idt_set_entry 0x2C (irq_stub 12) IDT_INT_GATE 0 s;
          s = idt_set_entry 0x2E (irq_stub 14) IDT_INT_GATE 0 s;
          s = idt_set_entry 0x2F (irq_stub 15) IDT_INT_GATE 0 s;
          s = s\<lparr>dev := pic_remap b (dev s)\<rparr>;
          s = s\<lparr>dev := outb b PIC1_DATA 0xFF (dev s)\<rparr>;
          s = s\<lparr>dev := outb b PIC2_DATA 0xFF (dev s)\<rparr>
      in s\<lparr>idtr := Some \<lparr>idt_limit = of_nat (IDT_ENTRIES * 16 - 1), idt_base = idt_addr\<rparr>, interrupts_on := True\<rparr>)"

subsection \<open>What the gates hold\<close>

definition gate_offset :: "IdtEntry \<Rightarrow> u64" where
  "gate_offset e = ucast (offset_low e) OR push_bit 16 (ucast (offset_mid e))
     OR push_bit 32 (ucast (offset_high e))"

definition gate_present :: "IdtEntry \<Rightarrow> bool" where
  "gate_present e \<longleftrightarrow> bit (type_attr e) 7"

lemma bit_field16:
  "bit (ucast (ucast (drop_bit k h AND 0xFFFF) :: u16) :: u64) n \<longleftrightarrow> n < 16 \<and> bit (h :: u64) (k + n)"
proof -
  have mask: "(0xFFFF :: u64) = mask 16"
    by (simp add: mask_eq_exp_minus_1)
  show ?thesis
    unfolding mask by (auto simp: bit_ucast_iff bit_and_iff bit_drop_bit_eq bit_mask_iff)
qed

lemma bit_field32:
  "bit (ucast (ucast (drop_bit k h AND 0xFFFFFFFF) :: u32) :: u64) n \<longleftrightarrow> n < 32 \<and> bit (h :: u64) (k + n)"
proof -
  have mask: "(0xFFFFFFFF :: u64) = mask 32"
    by (simp add: mask_eq_exp_minus_1)
  show ?thesis
    unfolding mask by (auto simp: bit_ucast_iff bit_and_iff bit_drop_bit_eq bit_mask_iff)
qed

lemma gate_offset_make_entry: "gate_offset (make_entry handler attr i) = handler"
proof -
  have "bit (gate_offset (make_entry handler attr i)) n = bit handler n" for n
    using bit_field16 [of 0 handler n] bit_lt_64 [of handler n]
    by (cases "n < 16"; cases "n < 32")
      (auto simp: gate_offset_def make_entry_def bit_or_iff bit_push_bit_iff bit_field16 bit_field32)
  then show ?thesis
    by (simp add: word_bit_eq_iff)
qed

lemma gate_present_make_entry [simp]: "gate_present (make_entry handler attr i)"
  by (simp add: gate_present_def make_entry_def IDT_PRESENT_def bit_simps)

lemma not_gate_present_zero [simp]: "\<not> gate_present zero_entry"
  by (simp add: gate_present_def zero_entry_def)

text \<open>The vectors \<open>idt_init\<close> gives a gate, and the gate of each.\<close>

definition isr_vectors :: "nat list" where
  "isr_vectors = [0, 1, 2, 3, 4, 5, 6, 7, 8, 13, 14]"

definition irq_lines :: "nat list" where
  "irq_lines = [0, 1, 2, 3, 4, 8, 9, 11, 12, 14, 15]"

definition installed_gate :: "(nat \<Rightarrow> u64) \<Rightarrow> (nat \<Rightarrow> u64) \<Rightarrow> nat \<Rightarrow> IdtEntry" where
  "installed_gate isr irq_stub vec =
     (if vec \<in> set isr_vectors
      then make_entry (isr vec) (if vec = 3 then IDT_TRAP_GATE else IDT_INT_GATE) (if vec = 8 then 1 else 0)
      else if vec \<in> set (map ((+) 32) irq_lines) then make_entry (irq_stub (vec - 32)) IDT_INT_GATE 0
      else zero_entry)"

lemma idt_init_fields [simp]:
  "user_handlers (idt_init b isr irq_stub a s) = user_handlers s"
  "user_handler_ctx (idt_init b isr irq_stub a s) = user_handler_ctx s"
  "idtr (idt_init b isr irq_stub a s) = Some \<lparr>idt_limit = 4095, idt_base = a\<rparr>"
  "interrupts_on (idt_init b isr irq_stub a s)"
  "dev (idt_init b isr irq_stub a s) = outs b [(PIC1_DATA, 0xFF), (PIC2_DATA, 0xFF)] (pic_remap b (dev s))"
  by (simp_all add: idt_init_def idt_set_entry_def IDT_ENTRIES_def Let_def)

lemma idt_init_gates: "idt (idt_init b isr irq_stub a (irq_static d)) = installed_gate isr irq_stub"
  by (rule ext)
    (simp add: idt_init_def idt_set_entry_def irq_static_def installed_gate_def isr_vectors_def
      irq_lines_def Let_def)

lemma idt_init_present:
  "gate_present (idt (idt_init b isr irq_stub a (irq_static d)) vec) \<longleftrightarrow>
    vec \<in> set isr_vectors \<or> vec \<in> set (map ((+) 32) irq_lines)"
  by (simp add: idt_init_gates installed_gate_def)

subsection \<open>The mask registers\<close>

text \<open>
  What the code relies on of the two 8259A controllers: the initialisation sequence leaves them
  ready from any state; when they are ready a write to a data port sets the mask register and a
  read returns it, and an end-of-interrupt command leaves the masks alone.
\<close>

definition pic_icw :: "(u16 \<times> u8) list" where
  "pic_icw = [(PIC1_CMD, 0x11), (PIC2_CMD, 0x11), (0x80, 0), (PIC1_DATA, 0x20), (PIC2_DATA, 0x28),
     (0x80, 0), (PIC1_DATA, 0x04), (PIC2_DATA, 0x02), (0x80, 0), (PIC1_DATA, 0x01),
     (PIC2_DATA, 0x01), (0x80, 0)]"

definition pic_bus :: "'d bus \<Rightarrow> ('d \<Rightarrow> bool) \<Rightarrow> ('d \<Rightarrow> u16 \<Rightarrow> u8) \<Rightarrow> bool" where
  "pic_bus b ready imr \<longleftrightarrow>
     (\<forall>d. ready (outs b pic_icw d)) \<and>
     (\<forall>d port v. ready d \<and> (port = PIC1_DATA \<or> port = PIC2_DATA) \<longrightarrow>
        inb b port d = (imr d port, d) \<and> ready (outb b port v d) \<and>
        imr (outb b port v d) = (imr d)(port := v)) \<and>
     (\<forall>d port. ready d \<and> (port = PIC1_CMD \<or> port = PIC2_CMD) \<longrightarrow>
        ready (outb b port PIC_EOI d) \<and> imr (outb b port PIC_EOI d) = imr d)"

definition pic_port :: "u8 \<Rightarrow> u16" where
  "pic_port irq = (if irq < 8 then PIC1_DATA else PIC2_DATA)"

definition pic_line :: "u8 \<Rightarrow> nat" where
  "pic_line irq = (if irq < 8 then unat irq else unat irq - 8)"

definition line_masked :: "(u16 \<Rightarrow> u8) \<Rightarrow> u8 \<Rightarrow> bool" where
  "line_masked m irq \<longleftrightarrow> bit (m (pic_port irq)) (pic_line irq)"

text \<open>
  A line of the second controller reaches the processor only through line 2 of the first.
\<close>

definition deliverable :: "(u16 \<Rightarrow> u8) \<Rightarrow> u8 \<Rightarrow> bool" where
  "deliverable m irq \<longleftrightarrow> \<not> line_masked m irq \<and> (irq < 8 \<or> \<not> line_masked m 2)"

lemma pic_ports_neq [simp]: "PIC1_DATA \<noteq> PIC2_DATA" "PIC2_DATA \<noteq> PIC1_DATA"
  by (simp_all add: pic_consts)

lemma pic_line_lt: "irq < 16 \<Longrightarrow> pic_line irq < 8"
  by (auto simp: pic_line_def word_less_nat_alt)

lemma pic_line_eq: "unat (if 8 \<le> irq then irq - 8 else irq) = pic_line irq"
proof (cases "8 \<le> irq")
  case True
  then have "unat (irq - 8) = unat irq - unat (8 :: u8)"
    by (rule unat_sub)
  with True show ?thesis
    by (simp add: pic_line_def not_less [symmetric])
next
  case False
  then have "irq < 8"
    by simp
  with False show ?thesis
    by (simp only: pic_line_def if_False if_True)
qed

lemma pic_line_cases:
  assumes "irq < 16" and "j < 16" and "pic_port irq = pic_port j" and "pic_line irq = pic_line j"
  shows "irq = j"
proof -
  have "irq < 8 \<longleftrightarrow> j < 8"
    using assms(3) by (simp add: pic_port_def split: if_splits)
  then have "unat irq = unat j"
    using assms by (auto simp: pic_line_def word_less_nat_alt split: if_splits)
  then show ?thesis
    by (rule unsigned_word_eqI)
qed

lemma pic_remap_ready:
  assumes "pic_bus b ready imr"
  shows "ready (pic_remap b d)"
proof -
  obtain m1 d1 where a: "inb b PIC1_DATA d = (m1, d1)" by fastforce
  obtain m2 d2 where c: "inb b PIC2_DATA d1 = (m2, d2)" by fastforce
  have "pic_remap b d = outs b [(PIC1_DATA, m1), (PIC2_DATA, m2)] (outs b pic_icw d2)"
    using a c by (simp add: pic_remap_def pic_icw_def io_wait_def IRQ_BASE_def Let_def)
  then show ?thesis
    using assms by (simp add: pic_bus_def)
qed

lemma pic_busD:
  assumes "pic_bus b ready imr" and "ready d"
  shows "inb b (pic_port irq) d = (imr d (pic_port irq), d)"
    and "ready (outb b (pic_port irq) v d)"
    and "imr (outb b (pic_port irq) v d) = (imr d)(pic_port irq := v)"
proof -
  have "pic_port irq = PIC1_DATA \<or> pic_port irq = PIC2_DATA"
    by (simp add: pic_port_def)
  moreover have "\<forall>d port v. ready d \<and> (port = PIC1_DATA \<or> port = PIC2_DATA) \<longrightarrow>
        inb b port d = (imr d port, d) \<and> ready (outb b port v d) \<and>
        imr (outb b port v d) = (imr d)(port := v)"
    using assms(1) unfolding pic_bus_def by blast
  ultimately show "inb b (pic_port irq) d = (imr d (pic_port irq), d)"
    and "ready (outb b (pic_port irq) v d)"
    and "imr (outb b (pic_port irq) v d) = (imr d)(pic_port irq := v)"
    using assms(2) by blast+
qed

lemma line_masked_update:
  assumes "irq < 16" and "j < 16"
  shows "line_masked (m(pic_port irq := m (pic_port irq) OR push_bit (pic_line irq) 1)) j \<longleftrightarrow>
      j = irq \<or> line_masked m j"
    and "line_masked (m(pic_port irq := m (pic_port irq) AND NOT (push_bit (pic_line irq) 1))) j \<longleftrightarrow>
      j \<noteq> irq \<and> line_masked m j"
proof -
  have one: "bit (push_bit (pic_line irq) 1 :: u8) (pic_line j) \<longleftrightarrow> pic_line j = pic_line irq"
    using pic_line_lt [OF assms(1)] by (auto simp: bit_exp_iff)
  have lt: "pic_line j < LENGTH(8)"
    using pic_line_lt [OF assms(2)] by simp
  have same: "j = irq \<longleftrightarrow> pic_port j = pic_port irq \<and> pic_line j = pic_line irq"
    using pic_line_cases [OF assms] by auto
  show "line_masked (m(pic_port irq := m (pic_port irq) OR push_bit (pic_line irq) 1)) j \<longleftrightarrow>
      j = irq \<or> line_masked m j"
    unfolding line_masked_def fun_upd_apply same
    by (cases "pic_port j = pic_port irq") (auto simp only: simp_thms if_True if_False bit_or_iff one)
  show "line_masked (m(pic_port irq := m (pic_port irq) AND NOT (push_bit (pic_line irq) 1))) j \<longleftrightarrow>
      j \<noteq> irq \<and> line_masked m j"
    unfolding line_masked_def fun_upd_apply same
    by (cases "pic_port j = pic_port irq")
      (auto simp only: simp_thms if_True if_False bit_and_iff bit_not_iff one possible_bit_word lt)
qed

lemma pic_mask_imr:
  assumes "pic_bus b ready imr" and "ready d" and "irq < 16"
  shows "ready (pic_mask b irq d)"
    and "j < 16 \<Longrightarrow> line_masked (imr (pic_mask b irq d)) j \<longleftrightarrow> j = irq \<or> line_masked (imr d) j"
proof -
  note bus = pic_busD [OF assms(1,2)]
  have eq: "pic_mask b irq d =
      outb b (pic_port irq) (imr d (pic_port irq) OR push_bit (pic_line irq) 1) d"
    unfolding pic_mask_def pic_line_eq Let_def pic_port_def [symmetric] bus by simp
  show "ready (pic_mask b irq d)"
    unfolding eq by (rule bus)
  show "line_masked (imr (pic_mask b irq d)) j \<longleftrightarrow> j = irq \<or> line_masked (imr d) j" if "j < 16"
    unfolding eq bus by (rule line_masked_update(1) [OF assms(3) that])
qed

lemma pic_unmask_imr:
  assumes "pic_bus b ready imr" and "ready d" and "irq < 16"
  shows "ready (pic_unmask b irq d)"
    and "j < 16 \<Longrightarrow> line_masked (imr (pic_unmask b irq d)) j \<longleftrightarrow> j \<noteq> irq \<and> line_masked (imr d) j"
proof -
  note bus = pic_busD [OF assms(1,2)]
  have eq: "pic_unmask b irq d =
      outb b (pic_port irq) (imr d (pic_port irq) AND NOT (push_bit (pic_line irq) 1)) d"
    unfolding pic_unmask_def pic_line_eq Let_def pic_port_def [symmetric] bus by simp
  show "ready (pic_unmask b irq d)"
    unfolding eq by (rule bus)
  show "line_masked (imr (pic_unmask b irq d)) j \<longleftrightarrow> j \<noteq> irq \<and> line_masked (imr d) j" if "j < 16"
    unfolding eq bus by (rule line_masked_update(2) [OF assms(3) that])
qed

subsection \<open>Masks and handlers stay in step\<close>

datatype ('h, 'c) irq_op = Register u8 'h "'c option" | Unregister u8

fun irq_step :: "'d bus \<Rightarrow> ('h, 'c) irq_op \<Rightarrow> ('h, 'c, 'd) irq \<Rightarrow> ('h, 'c, 'd) irq" where
  "irq_step b (Register vec h ctx) s = idt_register_handler b vec (Some h) ctx s"
| "irq_step b (Unregister vec) s = idt_unregister_handler b vec s"

text \<open>A hardware line is open exactly if a handler is registered for its vector.\<close>

definition irq_sync :: "('d \<Rightarrow> bool) \<Rightarrow> ('d \<Rightarrow> u16 \<Rightarrow> u8) \<Rightarrow> ('h, 'c, 'd) irq \<Rightarrow> bool" where
  "irq_sync ready imr s \<longleftrightarrow> ready (dev s) \<and>
     (\<forall>irq < 16. line_masked (imr (dev s)) irq \<longleftrightarrow> user_handlers s (irq + IRQ_BASE) = None)"

lemma hardware_irq_line:
  assumes "hardware_irq vec"
  shows "vec - IRQ_BASE < 16"
proof -
  have "unat (vec - IRQ_BASE) = unat vec - unat IRQ_BASE"
    using assms by (intro unat_sub) (simp add: hardware_irq_def)
  moreover have "unat vec < unat (IRQ_BASE + 16)"
    using assms unfolding hardware_irq_def word_less_nat_alt by simp
  ultimately show ?thesis
    by (simp add: word_less_nat_alt IRQ_BASE_def)
qed

lemma line_vector:
  assumes "irq < 16"
  shows "hardware_irq (irq + IRQ_BASE)"
proof -
  have "unat (irq + IRQ_BASE) = unat irq + 32"
    using assms unfolding IRQ_BASE_def word_less_nat_alt by (simp add: unat_word_ariths)
  then show ?thesis
    using assms by (simp add: hardware_irq_def word_less_nat_alt word_le_nat_alt IRQ_BASE_def)
qed

lemma line_vector_neq: "irq < 16 \<Longrightarrow> \<not> hardware_irq vec \<Longrightarrow> irq + IRQ_BASE \<noteq> vec"
  using line_vector by auto

lemma idt_init_masked:
  assumes "pic_bus b ready imr" and "irq < 16"
  shows "ready (dev (idt_init b isr irq_stub a s))"
    and "line_masked (imr (dev (idt_init b isr irq_stub a s))) irq"
proof -
  let ?d = "pic_remap b (dev s)"
  have port: "pic_port 0 = PIC1_DATA" "pic_port 8 = PIC2_DATA"
    by (simp_all add: pic_port_def)
  let ?d1 = "outb b PIC1_DATA 0xFF ?d"
  have ready: "ready ?d"
    by (rule pic_remap_ready [OF assms(1)])
  have first: "ready ?d1" "imr ?d1 = (imr ?d)(PIC1_DATA := 0xFF)"
    using pic_busD(2,3) [OF assms(1) ready, of 0] by (simp_all add: port)
  have second: "ready (outb b PIC2_DATA 0xFF ?d1)"
      "imr (outb b PIC2_DATA 0xFF ?d1) = (imr ?d1)(PIC2_DATA := 0xFF)"
    using pic_busD(2,3) [OF assms(1) first(1), of 8] by (simp_all add: port)
  show "ready (dev (idt_init b isr irq_stub a s))"
    using second by simp
  have "imr (dev (idt_init b isr irq_stub a s)) (pic_port irq) = 0xFF"
    using first(2) second(2) by (simp add: pic_port_def)
  moreover have "bit (0xFF :: u8) k" if "k < 8" for k
    using that bit_mask_iff [of 8 k, where ?'a = u8] by (simp add: mask_eq_exp_minus_1)
  ultimately show "line_masked (imr (dev (idt_init b isr irq_stub a s))) irq"
    using pic_line_lt [OF assms(2)] by (simp add: line_masked_def)
qed

lemma irq_sync_init:
  assumes "pic_bus b ready imr"
  shows "irq_sync ready imr (idt_init b isr irq_stub a (irq_static d))"
proof -
  have "ready (dev (idt_init b isr irq_stub a (irq_static d)))"
    using idt_init_masked(1) [OF assms, where irq = 0] by simp
  moreover have "user_handlers (idt_init b isr irq_stub a (irq_static d)) vec = None" for vec
    by (simp add: irq_static_def)
  ultimately show ?thesis
    using idt_init_masked(2) [OF assms] unfolding irq_sync_def by blast
qed

lemma irq_sync_step:
  assumes bus: "pic_bus b ready imr" and sync: "irq_sync ready imr s"
  shows "irq_sync ready imr (irq_step b op s)"
proof -
  have ready: "ready (dev s)"
    and lines: "\<And>irq. irq < 16 \<Longrightarrow> line_masked (imr (dev s)) irq \<longleftrightarrow> user_handlers s (irq + IRQ_BASE) = None"
    using sync by (auto simp: irq_sync_def)
  show ?thesis
  proof (cases op)
    case (Register vec h ctx)
    show ?thesis
    proof (cases "hardware_irq vec")
      case True
      note mask = pic_unmask_imr [OF bus ready hardware_irq_line [OF True]]
      have "irq = vec - IRQ_BASE \<longleftrightarrow> irq + IRQ_BASE = vec" for irq
        by auto
      then show ?thesis
        using mask lines Register True by (auto simp: irq_sync_def idt_register_handler_def Let_def)
    next
      case False
      then show ?thesis
        using ready lines Register line_vector_neq
        by (auto simp: irq_sync_def idt_register_handler_def Let_def)
    qed
  next
    case (Unregister vec)
    show ?thesis
    proof (cases "hardware_irq vec")
      case True
      note mask = pic_mask_imr [OF bus ready hardware_irq_line [OF True]]
      have "irq = vec - IRQ_BASE \<longleftrightarrow> irq + IRQ_BASE = vec" for irq
        by auto
      then show ?thesis
        using mask lines Unregister True by (auto simp: irq_sync_def idt_unregister_handler_def Let_def)
    next
      case False
      then show ?thesis
        using ready lines Unregister line_vector_neq
        by (auto simp: irq_sync_def idt_unregister_handler_def Let_def)
    qed
  qed
qed

definition irq_run :: "'d bus \<Rightarrow> ('h, 'c) irq_op list \<Rightarrow> ('h, 'c, 'd) irq \<Rightarrow> ('h, 'c, 'd) irq" where
  "irq_run b ops s = fold (irq_step b) ops s"

lemma irq_sync_run:
  "pic_bus b ready imr \<Longrightarrow> irq_sync ready imr s \<Longrightarrow> irq_sync ready imr (irq_run b ops s)"
  unfolding irq_run_def by (induction ops arbitrary: s) (auto intro: irq_sync_step)

lemma irq_run_handlers:
  assumes "\<forall>h ctx. Register vec h ctx \<notin> set ops" and "user_handlers s vec = None"
  shows "user_handlers (irq_run b ops s) vec = None"
  using assms unfolding irq_run_def
proof (induction ops arbitrary: s)
  case (Cons op ops)
  then have "user_handlers (irq_step b op s) vec = None"
    by (cases op) (fastforce simp: idt_register_handler_def idt_unregister_handler_def Let_def)+
  with Cons show ?case
    by simp
qed simp

subsection \<open>A pair of controllers that meets the contract\<close>

record pic8259 =
  imr1 :: u8
  imr2 :: u8
  stage1 :: nat
  stage2 :: nat

fun pic_next :: "nat \<Rightarrow> nat" where
  "pic_next n = (if n = 0 \<or> n = 3 then 0 else n + 1)"

definition pic_write :: "u16 \<Rightarrow> u8 \<Rightarrow> pic8259 \<Rightarrow> pic8259" where
  "pic_write port v d =
     (if port = PIC1_CMD then (if bit v 4 then d\<lparr>stage1 := 1\<rparr> else d)
      else if port = PIC2_CMD then (if bit v 4 then d\<lparr>stage2 := 1\<rparr> else d)
      else if port = PIC1_DATA then
        (if stage1 d = 0 then d\<lparr>imr1 := v\<rparr> else d\<lparr>stage1 := pic_next (stage1 d)\<rparr>)
      else if port = PIC2_DATA then
        (if stage2 d = 0 then d\<lparr>imr2 := v\<rparr> else d\<lparr>stage2 := pic_next (stage2 d)\<rparr>)
      else d)"

definition pic_imr :: "pic8259 \<Rightarrow> u16 \<Rightarrow> u8" where
  "pic_imr d port = (if port = PIC1_DATA then imr1 d else if port = PIC2_DATA then imr2 d else 0)"

definition pic_ready :: "pic8259 \<Rightarrow> bool" where
  "pic_ready d \<longleftrightarrow> stage1 d = 0 \<and> stage2 d = 0"

definition pic8259_bus :: "pic8259 bus" where
  "pic8259_bus = \<lparr>in8 = (\<lambda>port d. (pic_imr d port, d)), out8 = pic_write,
     in32 = (\<lambda>port d. (0, d)), out32 = (\<lambda>port v d. d)\<rparr>"

lemma pic8259_bus_ok: "pic_bus pic8259_bus pic_ready pic_imr"
proof -
  have icw: "pic_ready (outs pic8259_bus pic_icw d)" for d
    by (simp add: pic_icw_def pic8259_bus_def outb_def pic_write_def pic_ready_def pic_consts)
  have data: "inb pic8259_bus port d = (pic_imr d port, d) \<and> pic_ready (outb pic8259_bus port v d) \<and>
      pic_imr (outb pic8259_bus port v d) = (pic_imr d)(port := v)"
    if "pic_ready d" "port = PIC1_DATA \<or> port = PIC2_DATA" for d port v
    using that by (auto simp: pic8259_bus_def inb_def outb_def pic_write_def pic_ready_def pic_imr_def
        pic_consts fun_eq_iff)
  have eoi: "pic_ready (outb pic8259_bus port PIC_EOI d) \<and>
      pic_imr (outb pic8259_bus port PIC_EOI d) = pic_imr d"
    if "pic_ready d" "port = PIC1_CMD \<or> port = PIC2_CMD" for d port
    using that by (auto simp: pic8259_bus_def outb_def pic_write_def pic_consts)
  show ?thesis
    unfolding pic_bus_def using icw data eoi by blast
qed

subsection \<open>Properties\<close>

text \<open>The three offset fields a gate splits a handler's address into give the address back.\<close>

theorem idt_gate_roundtrip:
  "gate_offset (idt (idt_set_entry vec handler attr i s) vec) = handler"
  by (simp add: idt_set_entry_def gate_offset_make_entry)

text \<open>After \<open>idt_init\<close> on the zeroed table exactly the vectors 0 to 8, 13, 14 and the interrupt
  lines 0 to 4, 8, 9, 11, 12, 14, 15 have a present gate, each for its own stub, the breakpoint as
  a trap gate and the double fault on interrupt stack 1. Every other vector has no gate at
  all, so it does not reach the generic handler.\<close>

theorem idt_init_gate_table:
  "idt (idt_init b isr irq_stub a (irq_static d)) vec = installed_gate isr irq_stub vec \<and>
   (gate_present (idt (idt_init b isr irq_stub a (irq_static d)) vec) \<longleftrightarrow>
      vec \<in> set isr_vectors \<or> vec \<in> set (map ((+) 32) irq_lines))"
  by (rule conjI, simp only: idt_init_gates, rule idt_init_present)

text \<open>C35: Whatever handlers are registered and removed after \<open>idt_init\<close>, and in whatever order, a
  line of the 8259A pair is open exactly while a handler is registered for its vector.\<close>

theorem irq_lines_match_handlers:
  assumes "pic_bus b ready imr" and "irq < 16"
    and "s = irq_run b ops (idt_init b isr irq_stub a (irq_static d))"
  shows "line_masked (imr (dev s)) irq \<longleftrightarrow> user_handlers s (irq + IRQ_BASE) = None"
  using irq_sync_run [OF assms(1) irq_sync_init [OF assms(1)]] assms(2)
  unfolding assms(3) irq_sync_def by blast

theorem irq_lines_match_handlers_witness:
  "line_masked (pic_imr (dev (irq_run pic8259_bus [Register 0x21 () None]
      (idt_init pic8259_bus (\<lambda>_. 0) (\<lambda>_. 0) 0 (irq_static \<lparr>imr1 = 0, imr2 = 0, stage1 = 0, stage2 = 0\<rparr>)
        :: (unit, unit, pic8259) irq)))) 1 \<longleftrightarrow>
    user_handlers (irq_run pic8259_bus [Register 0x21 () None]
      (idt_init pic8259_bus (\<lambda>_. 0) (\<lambda>_. 0) 0 (irq_static \<lparr>imr1 = 0, imr2 = 0, stage1 = 0, stage2 = 0\<rparr>)
        :: (unit, unit, pic8259) irq)) (1 + IRQ_BASE) = None"
  by (rule irq_lines_match_handlers [OF pic8259_bus_ok _ refl]) simp

text \<open>As long as no handler is registered for the cascade vector 0x22, none of the lines 8 to 15 is ever
  delivered, although a handler for it may be registered.\<close>

theorem secondary_irqs_not_delivered:
  assumes "pic_bus b ready imr" and "8 \<le> irq" and "irq < 16"
    and "\<forall>h ctx. Register (2 + IRQ_BASE) h ctx \<notin> set ops"
    and "s = irq_run b ops (idt_init b isr irq_stub a (irq_static d))"
  shows "\<not> deliverable (imr (dev s)) irq"
proof -
  have "user_handlers s (2 + IRQ_BASE) = None"
    unfolding assms(5) by (rule irq_run_handlers [OF assms(4)]) (simp add: irq_static_def)
  moreover have "irq_sync ready imr s"
    unfolding assms(5) by (rule irq_sync_run [OF assms(1) irq_sync_init [OF assms(1)]])
  ultimately show ?thesis
    using assms(2) by (simp add: deliverable_def irq_sync_def not_less)
qed

theorem secondary_irqs_not_delivered_witness:
  "\<not> deliverable (pic_imr (dev (irq_run pic8259_bus [Register 0x2B () None]
      (idt_init pic8259_bus (\<lambda>_. 0) (\<lambda>_. 0) 0 (irq_static \<lparr>imr1 = 0, imr2 = 0, stage1 = 0, stage2 = 0\<rparr>)
        :: (unit, unit, pic8259) irq)))) 11"
  by (rule secondary_irqs_not_delivered [OF pic8259_bus_ok _ _ _ refl]) (simp_all add: IRQ_BASE_def)

text \<open>An interrupt runs the handler registered for its vector with its context, if there is
  one, and then a vector of the hardware range is acknowledged to the second controller if its
  line is on it and always to the first, in this order; no other vector is acknowledged.\<close>

theorem idt_dispatch_effect:
  "idt_dispatch b call vec error_code s =
    (let s' = (case user_handlers (fst s) vec of
                 None \<Rightarrow> s | Some h \<Rightarrow> call h vec (user_handler_ctx (fst s) vec) s);
         acks = (if hardware_irq vec
                 then (if 0x28 \<le> vec then [(PIC2_CMD, PIC_EOI)] else []) @ [(PIC1_CMD, PIC_EOI)]
                 else [])
     in ((fst s')\<lparr>dev := outs b acks (dev (fst s'))\<rparr>, snd s'))"
proof -
  have "8 \<le> vec - IRQ_BASE \<longleftrightarrow> 0x28 \<le> vec" if "hardware_irq vec"
  proof -
    have "unat (vec - IRQ_BASE) = unat vec - unat IRQ_BASE"
      using that by (intro unat_sub) (simp add: hardware_irq_def)
    then show ?thesis
      using that by (simp add: word_le_nat_alt IRQ_BASE_def hardware_irq_def le_diff_conv2)
  qed
  then show ?thesis
    by (auto simp: idt_dispatch_def pic_send_eoi_def Let_def split: option.splits)
qed

end
