(* ===== verification/MemoryMgr.thy ===== *)
theory MemoryMgr
  imports KernelHeap Idt
begin

section \<open>The memory subsystem: swap, status and start-up\<close>

text \<open>
  The rest of \<^verbatim>\<open>kernel/memory/memory.c\<close> (lines 288 to 379 and 422 to 446), the page-fault
  handler of the swap manager, the status record and \<open>memory_init\<close>, and the system call that
  reads the status (\<^verbatim>\<open>kernel/syscall/syscall.c\<close>).
\<close>

subsection \<open>State\<close>

definition SWAP_MAX_GB :: u64 where "SWAP_MAX_GB = 64"
definition SWAP_MAX_PAGES :: u64 where
  "SWAP_MAX_PAGES = SWAP_MAX_GB * 1024 * 1024 * 1024 div PAGE_SIZE"
definition PTE_SWAPPED :: u64 where "PTE_SWAPPED = push_bit 9 1"
definition PTE_SWAP_IDX :: u64 where "PTE_SWAP_IDX = 0xFFFFFFFFF000"

record swap =
  swap_active :: bool
  swap_capacity :: u64
  swap_used :: u64

definition swap_static :: swap where
  "swap_static = \<lparr>swap_active = False, swap_capacity = 0, swap_used = 0\<rparr>"

text \<open>The one handler the kernel registers.\<close>

datatype kernel_handler = SwapPageFault

record ('c, 'd) kmem =
  vm :: "pmm vmm"
  sw :: swap
  kheap :: heap
  irqs :: "(kernel_handler, 'c, 'd) irq"

subsection \<open>The page-fault handler\<close>

text \<open>
  How a page fault ends. \<open>NoPte\<close> and \<open>NoFrame\<close> halt the processor until the next interrupt.
  A page swapped in carries the index of its slot in the swap file and the frame it got.
\<close>

datatype fault_outcome = NoPte | NoFrame u64 | SwappedIn u64 u64 | Unexpected u64

definition swap_page_fault_handler ::
  "('p \<Rightarrow> (u64 \<times> 'p) checked) \<Rightarrow> u64 \<Rightarrow> 'p vmm \<times> swap \<Rightarrow> (fault_outcome \<times> 'p vmm \<times> swap) checked"
where
  "swap_page_fault_handler alloc fault_addr = (\<lambda>(s, w).
     rbind (vmm_get_pte alloc (kernel_pml4 s) fault_addr 1 False s) (\<lambda>(pte, s).
       case pte of
         None \<Rightarrow> Inr (NoPte, s, w)
       | Some ptr \<Rightarrow>
           if cells s ptr AND PTE_SWAPPED \<noteq> 0 then
             let swap_idx = drop_bit 12 (cells s ptr AND PTE_SWAP_IDX) in
             rbind (alloc (frames s)) (\<lambda>(frame, p).
               let s = s\<lparr>frames := p\<rparr> in
               if frame = 0 then Inr (NoFrame swap_idx, s, w)
               else
                 let s = write_cell ptr (frame OR PTE_PRESENT OR PTE_WRITABLE) s;
                     s = vmm_invlpg (fault_addr AND NOT 0xFFF) s
                 in Inr (SwappedIn swap_idx frame, s, w\<lparr>swap_used := swap_used w - 1\<rparr>))
           else Inr (Unexpected (cells s ptr), s, w)))"

definition swap_init :: "'d bus \<Rightarrow> ('c, 'd) kmem \<Rightarrow> ('c, 'd) kmem" where
  "swap_init b s =
     s\<lparr>irqs := idt_register_handler b 14 (Some SwapPageFault) None (irqs s),
       sw := (sw s)\<lparr>swap_capacity := SWAP_MAX_PAGES, swap_active := True\<rparr>\<rparr>"

subsection \<open>Status\<close>

record MemoryStatus =
  total_physical :: u64
  free_physical :: u64
  used_physical :: u64
  swap_total_bytes :: u64
  swap_used_bytes :: u64
  pressure_level :: int

definition memory_get_status :: "pmm \<Rightarrow> swap \<Rightarrow> MemoryStatus" where
  "memory_get_status p w =
     (let total = phys_total_pages p * PAGE_SIZE;
          free = phys_free_pages p * PAGE_SIZE
      in \<lparr>total_physical = total, free_physical = free, used_physical = total - free,
          swap_total_bytes = swap_capacity w * PAGE_SIZE, swap_used_bytes = swap_used w * PAGE_SIZE,
          pressure_level = (if free < 256 * 1024 * 1024 then 2
                            else if free < 512 * 1024 * 1024 then 1 else 0)\<rparr>)"

definition SYS_MEM_STATUS :: u64 where "SYS_MEM_STATUS = 0x01"

definition syscall_handle :: "u64 \<Rightarrow> u64 \<Rightarrow> u64 \<Rightarrow> u64 \<Rightarrow> pmm \<Rightarrow> swap \<Rightarrow> u64" where
  "syscall_handle num a b c p w =
     (if num = SYS_MEM_STATUS then free_physical (memory_get_status p w) else -1)"

subsection \<open>Start-up\<close>

definition memory_init ::
  "'d bus \<Rightarrow> byte_mem \<Rightarrow> u64 \<Rightarrow> u64 \<Rightarrow> u64 \<Rightarrow> ('c, 'd) kmem \<Rightarrow> ('c, 'd) kmem checked" where
  "memory_init b mem mmap_addr mmap_size desc_size s =
     rbind (pmm_init mem mmap_addr mmap_size desc_size (frames (vm s))) (\<lambda>p.
     rbind (vmm_init pmm_alloc ((vm s)\<lparr>frames := p\<rparr>)) (\<lambda>v.
     rbind (kmalloc_init (frames v, kheap s)) (\<lambda>(p, h).
       Inr (swap_init b (s\<lparr>vm := v\<lparr>frames := p\<rparr>, kheap := h\<rparr>)))))"

definition kmem_static :: "(u64 \<Rightarrow> u64) \<Rightarrow> u64 \<Rightarrow> ('c, 'd) kmem \<Rightarrow> bool" where
  "kmem_static c boot_cr3 s \<longleftrightarrow>
     vm s = \<lparr>frames = pmm_static, cells = c, invlpgs = [], kernel_pml4 = 0, cr3 = boot_cr3\<rparr> \<and>
     sw s = swap_static \<and> kheap s = heap_static"

subsection \<open>What a page fault does\<close>

definition swapped :: "u64 \<Rightarrow> bool" where
  "swapped e \<longleftrightarrow> bit e 9"

definition swap_slot :: "u64 \<Rightarrow> u64" where
  "swap_slot e = drop_bit 12 (e AND PTE_SWAP_IDX)"

lemma swapped_iff: "e AND PTE_SWAPPED \<noteq> 0 \<longleftrightarrow> swapped e"
  using flag_test [of 9 e] by (simp add: swapped_def PTE_SWAPPED_def)

lemma bit_swap_slot: "bit (swap_slot e) n \<longleftrightarrow> n < 36 \<and> bit e (12 + n)"
proof -
  have idx: "PTE_SWAP_IDX = push_bit 12 (mask 36)"
    by (simp add: PTE_SWAP_IDX_def mask_eq_exp_minus_1)
  show ?thesis
    unfolding swap_slot_def idx bit_drop_bit_eq bit_and_iff bit_push_bit_iff bit_mask_iff
    by (auto dest: bit_lt_64)
qed

text \<open>The entry a page gets when it is swapped in.\<close>

definition swap_in_pte :: "u64 \<Rightarrow> u64" where
  "swap_in_pte frame = frame OR PTE_PRESENT OR PTE_WRITABLE"

context frame_allocator
begin

lemma swap_page_fault_cases:
  assumes inv: "vm_inv ok free_frames R s" and R: "kernel_pml4 s = R"
  obtains (no_pte) "leaf_ptr (cells s) R v = None"
      "swap_page_fault_handler alloc v (s, w) = Inr (NoPte, s, w)"
  | (unexpected) "leaf_ptr (cells s) R v \<noteq> None" "\<not> swapped (pt_view (cells s) R v)"
      "swap_page_fault_handler alloc v (s, w) = Inr (Unexpected (pt_view (cells s) R v), s, w)"
  | (no_frame) "swapped (pt_view (cells s) R v)" "free_frames (frames s) = {}"
      "swap_page_fault_handler alloc v (s, w) = Inr (NoFrame (swap_slot (pt_view (cells s) R v)), s, w)"
  | (swapped_in) frame s' where "swapped (pt_view (cells s) R v)" "frame \<noteq> 0"
      "frame \<in> free_frames (frames s)" "free_frames (frames s') = free_frames (frames s) - {frame}"
      "swap_page_fault_handler alloc v (s, w) = Inr (SwappedIn (swap_slot (pt_view (cells s) R v)) frame,
         s', w\<lparr>swap_used := swap_used w - 1\<rparr>)"
      "vm_inv ok free_frames R s'"
      "pt_view (cells s') R = (\<lambda>x. if same_page x v then swap_in_pte frame else pt_view (cells s) R x)"
      "invlpgs s' = (v AND NOT 0xFFF) # invlpgs s" "kernel_pml4 s' = R" "cr3 s' = cr3 s"
      "tables (cells s') R = tables (cells s) R"
proof (cases "leaf_ptr (cells s) R v")
  case None
  then show thesis
    by (intro no_pte) (simp_all add: swap_page_fault_handler_def R vmm_get_pte_lookup [unfolded One_nat_def])
next
  case ptr: (Some ptr)
  note view = leaf_ptr_view [OF ptr]
  show thesis
  proof (cases "swapped (pt_view (cells s) R v)")
    case False
    then show thesis
      using ptr by (intro unexpected)
        (simp_all add: swap_page_fault_handler_def R vmm_get_pte_lookup [unfolded One_nat_def] view swapped_iff [simplified])
  next
    case True
    have ok: "ok (frames s)"
      using inv by (simp add: vm_inv_def)
    obtain frame p where a: "alloc (frames s) = Inr (frame, p)"
      using alloc_total [OF ok] by blast
    have swap: "cells s ptr AND PTE_SWAPPED \<noteq> 0"
      unfolding swapped_iff view by (rule True)
    show thesis
    proof (cases "frame = 0")
      case z: True
      then have "p = frames s" "free_frames (frames s) = {}"
        using alloc_failed [OF ok] a by simp_all
      then show thesis
        using True ptr a z swap by (intro no_frame)
          (simp_all add: swap_page_fault_handler_def R vmm_get_pte_lookup [unfolded One_nat_def] view swap_slot_def)
    next
      case nz: False
      note f = alloc_frame [OF ok a nz]
      let ?s1 = "s\<lparr>frames := p\<rparr>"
      have "vm_inv ok free_frames R ?s1"
        using inv f alloc_ok [OF ok a] pt_ok_subset [of "free_frames (frames s)" "cells s" R "free_frames p"]
        by (auto simp: vm_inv_def)
      note w = leaf_write [OF this, of v ptr "swap_in_pte frame"]
      show thesis
        using True ptr a nz swap f w R
        by (intro swapped_in [of frame
              "vmm_invlpg (v AND NOT 0xFFF) (write_cell ptr (swap_in_pte frame) ?s1)"])
          (auto simp: swap_page_fault_handler_def vmm_get_pte_lookup [unfolded One_nat_def] view swap_slot_def swap_in_pte_def
            vmm_invlpg_def write_cell_def vm_inv_def)
    qed
  qed
qed

end

subsection \<open>What the subsystem promises\<close>

lemma swapped_present: "swapped e \<Longrightarrow> e \<noteq> 0"
  by (auto simp: swapped_def)

lemma swapped_leaf: "swapped (pt_view c R v) \<Longrightarrow> leaf_ptr c R v \<noteq> None"
  using leaf_ptr_None swapped_present by blast

text \<open>C21: A page fault ends in one of four ways: no table, and the kernel halts; an entry that is not
  marked as swapped, and nothing changes; no frame left, and it halts; or the page gets a frame the
  allocator had free, present and writable, and the faulting page only, the flush is of its first
  address, and the count of swapped pages goes down by one.\<close>

theorem page_fault_outcome:
  assumes "vm_inv pmm_ok pmm_free_frames R s" and "kernel_pml4 s = R"
  shows "if leaf_ptr (cells s) R v = None
      then swap_page_fault_handler pmm_alloc v (s, w) = Inr (NoPte, s, w)
    else if \<not> swapped (pt_view (cells s) R v)
      then swap_page_fault_handler pmm_alloc v (s, w) = Inr (Unexpected (pt_view (cells s) R v), s, w)
    else if pmm_free_frames (frames s) = {}
      then swap_page_fault_handler pmm_alloc v (s, w) = Inr (NoFrame (swap_slot (pt_view (cells s) R v)), s, w)
    else \<exists>frame s'. frame \<in> pmm_free_frames (frames s)
      \<and> pmm_free_frames (frames s') = pmm_free_frames (frames s) - {frame}
      \<and> swap_page_fault_handler pmm_alloc v (s, w) =
          Inr (SwappedIn (swap_slot (pt_view (cells s) R v)) frame, s', w\<lparr>swap_used := swap_used w - 1\<rparr>)
      \<and> vm_inv pmm_ok pmm_free_frames R s'
      \<and> pt_view (cells s') R = (\<lambda>x. if same_page x v then swap_in_pte frame else pt_view (cells s) R x)
      \<and> invlpgs s' = (v AND NOT 0xFFF) # invlpgs s"
  using assms
proof (cases rule: pmm_frames.swap_page_fault_cases [where v = v and w = w])
  case no_pte
  then show ?thesis by simp
next
  case unexpected
  then show ?thesis by simp
next
  case no_frame
  moreover from no_frame(1) have "leaf_ptr (cells s) R v \<noteq> None"
    by (rule swapped_leaf)
  ultimately show ?thesis by simp
next
  case (swapped_in frame s')
  moreover from swapped_in(1) have "leaf_ptr (cells s) R v \<noteq> None"
    by (rule swapped_leaf)
  ultimately show ?thesis by auto
qed

text \<open>The sample tables with one page whose entry is marked as swapped out.\<close>

lemma sample_swapped: "swapped (pte_value 0x5000 PTE_SWAPPED)"
  by (simp add: swapped_def pte_value_def PTE_SWAPPED_def PTE_ADDR_MASK_def PTE_PRESENT_def)

lemma swapped_page_exists:
  "\<exists>s. vm_inv pmm_ok pmm_free_frames 0x200000 s \<and> kernel_pml4 s = 0x200000
    \<and> pt_view (cells s) 0x200000 0xB8000 = pte_value 0x5000 PTE_SWAPPED \<and> pmm_free_frames (frames s) \<noteq> {}"
  using vm_sample_inv
proof (cases rule: pmm_frames.vmm_map_spec [where v = "0xB8000" and phys = "0x5000" and flags = PTE_SWAPPED])
  case (mapped s)
  moreover have "pmm_free_frames (frames s) \<noteq> {}"
    using mapped(7) by (auto simp: vm_sample_room)
  ultimately show ?thesis
    by (intro exI [of _ s]) (simp add: vm_sample_def)
qed (simp add: vm_sample_room)

theorem page_fault_outcome_witness:
  "\<exists>s frame s' w'. swap_page_fault_handler pmm_alloc 0xB8000 (s, swap_static) = Inr (SwappedIn 5 frame, s', w')
    \<and> pt_view (cells s') 0x200000 0xB8000 = swap_in_pte frame"
proof -
  obtain s where s: "vm_inv pmm_ok pmm_free_frames 0x200000 s" "kernel_pml4 s = 0x200000"
    "pt_view (cells s) 0x200000 0xB8000 = pte_value 0x5000 PTE_SWAPPED" "pmm_free_frames (frames s) \<noteq> {}"
    using swapped_page_exists by blast
  have e: "swapped (pte_value 0x5000 PTE_SWAPPED)" "swap_slot (pte_value 0x5000 PTE_SWAPPED) = 5"
    by (rule sample_swapped) (simp add: swap_slot_def pte_value_def PTE_SWAPPED_def PTE_ADDR_MASK_def
        PTE_PRESENT_def PTE_SWAP_IDX_def)
  then have out: "\<not> \<not> swapped (pte_value 0x5000 PTE_SWAPPED)"
    by simp
  have leaf: "leaf_ptr (cells s) 0x200000 0xB8000 \<noteq> None"
    using s(3) e(1) by (intro swapped_leaf) simp
  obtain frame s' where
    "swap_page_fault_handler pmm_alloc 0xB8000 (s, swap_static) =
      Inr (SwappedIn 5 frame, s', swap_static\<lparr>swap_used := swap_used swap_static - 1\<rparr>)"
    "pt_view (cells s') 0x200000 = (\<lambda>x. if same_page x 0xB8000 then swap_in_pte frame else pt_view (cells s) 0x200000 x)"
    using page_fault_outcome [OF s(1,2), of "0xB8000" swap_static]
    unfolding s(3) e(2) if_not_P [OF leaf] if_not_P [OF out] if_not_P [OF s(4)] by blast
  then show ?thesis
    by (intro exI conjI) (assumption, simp)
qed

text \<open>Nothing counts a page as swapped out, so the count starts at 0 and the first page swapped in
  makes it wrap: the status then reports almost 2\<open>^\<close>64 bytes of swap in use.\<close>

theorem first_swap_in_wraps:
  assumes "vm_inv pmm_ok pmm_free_frames R s" and "kernel_pml4 s = R" and "swap_used w = 0"
    and "swap_page_fault_handler pmm_alloc v (s, w) = Inr (SwappedIn idx frame, s', w')"
  shows "swap_used w' = -1 \<and> swap_used_bytes (memory_get_status p w') = 0xFFFFFFFFFFFFF000"
  using assms(1,2)
proof (cases rule: pmm_frames.swap_page_fault_cases [where v = v and w = w])
  case (swapped_in f t)
  then have "w' = w\<lparr>swap_used := swap_used w - 1\<rparr>"
    using assms(4) by simp
  then show ?thesis
    using assms(3) by (simp add: memory_get_status_def Let_def PAGE_SIZE_def)
qed (use assms(4) in simp_all)

theorem first_swap_in_wraps_witness:
  "\<exists>s r. swap_page_fault_handler pmm_alloc 0xB8000 (s, swap_static) = Inr r \<and> swap_used (snd (snd r)) = -1"
proof -
  obtain s where s: "vm_inv pmm_ok pmm_free_frames 0x200000 s" "kernel_pml4 s = 0x200000"
    "pt_view (cells s) 0x200000 0xB8000 = pte_value 0x5000 PTE_SWAPPED" "pmm_free_frames (frames s) \<noteq> {}"
    using swapped_page_exists by blast
  from s(1,2) show ?thesis
  proof (cases rule: pmm_frames.swap_page_fault_cases [where v = "0xB8000" and w = swap_static])
    case (swapped_in frame s')
    have "swap_used (swap_static\<lparr>swap_used := swap_used swap_static - 1\<rparr>) = -1"
      using first_swap_in_wraps [OF s(1,2) _ swapped_in(5)] by (simp add: swap_static_def)
    then show ?thesis
      using swapped_in(5) by (intro exI [of _ s] exI conjI) (assumption, simp)
  next
    case no_pte
    then show ?thesis
      using s(3) sample_swapped swapped_leaf by simp
  qed (use s(3,4) sample_swapped in simp_all)
qed

text \<open>On a machine whose memory map has fewer than 512 usable pages the counter of free pages has
  wrapped after set-up, and the status reports no memory pressure at all, whatever the swap.\<close>

theorem small_machine_no_pressure:
  assumes "dsz \<noteq> 0" and "mmap_count m a sz dsz < 512"
  shows "\<exists>s. pmm_init m a sz dsz pmm_static = Inr s \<and> pressure_level (memory_get_status s w) = 0"
proof -
  obtain s where s: "pmm_init m a sz dsz pmm_static = Inr s"
    "phys_free_pages s = of_nat (mmap_count m a sz dsz) - 512"
    using pmm_init_eq [OF assms(1), of m a sz pmm_static] by (auto simp: pmm_static_def)
  let ?n = "mmap_count m a sz dsz"
  let ?k = "(512 - ?n) * 4096"
  have k: "?k \<le> 2097152" "0 < ?k"
    using assms(2) by simp_all
  have "(of_nat (2 ^ 64 - ?k) :: u64) = of_nat (2 ^ 64) - of_nat ?k"
    using k by (intro of_nat_diff) simp
  also have "\<dots> = - of_nat ?k"
    by (simp add: word_of_nat_eq_0_iff del: of_nat_power of_nat_mult)
  also have "\<dots> = phys_free_pages s * PAGE_SIZE"
    using assms(2) unfolding s(2) by (simp add: PAGE_SIZE_def of_nat_diff algebra_simps)
  finally have "unat (phys_free_pages s * PAGE_SIZE) = 2 ^ 64 - ?k"
    using unat_of_nat_u64 [of "2 ^ 64 - ?k"] k by (simp only:) simp
  then have "2 ^ 64 - 2097152 \<le> unat (phys_free_pages s * PAGE_SIZE)"
    using k by simp
  then have "pressure_level (memory_get_status s w) = 0"
    by (simp add: memory_get_status_def Let_def word_less_nat_alt)
  with s(1) show ?thesis by blast
qed

theorem small_machine_no_pressure_witness:
  "\<exists>s. pmm_init efi_sample 0x1000 40 40 pmm_static = Inr s \<and> pressure_level (memory_get_status s swap_static) = 0"
  using small_machine_no_pressure [of 40 efi_sample "0x1000" 40 swap_static] by (simp add: efi_sample_pages)

lemma kmalloc_init_pages:
  assumes "pmm_ok p"
  obtains q h where "kmalloc_init (p, heap_static) = Inr (q, h)" "pmm_ok q" "heap_ok h"
    "pmm_free_frames q \<subseteq> pmm_free_frames p"
    "\<And>i. i < 4096 \<Longrightarrow> heap_ptr h \<noteq> 0 \<Longrightarrow>
      heap_ptr h + of_nat i * PAGE_SIZE - VIRT_PHYS_MAP_BASE \<in> pmm_free_frames p - pmm_free_frames q"
    "heap_end h = (if heap_ptr h = 0 then 0 else heap_ptr h + HEAP_INITIAL_SIZE)"
proof (rule kmalloc_init_cases [OF assms, of heap_static])
  assume "kmalloc_init (p, heap_static) = Inr (p, heap_static)"
  then show thesis
    by (rule that) (simp_all add: assms heap_static_def heap_ok_def)
next
  fix k q
  let ?h = "\<lparr>heap_ptr = of_nat k * PAGE_SIZE + VIRT_PHYS_MAP_BASE,
        heap_end = of_nat k * PAGE_SIZE + VIRT_PHYS_MAP_BASE + HEAP_INITIAL_SIZE\<rparr>"
  assume init: "kmalloc_init (p, heap_static) = Inr (q, ?h)"
    and t: "takes {k..<k + 4096} p q" and f: "first_run p 4096 k"
  have "usable_set q \<subseteq> usable_set p"
    using t by (auto simp: takes_def usable_set_def)
  then have sub: "pmm_free_frames q \<subseteq> pmm_free_frames p"
    by (auto simp: pmm_free_frames_def)
  have "4096 \<le> unat (phys_total_pages p) - k" "k + 4096 \<le> MAX_PAGES"
    using f assms by (auto simp: first_run_def run_at_def pmm_ok_def)
  then have less: "k + i < MAX_PAGES" if "i < 4096" for i
    using that by simp
  have pages: "heap_ptr ?h + of_nat i * PAGE_SIZE - VIRT_PHYS_MAP_BASE \<in> pmm_free_frames p - pmm_free_frames q"
    if "i < 4096" for i
  proof -
    have "k + i \<in> usable_set p" "k + i \<notin> usable_set q"
      using f t that by (auto simp: first_run_def run_at_def usable_set_def takes_def)
    moreover have "heap_ptr ?h + of_nat i * PAGE_SIZE - VIRT_PHYS_MAP_BASE = of_nat (k + i) * PAGE_SIZE"
      by (simp add: distrib_right)
    ultimately show ?thesis
      using page_in_frames [OF less [OF that]] by (simp only: Diff_iff simp_thms)
  qed
  have "heap_ptr ?h \<noteq> 0"
  proof
    assume "heap_ptr ?h = 0"
    then have "heap_ok ?h \<Longrightarrow> heap_end ?h = 0"
      by (simp add: heap_ok_def)
    with kmalloc_init_ok [OF assms init] \<open>heap_ptr ?h = 0\<close> show False
      by (simp add: HEAP_INITIAL_SIZE_def)
  qed
  then have "heap_end ?h = (if heap_ptr ?h = 0 then 0 else heap_ptr ?h + HEAP_INITIAL_SIZE)"
    by simp
  moreover have "pmm_ok q" "heap_ok ?h"
    using kmalloc_init_ok [OF assms init] by simp_all
  ultimately show thesis
    using that [OF init _ _ sub pages] by blast
qed

lemma memory_init_spec:
  fixes s :: "('c, 'd) kmem"
  assumes "kmem_static c boot_cr3 s" and "dsz \<noteq> 0" and "mmap_count m a sz dsz \<le> MAX_PAGES"
  shows "\<exists>s'. memory_init b m a sz dsz s = Inr s' \<and> pmm_ok (frames (vm s')) \<and> heap_ok (kheap s')
    \<and> (kernel_pml4 (vm s') \<noteq> 0 \<longrightarrow> vm_inv pmm_ok pmm_free_frames (kernel_pml4 (vm s')) (vm s')
        \<and> cr3 (vm s') = kernel_pml4 (vm s')
        \<and> (\<forall>q T i. valid_path q \<longrightarrow> tbl (cells (vm s')) (kernel_pml4 (vm s')) q = Some T \<longrightarrow>
             i < 4096 \<longrightarrow> heap_ptr (kheap s') \<noteq> 0 \<longrightarrow> phys_ptr T \<noteq> heap_ptr (kheap s') + of_nat i * PAGE_SIZE))
    \<and> user_handlers (irqs s') 14 = Some SwapPageFault
    \<and> sw s' = \<lparr>swap_active = True, swap_capacity = 0x1000000, swap_used = 0\<rparr>
    \<and> heap_end (kheap s') = (if heap_ptr (kheap s') = 0 then 0 else heap_ptr (kheap s') + HEAP_INITIAL_SIZE)
    \<and> (\<forall>i < 4096. heap_ptr (kheap s') \<noteq> 0 \<longrightarrow>
         heap_ptr (kheap s') + of_nat i * PAGE_SIZE - VIRT_PHYS_MAP_BASE \<notin> pmm_free_frames (frames (vm s')) \<and>
         frame_addr (heap_ptr (kheap s') + of_nat i * PAGE_SIZE - VIRT_PHYS_MAP_BASE))"
proof -
  obtain p where p: "pmm_init m a sz dsz pmm_static = Inr p" "phys_total_pages p = of_nat (mmap_count m a sz dsz)"
    using pmm_init_eq [OF assms(2), of m a sz pmm_static] by (auto simp: pmm_static_def)
  have p_ok: "pmm_ok p"
    using assms(3) unfolding pmm_ok_def p(2) by (subst unat_of_nat_u64) (simp_all add: MAX_PAGES_def)
  let ?v0 = "(vm s)\<lparr>frames := p\<rparr>"
  have v0: "pmm_ok (frames ?v0)"
    using p_ok by simp
  obtain v where v: "vmm_init pmm_alloc ?v0 = Inr v" "pmm_ok (frames v)"
    "kernel_pml4 v \<noteq> 0 \<Longrightarrow> vm_inv pmm_ok pmm_free_frames (kernel_pml4 v) v \<and> cr3 v = kernel_pml4 v"
    by (rule pmm_frames.vmm_init_spec [OF v0]) (use p_ok in \<open>auto simp: vm_inv_def\<close>)
  obtain q h where k: "kmalloc_init (frames v, heap_static) = Inr (q, h)"
    and q: "pmm_ok q" "heap_ok h" "pmm_free_frames q \<subseteq> pmm_free_frames (frames v)"
    and pages: "\<And>i. i < 4096 \<Longrightarrow> heap_ptr h \<noteq> 0 \<Longrightarrow>
      heap_ptr h + of_nat i * PAGE_SIZE - VIRT_PHYS_MAP_BASE \<in> pmm_free_frames (frames v) - pmm_free_frames q"
    and heap_end: "heap_end h = (if heap_ptr h = 0 then 0 else heap_ptr h + HEAP_INITIAL_SIZE)"
    by (rule kmalloc_init_pages [OF v(2)]) blast
  let ?s' = "swap_init b (s\<lparr>vm := v\<lparr>frames := q\<rparr>, kheap := h\<rparr>)"
  have init: "memory_init b m a sz dsz s = Inr ?s'"
    using p(1) v(1) k assms(1) by (simp add: memory_init_def kmem_static_def)
  have tables: "vm_inv pmm_ok pmm_free_frames (kernel_pml4 v) (v\<lparr>frames := q\<rparr>)" if "kernel_pml4 v \<noteq> 0"
    using v(3) [OF that] q pt_ok_subset by (auto simp: vm_inv_def)
  have apart: "phys_ptr T \<noteq> heap_ptr h + of_nat i * PAGE_SIZE"
    if "kernel_pml4 v \<noteq> 0" "valid_path path" "tbl (cells v) (kernel_pml4 v) path = Some T" "i < 4096"
      "heap_ptr h \<noteq> 0" for path T i
  proof
    assume "phys_ptr T = heap_ptr h + of_nat i * PAGE_SIZE"
    then have "T = heap_ptr h + of_nat i * PAGE_SIZE - VIRT_PHYS_MAP_BASE"
      by (simp add: phys_ptr_def algebra_simps)
    with pages [OF that(4,5)] have "T \<in> pmm_free_frames (frames v)"
      by simp
    moreover have "T \<notin> pmm_free_frames (frames v)"
      using v(3) [OF that(1)] pt_ok_frame [OF _ that(2,3)] by (auto simp: vm_inv_def)
    ultimately show False by simp
  qed
  have "SWAP_MAX_PAGES = 0x1000000"
    by (simp add: SWAP_MAX_PAGES_def SWAP_MAX_GB_def PAGE_SIZE_def)
  then show ?thesis
    using init tables v(3) q(1,2) assms(1) apart heap_end pages pmm_frames.free_frame_addr [OF v(2)]
    by (intro exI [of _ ?s'])
      (auto simp: swap_init_def idt_register_handler_def hardware_irq_def IRQ_BASE_def kmem_static_def swap_static_def)
qed

text \<open>The heap starts empty, 16 MB below its end.\<close>

lemma memory_init_between:
  fixes s :: "('c, 'd) kmem"
  assumes "kmem_static c boot_cr3 s" and "dsz \<noteq> 0" and "mmap_count m a sz dsz \<le> MAX_PAGES"
    and "memory_init b m a sz dsz s = Inr s0"
  shows "heap_between (unat (heap_ptr (kheap s0))) (heap_end (kheap s0)) (kheap s0)"
    and "heap_ptr (kheap s0) \<noteq> 0 \<Longrightarrow> unat (heap_end (kheap s0)) = unat (heap_ptr (kheap s0)) + 16777216"
proof -
  have ok: "heap_ok (kheap s0)"
    and roof: "heap_end (kheap s0) = (if heap_ptr (kheap s0) = 0 then 0 else heap_ptr (kheap s0) + HEAP_INITIAL_SIZE)"
    using memory_init_spec [OF assms(1-3), of b] assms(4) by auto
  have "unat (heap_ptr (kheap s0) + HEAP_INITIAL_SIZE) = unat (heap_ptr (kheap s0)) + 16777216"
    using ok by (subst unat_add_small) (simp_all add: heap_ok_def HEAP_TOP_def HEAP_INITIAL_SIZE_def)
  then show "unat (heap_end (kheap s0)) = unat (heap_ptr (kheap s0)) + 16777216" if "heap_ptr (kheap s0) \<noteq> 0"
    using that roof by simp
  then show "heap_between (unat (heap_ptr (kheap s0))) (heap_end (kheap s0)) (kheap s0)"
    using ok by (cases "heap_ptr (kheap s0) = 0") (simp_all add: heap_between_def word_le_nat_alt)
qed

text \<open>C9: From the zeroed state, \<open>memory_init\<close> returns on any memory map of at most 2\<open>^\<close>25 usable pages.
  It leaves a sound frame allocator and heap, page tables (when a frame was left for their root)
  that form a tree of frames the allocator no longer has, no heap page that is a page table, the
  page-fault handler in place and swap on.\<close>

theorem memory_init_outcome:
  fixes s :: "('c, 'd) kmem"
  assumes "kmem_static c boot_cr3 s" and "dsz \<noteq> 0" and "mmap_count m a sz dsz \<le> MAX_PAGES"
  shows "\<exists>s'. memory_init b m a sz dsz s = Inr s' \<and> pmm_ok (frames (vm s')) \<and> heap_ok (kheap s')
    \<and> (kernel_pml4 (vm s') \<noteq> 0 \<longrightarrow> vm_inv pmm_ok pmm_free_frames (kernel_pml4 (vm s')) (vm s')
        \<and> cr3 (vm s') = kernel_pml4 (vm s')
        \<and> (\<forall>q T i. valid_path q \<longrightarrow> tbl (cells (vm s')) (kernel_pml4 (vm s')) q = Some T \<longrightarrow>
             i < 4096 \<longrightarrow> heap_ptr (kheap s') \<noteq> 0 \<longrightarrow> phys_ptr T \<noteq> heap_ptr (kheap s') + of_nat i * PAGE_SIZE))
    \<and> user_handlers (irqs s') 14 = Some SwapPageFault
    \<and> sw s' = \<lparr>swap_active = True, swap_capacity = 0x1000000, swap_used = 0\<rparr>"
  using memory_init_spec [OF assms, of b] by blast

text \<open>The zeroed kernel state, to run \<open>memory_init\<close> on.\<close>

definition kmem_sample :: "(unit, port_write list) kmem" where
  "kmem_sample = \<lparr>vm = \<lparr>frames = pmm_static, cells = (\<lambda>_. 0), invlpgs = [], kernel_pml4 = 0, cr3 = 0\<rparr>,
     sw = swap_static, kheap = heap_static, irqs = irq_static []\<rparr>"

theorem memory_init_outcome_witness:
  "\<exists>s'. memory_init trace_bus efi_sample 0x1000 40 40 kmem_sample = Inr s' \<and> heap_ok (kheap s')
    \<and> user_handlers (irqs s') 14 = Some SwapPageFault"
proof -
  have "kmem_static (\<lambda>_. 0) 0 kmem_sample"
    by (simp add: kmem_static_def kmem_sample_def)
  with memory_init_outcome [of "\<lambda>_. 0" 0 kmem_sample 40 efi_sample "0x1000" 40 trace_bus] show ?thesis
    by (auto simp: efi_sample_pages MAX_PAGES_def)
qed

end
