(* ===== verification/StartMap.thy ===== *)
theory StartMap
  imports MemoryMgr
begin

section \<open>A start-up with enough memory\<close>

text \<open>
  What \<^verbatim>\<open>memory_init\<close> (\<^verbatim>\<open>kernel/memory/memory.c\<close>) leaves on any memory map is in
  MemoryMgr. Here is what it leaves when the map has room: the tables of the maps of
  \<^verbatim>\<open>vmm_init\<close> are at most 2054 frames, so that with a few more no mapping fails, and since frames are
  taken from the bottom, a run of pages above them is left for the heap.
\<close>

declare One_nat_def [simp del]

subsection \<open>The tables a walk may add\<close>

text \<open>The tables stand only at the given paths.\<close>

definition paths_in :: "nat list set \<Rightarrow> u64 \<Rightarrow> 'p vmm \<Rightarrow> bool" where
  "paths_in Q R s \<longleftrightarrow> (\<forall>q. valid_path q \<longrightarrow> tbl (cells s) R q \<noteq> None \<longrightarrow> q \<in> Q)"

lemma paths_in_cells: "paths_in Q R s \<Longrightarrow> cells s' = cells s \<Longrightarrow> paths_in Q R s'"
  by (simp add: paths_in_def)

lemma card_tables:
  assumes "paths_in Q R s" and "finite Q"
  shows "finite (tables (cells s) R) \<and> card (tables (cells s) R) \<le> card Q"
proof -
  have "tables (cells s) R \<subseteq> (\<lambda>q. the (tbl (cells s) R q)) ` Q"
  proof
    fix T
    assume "T \<in> tables (cells s) R"
    then obtain q where q: "valid_path q" "tbl (cells s) R q = Some T"
      by (auto simp: tables_def)
    then show "T \<in> (\<lambda>q. the (tbl (cells s) R q)) ` Q"
      using assms(1) by (intro image_eqI [of _ _ q]) (auto simp: paths_in_def)
  qed
  then show ?thesis
    using assms(2) surj_card_le [of Q "tables (cells s) R"] finite_surj by blast
qed

context frame_allocator
begin

lemma vmm_descend_paths:
  assumes inv: "vm_inv ok free_frames R s" and q: "valid_path q" "length q < 3" "i < 512"
    and T: "tbl (cells s) R q = Some T" and Q: "paths_in Q R s" "q @ [i] \<in> Q"
    and run: "vmm_descend alloc True (slot T i) s = Inr (r, s')"
  shows "paths_in Q R s'"
proof (cases "present (cells s (slot T i))")
  case True
  then show ?thesis
    using run Q(1) by (simp add: vmm_descend_def present_def)
next
  case False
  have ok: "ok (frames s)" and pt: "pt_ok (free_frames (frames s)) (cells s) R"
    using inv by (simp_all add: vm_inv_def)
  obtain N p where N: "alloc (frames s) = Inr (N, p)"
    using alloc_total [OF ok] by blast
  show ?thesis
  proof (cases "N = 0")
    case True
    then show ?thesis
      using run N False Q(1) by (intro paths_in_cells [OF Q(1)]) (auto simp: vmm_descend_def present_def)
  next
    case N0: False
    have fresh: "N \<in> free_frames (frames s)"
      using alloc_frame [OF ok N N0] by simp
    have A: "adds_table (free_frames (frames s)) (cells s) R q i T N"
      using pt q T False fresh free_frame_addr [OF ok fresh] by (simp add: adds_table_def)
    have "cells s' = new_table_cells (cells s) (slot T i) N"
      using run N N0 False by (auto simp: vmm_descend_def present_def new_table_cells_def Let_def)
    then show ?thesis
      using Q tbl_new_table [OF A] by (auto simp: paths_in_def)
  qed
qed

lemma vmm_walk_paths:
  assumes "1 \<le> l" "l \<le> 4" "vm_inv ok free_frames R s" "tbl (cells s) R (take (4 - l) (vpath v)) = Some T"
    and Q: "\<And>k. take k (vpath v) \<in> Q" and "paths_in Q R s"
    and "vmm_walk alloc v 1 True l (phys_ptr T) s = Inr (r, s')"
  shows "paths_in Q R s'"
  using assms(1-4,6,7)
proof (induction l arbitrary: T s)
  case (Suc l)
  show ?case
  proof (cases "l = 0")
    case True
    with Suc.prems show ?thesis
      using vmm_walk_end [of alloc v True T s] by (simp flip: One_nat_def)
  next
    case False
    let ?q = "take (4 - Suc l) (vpath v)" and ?i = "pt_index v (Suc l)"
    have l: "1 \<le> l" "l \<le> 4" and q: "valid_path ?q" "length ?q < 3" "?i < 512"
      using False Suc.prems(2) by simp_all
    have path: "take (4 - l) (vpath v) = ?q @ [?i]"
      using take_vpath [of "Suc l" v] False Suc.prems by simp
    then have in_Q: "?q @ [?i] \<in> Q"
      using Q by metis
    obtain n s1 where down: "vmm_descend alloc True (slot T ?i) s = Inr (n, s1)"
      and rest: "case n of None \<Rightarrow> Inr (None, s1) = (Inr (r, s') :: (_ option \<times> _) checked)
        | Some t \<Rightarrow> vmm_walk alloc v 1 True l t s1 = Inr (r, s')"
      using Suc.prems(6) unfolding vmm_walk_next [OF l(1)] by (fastforce split: option.splits)
    have paths: "paths_in Q R s1"
      by (rule vmm_descend_paths [OF Suc.prems(3) q Suc.prems(4,5) in_Q down])
    from Suc.prems(3) q Suc.prems(4) show ?thesis
    proof (cases rule: vmm_descend_cases)
      case none
      then show ?thesis
        using down rest paths by simp
    next
      case (old U)
      then show ?thesis
        using down rest paths path Suc.IH [OF l Suc.prems(3), of U] by simp
    next
      case (new U s2)
      then show ?thesis
        using down rest paths path Suc.IH [OF l new(4), of U] by simp
    qed
  qed
qed simp

lemma vmm_map_paths:
  assumes inv: "vm_inv ok free_frames R s" and Q: "\<And>k. take k (vpath v) \<in> Q" "paths_in Q R s"
    and run: "vmm_map alloc R v phys flags s = Inr (r, s')"
  shows "paths_in Q R s'"
proof (rule vmm_get_pte_create [OF inv, of v])
  fix ptr s1
  assume g: "vmm_get_pte alloc R v 1 True s = Inr (ptr, s1)" "vm_inv ok free_frames R s1"
    "ptr \<noteq> None \<Longrightarrow> ptr = leaf_ptr (cells s1) R v"
  have paths: "paths_in Q R s1"
    using vmm_walk_paths [of 4 R s v R Q ptr s1] inv Q g(1) by (simp add: vmm_get_pte_def)
  show ?thesis
  proof (cases ptr)
    case None
    then show ?thesis
      using run g(1) paths by (simp add: vmm_map_def)
  next
    case (Some a)
    then obtain T where T: "tbl (cells s1) R (vpath v) = Some T" "a = slot T (pt_index v 1)"
      using g(3) by (auto simp: leaf_ptr_def map_option_case split: option.splits)
    have "pt_ok (free_frames (frames s1)) (cells s1) R"
      using g(2) by (simp add: vm_inv_def)
    note same = tbl_leaf_write [OF this T(1) valid_vpath length_vpath pt_index_lt]
    have "\<exists>e. cells s' = (cells s1)(a := e)"
      using run g(1) Some by (auto simp: vmm_map_def vmm_invlpg_def write_cell_def)
    then show ?thesis
      using paths same by (auto simp: paths_in_def T(2))
  qed
qed

end

subsection \<open>The tables of the first 4 GB\<close>

definition low_paths :: "nat list set" where
  "low_paths = {[], [0]} \<union> (\<lambda>a. [0, a]) ` {..<4} \<union> (\<lambda>(a, b). [0, a, b]) ` ({..<4} \<times> {..<512})"

lemma finite_low_paths: "finite low_paths"
  by (simp add: low_paths_def)

lemma card_low_paths: "card low_paths \<le> 2054"
proof -
  have "card ((\<lambda>(a, b). [0 :: nat, a, b]) ` ({..<4} \<times> {..<512 :: nat})) \<le> 2048"
    using card_image_le [of "{..<4 :: nat} \<times> {..<512 :: nat}"] by (simp add: card_cartesian_product)
  moreover have "card ((\<lambda>a. [0 :: nat, a]) ` {..<4 :: nat}) \<le> 4"
    using card_image_le [of "{..<4 :: nat}"] by simp
  moreover have "card {[], [0 :: nat]} \<le> 2"
    by (simp add: card_insert_if)
  ultimately show ?thesis
    unfolding low_paths_def by (intro order_trans [OF card_Un_le] order_trans [OF add_mono [OF card_Un_le order_refl]]) simp
qed

lemma pt_index_4_low: "j < 1048576 \<Longrightarrow> pt_index (of_nat j * PAGE_SIZE) 4 = 0"
  using pt_index_eq_iff [of "of_nat j * PAGE_SIZE" 4 "of_nat 0 * PAGE_SIZE"] bit_small [of j _ 20]
  by (fastforce simp: bit_page_addr pt_index_def)

lemma pt_index_3_low:
  assumes "j < 1048576"
  shows "pt_index (of_nat j * PAGE_SIZE) 3 < 4"
proof -
  define x where "x = drop_bit 30 (of_nat j * PAGE_SIZE) AND (0x1FF :: u64)"
  have "n < 2" if "bit x n" for n
    using assms that bit_small [of j "18 + n" 20] by (auto simp: x_def bit_index_field bit_page_addr)
  then have "x = take_bit 2 x"
    by (intro bit_eqI) (auto simp: bit_take_bit_iff)
  then have "unat x = unat (take_bit 2 x)"
    by (rule arg_cong)
  also have "\<dots> < 4"
    by (simp add: take_bit_eq_mod unat_mod)
  finally show ?thesis
    by (simp add: pt_index_def x_def)
qed

lemma take_low_paths:
  assumes "j < 1048576" and "vpath v = vpath (of_nat j * PAGE_SIZE)"
  shows "take k (vpath v) \<in> low_paths"
proof -
  have p: "vpath v = [0, pt_index (of_nat j * PAGE_SIZE) 3, pt_index (of_nat j * PAGE_SIZE) 2]"
    using pt_index_4_low [OF assms(1)] assms(2) by (simp add: vpath_def)
  consider "k = 0" | "k = 1" | "k = 2" | "3 \<le> k"
    by linarith
  then show ?thesis
    using pt_index_3_low [OF assms(1)] pt_index_lt [of "of_nat j * PAGE_SIZE" 2]
    by cases (auto simp: p low_paths_def numeral_2_eq_2 One_nat_def)
qed

subsection \<open>No mapping fails\<close>

definition range_full :: "nat \<Rightarrow> (nat \<Rightarrow> u64) \<Rightarrow> (u64 \<Rightarrow> u64) \<Rightarrow> bool" where
  "range_full n e view \<longleftrightarrow> (\<forall>j < n. \<forall>w. same_page w (of_nat j * PAGE_SIZE) \<longrightarrow> view w = e j)"

lemma range_full_Suc:
  assumes "range_full n e view" and "n < 2 ^ 36"
    and "\<And>w. view' w = (if same_page w (of_nat n * PAGE_SIZE) then e n else view w)"
  shows "range_full (Suc n) e view'"
  unfolding range_full_def
proof (intro allI impI)
  fix j w
  assume j: "j < Suc n" "same_page w (of_nat j * PAGE_SIZE)"
  show "view' w = e j"
  proof (cases "j = n")
    case True
    then show ?thesis
      using assms(3) j(2) by simp
  next
    case False
    then have "\<not> same_page w (of_nat n * PAGE_SIZE)"
      using j assms(2) page_addr_same_page [of j n] same_page_trans [OF same_page_sym [OF j(2)]] by auto
    then show ?thesis
      using assms(1,3) j False by (simp add: range_full_def)
  qed
qed

context frame_allocator
begin

text \<open>What the set-up has used up is in the tables, of which there are few.\<close>

lemma enough_left:
  assumes "grows free_frames R s0 s" and "paths_in low_paths R s" and "2054 + n \<le> card (free_frames (frames s0))"
  shows "n \<le> card (free_frames (frames s))"
proof -
  obtain N where N: "N \<subseteq> free_frames (frames s0)" "free_frames (frames s) = free_frames (frames s0) - N"
      "tables (cells s) R = tables (cells s0) R \<union> N"
    using assms(1) by (auto simp: grows_def)
  have t: "finite (tables (cells s) R)" "card (tables (cells s) R) \<le> 2054"
    using card_tables [OF assms(2) finite_low_paths] card_low_paths by simp_all
  have "finite N"
    using t(1) N(3) by simp
  have "N \<subseteq> tables (cells s) R"
    using N(3) by blast
  then have "card N \<le> card (tables (cells s) R)"
    by (rule card_mono [OF t(1)])
  then have "card N \<le> 2054"
    using t(2) by simp
  then show ?thesis
    using card_Diff_subset [OF \<open>finite N\<close> N(1)] assms(3) N(2) by simp
qed

lemma vmm_map_range_full:
  assumes inv: "vm_inv ok free_frames R s" and R: "kernel_pml4 s = R" and n: "n \<le> 1048576"
    and base: "\<And>i. i < n \<Longrightarrow> same_page (base + of_nat i * PAGE_SIZE) (of_nat i * PAGE_SIZE)"
    and room: "grows free_frames R s0 s" "paths_in low_paths R s" "2057 \<le> card (free_frames (frames s0))"
  shows "\<exists>s'. vmm_map_range alloc base flags n s = Inr s' \<and> vm_inv ok free_frames R s' \<and> kernel_pml4 s' = R \<and>
    grows free_frames R s0 s' \<and> paths_in low_paths R s' \<and> range_full n (page_pte flags) (pt_view (cells s') R)"
  unfolding vmm_map_range_def
proof (rule for_loop_rule [where P = "\<lambda>i s'. vm_inv ok free_frames R s' \<and> kernel_pml4 s' = R \<and>
    grows free_frames R s0 s' \<and> paths_in low_paths R s' \<and> range_full i (page_pte flags) (pt_view (cells s') R)"])
  fix i s' assume i: "i < n" and IH: "vm_inv ok free_frames R s' \<and> kernel_pml4 s' = R \<and>
    grows free_frames R s0 s' \<and> paths_in low_paths R s' \<and> range_full i (page_pte flags) (pt_view (cells s') R)"
  let ?a = "of_nat i * PAGE_SIZE" and ?v = "base + of_nat i * PAGE_SIZE"
  have i20: "i < 1048576" "i < 2 ^ 36"
    using i n by simp_all
  have sp: "same_page w ?v \<longleftrightarrow> same_page w ?a" for w
    using base [OF i] same_page_trans same_page_sym by blast
  have low: "take k (vpath ?v) \<in> low_paths" for k
    using base [OF i] by (intro take_low_paths [OF i20(1)]) (simp add: same_page_def)
  from IH have inv': "vm_inv ok free_frames R s'" and g: "grows free_frames R s0 s'" and p: "paths_in low_paths R s'"
    by simp_all
  have three: "3 \<le> card (free_frames (frames s'))"
    using enough_left [OF g p, of 3] room(3) by simp
  from inv' show "\<exists>s''. (let addr = ?a in
      rbind (vmm_map alloc (kernel_pml4 s') (base + addr) addr flags s') (\<lambda>(r, s). Inr s)) = Inr s'' \<and>
    vm_inv ok free_frames R s'' \<and> kernel_pml4 s'' = R \<and> grows free_frames R s0 s'' \<and> paths_in low_paths R s'' \<and>
    range_full (Suc i) (page_pte flags) (pt_view (cells s'') R)"
  proof (cases rule: vmm_map_spec [where v = ?v and phys = ?a and flags = flags])
    case (mapped s'')
    have "range_full (Suc i) (page_pte flags) (pt_view (cells s'') R)"
      by (rule range_full_Suc [OF _ i20(2)]) (use IH mapped(3) sp in \<open>auto simp: page_pte_def\<close>)
    moreover have "paths_in low_paths R s''"
      by (rule vmm_map_paths [OF inv' low p mapped(1)])
    moreover have "grows free_frames R s0 s''"
      by (rule grows_trans [OF g mapped(8)])
    ultimately show ?thesis
      using mapped(1,2,5) IH by (intro exI [of _ s'']) simp
  next
    case (full s'')
    then show ?thesis
      using three by simp
  qed
qed (use inv R room in \<open>simp_all add: range_full_def\<close>)

text \<open>Whatever frames there were: if three are left, no mapping has failed.\<close>

lemma grows_card:
  assumes "grows free_frames R s s'" and "finite (free_frames (frames s))"
  shows "card (free_frames (frames s')) \<le> card (free_frames (frames s))"
  using assms card_mono [of "free_frames (frames s)"] by (auto simp: grows_def)

lemma vmm_map_range_left:
  assumes inv: "vm_inv ok free_frames R s" and R: "kernel_pml4 s = R" and n: "n \<le> 2 ^ 36"
    and base: "\<And>i. i < n \<Longrightarrow> same_page (base + of_nat i * PAGE_SIZE) (of_nat i * PAGE_SIZE)"
    and fin: "\<And>p. finite (free_frames p)"
  shows "\<exists>s'. vmm_map_range alloc base flags n s = Inr s' \<and> vm_inv ok free_frames R s' \<and> kernel_pml4 s' = R \<and>
    (3 \<le> card (free_frames (frames s')) \<longrightarrow> range_full n (page_pte flags) (pt_view (cells s') R))"
  unfolding vmm_map_range_def
proof (rule for_loop_rule [where P = "\<lambda>i s'. vm_inv ok free_frames R s' \<and> kernel_pml4 s' = R \<and>
    (3 \<le> card (free_frames (frames s')) \<longrightarrow> range_full i (page_pte flags) (pt_view (cells s') R))"])
  fix i s' assume i: "i < n" and IH: "vm_inv ok free_frames R s' \<and> kernel_pml4 s' = R \<and>
    (3 \<le> card (free_frames (frames s')) \<longrightarrow> range_full i (page_pte flags) (pt_view (cells s') R))"
  let ?a = "of_nat i * PAGE_SIZE" and ?v = "base + of_nat i * PAGE_SIZE"
  have i36: "i < 2 ^ 36"
    using i n by simp
  have sp: "same_page w ?v \<longleftrightarrow> same_page w ?a" for w
    using base [OF i] same_page_trans same_page_sym by blast
  from IH have inv': "vm_inv ok free_frames R s'" by simp
  note less = grows_card [OF _ fin]
  from inv' show "\<exists>s''. (let addr = ?a in
      rbind (vmm_map alloc (kernel_pml4 s') (base + addr) addr flags s') (\<lambda>(r, s). Inr s)) = Inr s'' \<and>
    vm_inv ok free_frames R s'' \<and> kernel_pml4 s'' = R \<and>
    (3 \<le> card (free_frames (frames s'')) \<longrightarrow> range_full (Suc i) (page_pte flags) (pt_view (cells s'') R))"
  proof (cases rule: vmm_map_spec [where v = ?v and phys = ?a and flags = flags])
    case (mapped s'')
    have "range_full (Suc i) (page_pte flags) (pt_view (cells s'') R)" if "3 \<le> card (free_frames (frames s''))"
      by (rule range_full_Suc [OF _ i36])
        (use IH mapped(3) sp that less [OF mapped(8)] in \<open>auto simp: page_pte_def\<close>)
    then show ?thesis
      using mapped(1,2,5) IH by (intro exI [of _ s'']) simp
  next
    case (full s'')
    then have "card (free_frames (frames s'')) < 3"
      using less [OF full(6)] by simp
    then show ?thesis
      using full(1-3) IH by (intro exI [of _ s'']) (simp add: same_map_def)
  qed
qed (use inv R in \<open>simp_all add: range_full_def\<close>)

lemma vmm_init_left:
  assumes "ok (frames s)" and fin: "\<And>p. finite (free_frames p)" and run: "vmm_init alloc s = Inr s'"
    and root: "kernel_pml4 s' \<noteq> 0" and left: "3 \<le> card (free_frames (frames s'))"
  shows "range_full 1048576 (page_pte (PTE_PRESENT OR PTE_WRITABLE OR PTE_NX OR PTE_GLOBAL))
    (pt_view (cells s') (kernel_pml4 s'))"
proof -
  let ?f1 = "PTE_PRESENT OR PTE_WRITABLE OR PTE_GLOBAL"
  let ?f2 = "PTE_PRESENT OR PTE_WRITABLE OR PTE_NX OR PTE_GLOBAL"
  obtain R p where a: "alloc (frames s) = Inr (R, p)"
    using alloc_total [OF assms(1)] by blast
  then have R: "R \<noteq> 0"
    using run root by (auto simp: vmm_init_def)
  let ?s2 = "s\<lparr>frames := p, kernel_pml4 := R, cells := zero_table (phys_ptr R) (cells s)\<rparr>"
  have inv2: "vm_inv ok free_frames R ?s2"
    using fresh_root(1) [OF assms(1) a R] alloc_ok [OF assms(1) a] by (simp add: vm_inv_def)
  obtain s3 where s3: "vmm_map_range alloc 0 ?f1 524288 ?s2 = Inr s3" "vm_inv ok free_frames R s3" "kernel_pml4 s3 = R"
    using vmm_map_range_left [OF inv2 _ _ _ fin, of 524288 0 ?f1] by auto
  obtain s4 where s4: "vmm_map_range alloc VIRT_PHYS_MAP_BASE ?f2 1048576 s3 = Inr s4" "kernel_pml4 s4 = R"
      "3 \<le> card (free_frames (frames s4)) \<longrightarrow> range_full 1048576 (page_pte ?f2) (pt_view (cells s4) R)"
    using vmm_map_range_left [OF s3(2,3) _ _ fin, of 1048576 VIRT_PHYS_MAP_BASE ?f2] window_same_page by auto
  have "vmm_init alloc s = Inr (s4\<lparr>cr3 := R\<rparr>)"
    using a R s3(1) s4(1,2) by (simp add: vmm_init_def Let_def)
  then have "s' = s4\<lparr>cr3 := R\<rparr>"
    using run by simp
  then show ?thesis
    using s4(2,3) left by simp
qed

lemma fresh_paths:
  assumes "frame_addr R"
  shows "paths_in low_paths R (s\<lparr>cells := zero_table (phys_ptr R) c\<rparr>)"
  unfolding paths_in_def
proof (intro allI impI)
  fix q
  assume q: "valid_path q" "tbl (cells (s\<lparr>cells := zero_table (phys_ptr R) c\<rparr>)) R q \<noteq> None"
  have "zero_table (phys_ptr R) c (slot R i) = 0" if "i < 512" for i
    using zero_table_slot [OF assms assms that] by simp
  then have "q = []"
    using q by (cases q) (auto simp: valid_path_def split: if_splits)
  then show "q \<in> low_paths"
    by (simp add: low_paths_def)
qed

text \<open>With frames for all tables every page of the window is mapped.\<close>

lemma vmm_init_full:
  assumes "ok (frames s)" and room: "2058 \<le> card (free_frames (frames s))"
  shows "\<exists>R s'. vmm_init alloc s = Inr s' \<and> kernel_pml4 s' = R \<and> cr3 s' = R \<and> R \<noteq> 0 \<and> vm_inv ok free_frames R s' \<and>
    range_full 1048576 (page_pte (PTE_PRESENT OR PTE_WRITABLE OR PTE_NX OR PTE_GLOBAL)) (pt_view (cells s') R) \<and>
    card (free_frames (frames s)) \<le> card (free_frames (frames s')) + 2055"
proof -
  let ?f1 = "PTE_PRESENT OR PTE_WRITABLE OR PTE_GLOBAL"
  let ?f2 = "PTE_PRESENT OR PTE_WRITABLE OR PTE_NX OR PTE_GLOBAL"
  obtain R p where a: "alloc (frames s) = Inr (R, p)"
    using alloc_total [OF assms(1)] by blast
  have R: "R \<noteq> 0"
    using alloc_failed [OF assms(1)] a room by force
  note fr = alloc_frame [OF assms(1) a R]
  have addr: "frame_addr R"
    using fr free_frame_addr [OF assms(1)] by blast
  let ?s2 = "s\<lparr>frames := p, kernel_pml4 := R, cells := zero_table (phys_ptr R) (cells s)\<rparr>"
  have inv2: "vm_inv ok free_frames R ?s2"
    using fresh_root(1) [OF assms(1) a R] alloc_ok [OF assms(1) a] by (simp add: vm_inv_def)
  have paths2: "paths_in low_paths R ?s2"
    using fresh_paths [OF addr, where s = "s\<lparr>frames := p, kernel_pml4 := R\<rparr>" and c = "cells s"] by simp
  have left: "card (free_frames p) = card (free_frames (frames s)) - 1"
    using fr by simp
  then have room2: "2057 \<le> card (free_frames (frames ?s2))"
    using room by simp
  obtain s3 where s3: "vmm_map_range alloc 0 ?f1 524288 ?s2 = Inr s3" "vm_inv ok free_frames R s3" "kernel_pml4 s3 = R"
      "grows free_frames R ?s2 s3" "paths_in low_paths R s3"
    using vmm_map_range_full [OF inv2 _ _ _ grows_refl paths2 room2, of 524288 0 ?f1] by auto
  obtain s4 where s4: "vmm_map_range alloc VIRT_PHYS_MAP_BASE ?f2 1048576 s3 = Inr s4" "vm_inv ok free_frames R s4"
      "kernel_pml4 s4 = R" "grows free_frames R ?s2 s4" "paths_in low_paths R s4"
      "range_full 1048576 (page_pte ?f2) (pt_view (cells s4) R)"
    using vmm_map_range_full [OF s3(2,3) _ _ s3(4,5) room2, of 1048576 VIRT_PHYS_MAP_BASE ?f2] window_same_page by auto
  have init: "vmm_init alloc s = Inr (s4\<lparr>cr3 := R\<rparr>)"
    using a R s3(1) s4(1,3) by (simp add: vmm_init_def Let_def)
  have "card (free_frames (frames ?s2)) - 2054 \<le> card (free_frames (frames s4))"
    using room2 by (intro enough_left [OF s4(4,5)]) simp
  then have "card (free_frames (frames s)) \<le> card (free_frames (frames s4)) + 2055"
    using left by simp
  then show ?thesis
    using init s4 R by (intro exI [of _ R] exI [of _ "s4\<lparr>cr3 := R\<rparr>"]) (simp add: vm_inv_def)
qed

end

declare One_nat_def [simp]

subsection \<open>Frames are taken from the bottom\<close>

text \<open>
  Of the pages \<open>U\<close> those from some page on are left. Single allocations keep to this shape, which makes
  it an invariant of the frame allocator and so of everything that is built on it.
\<close>

definition bottom_taken :: "nat set \<Rightarrow> pmm \<Rightarrow> bool" where
  "bottom_taken U p \<longleftrightarrow> pmm_ok p \<and> (\<exists>b. usable_set p = U \<inter> {b..})"

lemma pmm_alloc_bottom:
  assumes "bottom_taken U p" and "pmm_alloc p = Inr (f, p')"
  shows "bottom_taken U p'"
proof -
  have ok: "pmm_ok p"
    using assms(1) by (simp add: bottom_taken_def)
  from ok show ?thesis
  proof (cases rule: pmm_alloc_cases)
    case none
    then show ?thesis
      using assms by simp
  next
    case (frame k q)
    have q: "p' = q"
      using assms(2) frame(1) by (simp only: sum.inject prod.inject)
    have ok': "pmm_ok p'"
      by (rule pmm_frames.alloc_ok [OF ok assms(2)])
    obtain b where b: "usable_set p = U \<inter> {b..}"
      using assms(1) by (auto simp: bottom_taken_def)
    have "usable_set q = usable_set p - {k}"
      using frame(2) by (auto simp: usable_set_def takes_def)
    moreover have "x \<in> U \<inter> {b..} - {k} \<longleftrightarrow> x \<in> U \<inter> {Suc k..}" for x
    proof -
      have "b \<le> k"
        using frame(3) b by simp
      moreover have "k \<le> x" if "x \<in> U" "b \<le> x"
        using Min_le [OF finite_usable_set, of x p] that b frame(4) by simp
      ultimately show ?thesis
        by auto
    qed
    ultimately have "usable_set q = U \<inter> {Suc k..}"
      unfolding b by blast
    then have "usable_set p' = U \<inter> {Suc k..}"
      by (simp only: q)
    then show ?thesis
      using ok' by (auto simp: bottom_taken_def)
  qed
qed

interpretation low_frames: frame_allocator pmm_alloc pmm_free_frames "bottom_taken U" for U
proof unfold_locales
  fix p assume b: "bottom_taken U p"
  then have ok: "pmm_ok p"
    by (simp add: bottom_taken_def)
  show "\<exists>f p'. pmm_alloc p = Inr (f, p')"
    using pmm_frames.alloc_total [OF ok] .
  show "frame_addr f" if "f \<in> pmm_free_frames p" for f
    using pmm_frames.free_frame_addr [OF ok that] .
  fix f p' assume a: "pmm_alloc p = Inr (f, p')"
  show "bottom_taken U p'"
    using pmm_alloc_bottom [OF b a] .
  show "f \<in> pmm_free_frames p \<and> pmm_free_frames p' = pmm_free_frames p - {f}" if "f \<noteq> 0"
    using pmm_frames.alloc_frame [OF ok a that] .
next
  fix p p' assume "bottom_taken U p" "pmm_alloc p = Inr (0, p')"
  then show "p' = p \<and> pmm_free_frames p = {}"
    using pmm_frames.alloc_failed by (simp add: bottom_taken_def)
qed

lemma card_free_frames: "pmm_ok p \<Longrightarrow> card (pmm_free_frames p) = card (usable_set p)"
  unfolding pmm_free_frames_def
  by (rule card_image, rule inj_onI, rule page_addr_inj) (auto dest: usable_setD)

text \<open>Of a run of pages what lies above as many as were taken is left.\<close>

lemma run_above:
  assumes "bottom_taken U p" and "{a..<a + n} \<subseteq> U" and "finite U" and "card U \<le> card (usable_set p) + m"
  shows "{a + m..<a + n} \<subseteq> usable_set p"
proof -
  obtain b where b: "usable_set p = U \<inter> {b..}"
    using assms(1) by (auto simp: bottom_taken_def)
  have "b \<le> a + m" if "a + m < a + n"
  proof (rule ccontr)
    assume "\<not> b \<le> a + m"
    then have sub: "{a..<a + Suc m} \<subseteq> U - usable_set p"
      using assms(2) b that by auto
    have "card {a..<a + Suc m} \<le> card (U - usable_set p)"
      using assms(3) by (intro card_mono [OF _ sub]) simp
    moreover have "card (U - usable_set p) = card U - card (usable_set p)"
      by (rule card_Diff_subset [OF finite_usable_set]) (use b in blast)
    ultimately show False
      using assms(4) by simp
  qed
  then show ?thesis
    using assms(2) b by auto
qed

subsection \<open>The heap gets its run\<close>

lemma kmalloc_init_full:
  assumes ok: "pmm_ok p" and run: "run_at p 4096 k"
  shows "\<exists>q i. i \<le> k \<and> kmalloc_init (p, heap_static) =
    Inr (q, \<lparr>heap_ptr = of_nat i * PAGE_SIZE + VIRT_PHYS_MAP_BASE,
      heap_end = of_nat i * PAGE_SIZE + VIRT_PHYS_MAP_BASE + HEAP_INITIAL_SIZE\<rparr>)"
proof -
  have n: "HEAP_INITIAL_SIZE div PAGE_SIZE = 4096" "unat (4096 :: u64) = 4096"
    by (simp_all add: HEAP_INITIAL_SIZE_def PAGE_SIZE_def)
  obtain i where i: "first_run p 4096 i"
    using first_run_exists [OF run] by blast
  have "512 \<le> i" "i < MAX_PAGES"
    using i ok by (auto simp: first_run_def run_at_def pmm_ok_def)
  then have "of_nat i * PAGE_SIZE \<noteq> 0"
    by (rule page_addr_neq_0)
  moreover obtain q where "pmm_alloc_contiguous 4096 p = Inr (of_nat i * PAGE_SIZE, q)"
    using pmm_alloc_contiguous_first [OF ok, of 4096 i] i n(2) by auto
  moreover have "i \<le> k"
    using i run by (auto simp: first_run_def not_less [symmetric])
  ultimately show ?thesis
    using n(1) by (intro exI [of _ q] exI [of _ i]) (simp add: kmalloc_init_def heap_static_def)
qed

subsection \<open>The whole start-up\<close>

lemma window_address:
  assumes "x < 0x100000000"
  obtains j where "j < 1048576" "same_page x (of_nat j * PAGE_SIZE)"
    "same_page (VIRT_PHYS_MAP_BASE + x) (of_nat j * PAGE_SIZE)"
    "(VIRT_PHYS_MAP_BASE + x) AND 0xFFFFFFFFFFFF = x" "x AND 0xFFFFFFFFFFFF = x"
proof -
  have "unat x < 2 ^ 32"
    using assms by (simp add: word_less_nat_alt)
  then have "unat (take_bit 32 x) = unat x"
    by (simp only: unsigned_take_bit_eq take_bit_nat_eq_self)
  then have "x = take_bit 32 x"
    by (simp only: word_unat_eq_iff)
  then have x: "n < 32" if "bit x n" for n
    using that by (metis bit_take_bit_iff)
  define j where "j = unat (drop_bit 12 x)"
  have j: "bit j n \<longleftrightarrow> bit x (12 + n)" for n
    by (simp add: j_def bit_unsigned_iff bit_drop_bit_eq)
  have "j < 1048576"
    using assms by (simp add: j_def word_less_nat_alt drop_bit_eq_div unat_div)
  moreover have same: "same_page x (of_nat j * PAGE_SIZE)"
    unfolding same_page_iff by (auto simp: bit_page_addr j)
  moreover have or: "VIRT_PHYS_MAP_BASE + x = VIRT_PHYS_MAP_BASE OR x"
    by (rule disjunctive_add_eq_or, rule bit_eqI) (use x in \<open>fastforce simp: bit_and_iff bit_VIRT_PHYS_MAP_BASE\<close>)
  have m: "(0xFFFFFFFFFFFF :: u64) = mask 48"
    by (simp add: mask_eq_exp_minus_1)
  moreover have "(VIRT_PHYS_MAP_BASE + x) AND 0xFFFFFFFFFFFF = x" "x AND 0xFFFFFFFFFFFF = x"
    unfolding or m using x
    by (auto intro!: bit_eqI simp: bit_and_iff bit_or_iff bit_VIRT_PHYS_MAP_BASE bit_mask_iff) (fastforce dest: x)+
  moreover have "same_page (VIRT_PHYS_MAP_BASE + x) (of_nat j * PAGE_SIZE)"
    using same unfolding or same_page_iff by (simp add: bit_or_iff bit_VIRT_PHYS_MAP_BASE)
  ultimately show thesis
    using that by blast
qed

lemma memory_init_full:
  fixes s :: "('c, 'd) kmem"
  assumes zero: "kmem_static c boot_cr3 s" and dsz: "dsz \<noteq> 0" and max: "mmap_count m a sz dsz \<le> MAX_PAGES"
    and run: "512 \<le> k" "k + 6151 \<le> mmap_count m a sz dsz" "{k..<k + 6151} \<subseteq> mmap_pages m a sz dsz"
  shows "\<exists>s' i. memory_init b m a sz dsz s = Inr s' \<and> kernel_pml4 (vm s') \<noteq> 0 \<and> cr3 (vm s') = kernel_pml4 (vm s') \<and>
    range_full 1048576 (page_pte (PTE_PRESENT OR PTE_WRITABLE OR PTE_NX OR PTE_GLOBAL))
      (pt_view (cells (vm s')) (kernel_pml4 (vm s'))) \<and>
    i \<le> k + 2055 \<and> heap_ptr (kheap s') = of_nat i * PAGE_SIZE + VIRT_PHYS_MAP_BASE \<and>
    heap_end (kheap s') = heap_ptr (kheap s') + HEAP_INITIAL_SIZE"
proof -
  obtain p where p: "pmm_init m a sz dsz pmm_static = Inr p" "free_set p = mmap_pages m a sz dsz - {..<512}"
      "phys_total_pages p = of_nat (mmap_count m a sz dsz)"
    using pmm_init_eq [OF dsz, of m a sz pmm_static] by (auto simp: pmm_static_def)
  have total: "unat (phys_total_pages p) = mmap_count m a sz dsz"
    unfolding p(3) using max by (intro unat_of_nat_u64) (simp add: MAX_PAGES_def)
  have ok: "pmm_ok p"
    using max by (simp add: pmm_ok_def total)
  let ?U = "usable_set p"
  have low: "bottom_taken ?U p"
    using ok by (auto simp: bottom_taken_def intro!: exI [of _ 0])
  have sub: "{k..<k + 6151} \<subseteq> ?U"
    using run by (auto simp: usable_set_def p(2) total)
  then have "card {k..<k + 6151} \<le> card ?U"
    by (rule card_mono [OF finite_usable_set])
  then have many: "2058 \<le> card (pmm_free_frames p)"
    by (simp add: card_free_frames [OF ok])
  let ?v0 = "(vm s)\<lparr>frames := p\<rparr>"
  obtain R v where v: "vmm_init pmm_alloc ?v0 = Inr v" "kernel_pml4 v = R" "cr3 v = R" "R \<noteq> 0"
      "vm_inv (bottom_taken ?U) pmm_free_frames R v"
      "range_full 1048576 (page_pte (PTE_PRESENT OR PTE_WRITABLE OR PTE_NX OR PTE_GLOBAL)) (pt_view (cells v) R)"
      "card (pmm_free_frames p) \<le> card (pmm_free_frames (frames v)) + 2055"
    using low_frames.vmm_init_full [of ?U ?v0] low many by auto
  have bot: "bottom_taken ?U (frames v)" and okv: "pmm_ok (frames v)"
    using v(5) by (simp_all add: vm_inv_def bottom_taken_def)
  have "{k + 2055..<k + 6151} \<subseteq> usable_set (frames v)"
    using run_above [OF bot sub finite_usable_set] v(7) by (simp add: card_free_frames ok okv)
  then have "run_at (frames v) 4096 (k + 2055)"
    using run(1) by (auto simp: run_at_def usable_set_def)
  then obtain q i where h: "i \<le> k + 2055" "kmalloc_init (frames v, heap_static) =
      Inr (q, \<lparr>heap_ptr = of_nat i * PAGE_SIZE + VIRT_PHYS_MAP_BASE,
        heap_end = of_nat i * PAGE_SIZE + VIRT_PHYS_MAP_BASE + HEAP_INITIAL_SIZE\<rparr>)"
    using kmalloc_init_full [OF okv] by blast
  show ?thesis
    using p(1) v(1-4,6) h zero
    by (intro exI [of _ "swap_init b (s\<lparr>vm := v\<lparr>frames := q\<rparr>, kheap := \<lparr>heap_ptr = of_nat i * PAGE_SIZE + VIRT_PHYS_MAP_BASE,
          heap_end = of_nat i * PAGE_SIZE + VIRT_PHYS_MAP_BASE + HEAP_INITIAL_SIZE\<rparr>\<rparr>)"] exI [of _ i])
      (simp add: memory_init_def kmem_static_def swap_init_def)
qed

text \<open>Every address below 4 GB and its image in the window translate to it.\<close>

lemma range_full_translates:
  assumes "range_full 1048576 (page_pte (PTE_PRESENT OR PTE_WRITABLE OR PTE_NX OR PTE_GLOBAL)) (pt_view (cells v) R)"
    and "x < 0x100000000"
  shows "vmm_virt_to_phys alloc R x v = Inr x \<and> vmm_virt_to_phys alloc R (VIRT_PHYS_MAP_BASE + x) v = Inr x"
proof -
  obtain j where j: "j < 1048576" "same_page x (of_nat j * PAGE_SIZE)"
      "same_page (VIRT_PHYS_MAP_BASE + x) (of_nat j * PAGE_SIZE)"
      "(VIRT_PHYS_MAP_BASE + x) AND 0xFFFFFFFFFFFF = x" "x AND 0xFFFFFFFFFFFF = x"
    using assms(2) by (rule window_address)
  have "vmm_virt_to_phys alloc R w v = Inr (w AND 0xFFFFFFFFFFFF)" if "same_page w (of_nat j * PAGE_SIZE)" for w
    using assms(1) j(1) that page_pte_translation(1) [OF that j(1)]
    by (simp add: range_full_def vmm_virt_to_phys_view)
  from this [OF j(2)] this [OF j(3)] show ?thesis
    unfolding j(4,5) ..
qed

text \<open>The addresses with an entry are those whose low 48 bits are below 4 GB.\<close>

lemma low_address_page:
  assumes "w AND 0xFFFFFFFFFFFF < (0x100000000 :: u64)"
  obtains j where "j < 1048576" "same_page w (of_nat j * PAGE_SIZE)"
proof -
  obtain j where j: "j < 1048576" "same_page (w AND 0xFFFFFFFFFFFF) (of_nat j * PAGE_SIZE)"
    using assms by (rule window_address)
  have m: "(0xFFFFFFFFFFFF :: u64) = mask 48"
    by (simp add: mask_eq_exp_minus_1)
  have "same_page w (w AND 0xFFFFFFFFFFFF)"
    unfolding m same_page_iff by (simp add: bit_and_iff bit_mask_iff)
  then show thesis
    using that j same_page_trans by blast
qed

lemma page_low_address:
  assumes "j < 1048576" and "same_page w (of_nat j * PAGE_SIZE)"
  shows "w AND 0xFFFFFFFFFFFF < (0x100000000 :: u64)"
proof -
  have m: "(0xFFFFFFFFFFFF :: u64) = mask 48"
    by (simp add: mask_eq_exp_minus_1)
  define x where "x = w AND mask 48"
  have small: "n < 32" if "bit x n" for n
  proof (rule ccontr)
    assume "\<not> n < 32"
    then have "bit (of_nat j * PAGE_SIZE) n"
      using that assms(2) by (auto simp: x_def same_page_iff bit_and_iff bit_mask_iff)
    then show False
      using bit_small [of j "n - 12" 20] assms(1) \<open>\<not> n < 32\<close> by (simp add: bit_page_addr)
  qed
  have "x = take_bit 32 x"
    by (rule bit_eqI) (use small in \<open>auto simp: bit_take_bit_iff\<close>)
  then have "unat x = unat (take_bit 32 x)"
    by (rule arg_cong)
  also have "\<dots> < 2 ^ 32"
    by (simp only: unsigned_take_bit_eq take_bit_nat_less_exp)
  finally show ?thesis
    unfolding m word_less_nat_alt x_def by simp
qed

subsection \<open>Properties\<close>

text \<open>C33: \<open>vmm_init\<close> returns. With no frame to take it only clears \<open>kernel_pml4\<close>; otherwise it
  loads the root it allocated, over a well-formed tree. Only addresses whose low 48 bits are below 4 GB have an entry;
  each entry translates to these low 48 bits and forbids execution: the
  identity map of the first 2 GB has been overwritten by the window at \<open>VIRT_PHYS_MAP_BASE\<close>,
  which has the same indices. If at least three frames are left at the end, every address whose low 48 bits are
  below 4 GB has an entry, and so many are left whenever there were 2058 usable pages.\<close>

theorem vmm_init_outcome:
  assumes "pmm_ok (frames s)"
  shows "\<exists>s'. vmm_init pmm_alloc s = Inr s' \<and>
    (if usable_set (frames s) = {} then s' = s\<lparr>kernel_pml4 := 0\<rparr>
     else kernel_pml4 s' = of_nat (Min (usable_set (frames s))) * PAGE_SIZE \<and> cr3 s' = kernel_pml4 s'
       \<and> vm_inv pmm_ok pmm_free_frames (kernel_pml4 s') s'
       \<and> (\<forall>w. pt_view (cells s') (kernel_pml4 s') w \<noteq> 0 \<longrightarrow>
            w AND 0xFFFFFFFFFFFF < 0x100000000 \<and> bit (pt_view (cells s') (kernel_pml4 s') w) 63
            \<and> vmm_virt_to_phys pmm_alloc (kernel_pml4 s') w s' = Inr (w AND 0xFFFFFFFFFFFF))
       \<and> (3 \<le> card (pmm_free_frames (frames s')) \<longrightarrow>
            (\<forall>w. w AND 0xFFFFFFFFFFFF < 0x100000000 \<longrightarrow> pt_view (cells s') (kernel_pml4 s') w \<noteq> 0))
       \<and> (2058 \<le> card (usable_set (frames s)) \<longrightarrow> 3 \<le> card (pmm_free_frames (frames s'))))"
proof (rule pmm_frames.vmm_init_spec [OF assms])
  assume "vmm_init pmm_alloc s = Inr (s\<lparr>kernel_pml4 := 0\<rparr>)" "pmm_free_frames (frames s) = {}"
  then show ?thesis
    by (simp add: pmm_free_frames_def)
next
  fix R p s'
  assume init: "vmm_init pmm_alloc s = Inr s'" and R: "pmm_alloc (frames s) = Inr (R, p)" "R \<noteq> 0"
    and s': "kernel_pml4 s' = R" "cr3 s' = R" "vm_inv pmm_ok pmm_free_frames R s'"
    and pages: "\<And>w. pt_view (cells s') R w \<noteq> 0 \<Longrightarrow> \<exists>j < 1048576. same_page w (of_nat j * PAGE_SIZE)
         \<and> pt_view (cells s') R w = page_pte (PTE_PRESENT OR PTE_WRITABLE OR PTE_NX OR PTE_GLOBAL) j"
  have "usable_set (frames s) \<noteq> {}"
    using R pmm_alloc_empty [OF assms] by auto
  moreover from this have "R = of_nat (Min (usable_set (frames s))) * PAGE_SIZE"
    using R(1) pmm_alloc_Min [OF assms] by auto
  moreover have "w AND 0xFFFFFFFFFFFF < 0x100000000 \<and> bit (pt_view (cells s') R w) 63 \<and>
      vmm_virt_to_phys pmm_alloc R w s' = Inr (w AND 0xFFFFFFFFFFFF)" if nz: "pt_view (cells s') R w \<noteq> 0" for w
  proof -
    obtain j where j: "j < 1048576" "same_page w (of_nat j * PAGE_SIZE)"
      "pt_view (cells s') R w = page_pte (PTE_PRESENT OR PTE_WRITABLE OR PTE_NX OR PTE_GLOBAL) j"
      using pages [OF nz] by blast
    show ?thesis
      unfolding vmm_virt_to_phys_view
      using page_pte_translation [OF j(2,1,3)] page_low_address [OF j(1,2)] by blast
  qed
  moreover have "pt_view (cells s') R w \<noteq> 0"
    if left: "3 \<le> card (pmm_free_frames (frames s'))" and w: "w AND 0xFFFFFFFFFFFF < 0x100000000" for w
  proof -
    obtain j where j: "j < 1048576" "same_page w (of_nat j * PAGE_SIZE)"
      using w by (rule low_address_page)
    have "range_full 1048576 (page_pte (PTE_PRESENT OR PTE_WRITABLE OR PTE_NX OR PTE_GLOBAL)) (pt_view (cells s') R)"
      using pmm_frames.vmm_init_left [OF assms _ init _ left] R(2) s'(1) by (simp add: pmm_free_frames_def)
    then have "bit (pt_view (cells s') R w) 63"
      using page_pte_translation(2) [OF j(2,1)] j by (simp add: range_full_def)
    then show ?thesis
      by auto
  qed
  moreover have "3 \<le> card (pmm_free_frames (frames s'))" if "2058 \<le> card (usable_set (frames s))"
    using pmm_frames.vmm_init_full [OF assms] that init card_free_frames [OF assms] by fastforce
  ultimately show ?thesis
    using init s' by simp
qed

theorem vmm_init_outcome_witness:
  "\<exists>s'. vmm_init pmm_alloc (vm_sample\<lparr>frames := pmm_large\<rparr>) = Inr s' \<and> cr3 s' = 0x200000
    \<and> vm_inv pmm_ok pmm_free_frames 0x200000 s' \<and> pt_view (cells s') 0x200000 0xB8000 \<noteq> 0
    \<and> vmm_virt_to_phys pmm_alloc 0x200000 (VIRT_PHYS_MAP_BASE + 0xB8000) s' = Inr 0xB8000"
proof -
  let ?s = "vm_sample\<lparr>frames := pmm_large\<rparr>"
  have u: "usable_set (frames ?s) = {512..<4608}"
    using pmm_large_free by (auto simp: usable_set_def MAX_PAGES_def) (simp_all add: pmm_large_def)
  have "Min {512..<4608 :: nat} = 512"
    by (rule Min_eqI) auto
  then have m: "of_nat (Min (usable_set (frames ?s))) * PAGE_SIZE = 0x200000" "usable_set (frames ?s) \<noteq> {}"
      "2058 \<le> card (usable_set (frames ?s))"
    unfolding u by (simp_all add: PAGE_SIZE_def)
  have ok: "pmm_ok (frames ?s)"
    using pmm_large_ok by simp
  obtain s' where s': "vmm_init pmm_alloc ?s = Inr s'" "kernel_pml4 s' = 0x200000" "cr3 s' = 0x200000"
      "vm_inv pmm_ok pmm_free_frames 0x200000 s'"
      "\<And>w. pt_view (cells s') 0x200000 w \<noteq> 0 \<Longrightarrow> vmm_virt_to_phys pmm_alloc 0x200000 w s' = Inr (w AND 0xFFFFFFFFFFFF)"
      "\<And>w. w AND 0xFFFFFFFFFFFF < 0x100000000 \<Longrightarrow> pt_view (cells s') 0x200000 w \<noteq> 0"
    using vmm_init_outcome [OF ok] m(3) unfolding m(1) if_not_P [OF m(2)] by metis
  have "(0xB8000 :: u64) AND 0xFFFFFFFFFFFF < 0x100000000"
      "(VIRT_PHYS_MAP_BASE + 0xB8000) AND 0xFFFFFFFFFFFF = 0xB8000" "(0xB8000 :: u64) < 0x100000000"
    by (simp_all add: VIRT_PHYS_MAP_BASE_def)
  then show ?thesis
    using s'(1,3,4) s'(6) [of "0xB8000"] s'(5) [of "VIRT_PHYS_MAP_BASE + 0xB8000"] s'(6) [of "VIRT_PHYS_MAP_BASE + 0xB8000"]
    by simp
qed

text \<open>C8: Start-up succeeds where there is memory. Let the kernel start on its zeroed data (page tables in use before are
  arbitrary), with a memory map of descriptors of non-zero size that lists at most 2\<open>^\<close>25 usable pages, and let 6151
  usable pages in a row (24 MB) start at some page \<open>k\<close> above the first 2 MB and end below 4 GB. The
  allocators only look at the page numbers below the number of usable pages, so let the map
  list in all at least as many usable pages as the number of the last page of that run, that is \<open>k + 6151\<close>. Then
  \<open>memory_init\<close> returns with the new tables loaded and a heap of 16 MB. Through
  these tables every address below 4 GB translates to itself, so does its image in the direct map, and
  every byte of the heap translates to the physical byte it stands for.\<close>

theorem memory_init_complete:
  fixes s :: "('c, 'd) kmem"
  assumes "kmem_static c boot_cr3 s" and "dsz \<noteq> 0" and "mmap_count m a sz dsz \<le> MAX_PAGES"
    and "512 \<le> k" and "k + 6151 \<le> mmap_count m a sz dsz" and "{k..<k + 6151} \<subseteq> mmap_pages m a sz dsz"
    and "k + 6151 \<le> 1048576"
  shows "\<exists>s'. memory_init b m a sz dsz s = Inr s' \<and> kernel_pml4 (vm s') \<noteq> 0 \<and> cr3 (vm s') = kernel_pml4 (vm s') \<and>
    heap_ptr (kheap s') \<noteq> 0 \<and> heap_end (kheap s') = heap_ptr (kheap s') + HEAP_INITIAL_SIZE \<and>
    (\<forall>x < 0x100000000. vmm_virt_to_phys pmm_alloc (kernel_pml4 (vm s')) x (vm s') = Inr x \<and>
       vmm_virt_to_phys pmm_alloc (kernel_pml4 (vm s')) (VIRT_PHYS_MAP_BASE + x) (vm s') = Inr x) \<and>
    (\<forall>n < 16777216. vmm_virt_to_phys pmm_alloc (kernel_pml4 (vm s')) (heap_ptr (kheap s') + of_nat n) (vm s') =
       Inr (heap_ptr (kheap s') - VIRT_PHYS_MAP_BASE + of_nat n))"
proof -
  obtain s' i where s': "memory_init b m a sz dsz s = Inr s'" "kernel_pml4 (vm s') \<noteq> 0" "cr3 (vm s') = kernel_pml4 (vm s')"
      "range_full 1048576 (page_pte (PTE_PRESENT OR PTE_WRITABLE OR PTE_NX OR PTE_GLOBAL))
        (pt_view (cells (vm s')) (kernel_pml4 (vm s')))"
      "i \<le> k + 2055" "heap_ptr (kheap s') = of_nat i * PAGE_SIZE + VIRT_PHYS_MAP_BASE"
      "heap_end (kheap s') = heap_ptr (kheap s') + HEAP_INITIAL_SIZE"
    using memory_init_full [OF assms(1-6), of b] by blast
  note translates = range_full_translates [OF s'(4)]
  have "heap_ptr (kheap s') \<noteq> 0"
    using memory_init_spec [OF assms(1-3), of b] s'(1,7) by (auto simp: HEAP_INITIAL_SIZE_def)
  moreover have "vmm_virt_to_phys pmm_alloc (kernel_pml4 (vm s')) (heap_ptr (kheap s') + of_nat n) (vm s') =
      Inr (heap_ptr (kheap s') - VIRT_PHYS_MAP_BASE + of_nat n)" if "n < 16777216" for n
  proof -
    have "i * 4096 + n < 4294967296"
      using s'(5) assms(7) that by simp
    moreover from this have "unat (of_nat (i * 4096 + n) :: u64) = i * 4096 + n"
      by (intro unat_of_nat_u64) simp
    ultimately have "of_nat (i * 4096 + n) < (0x100000000 :: u64)"
      unfolding word_less_nat_alt by simp
    from translates [OF this, of pmm_alloc] show ?thesis
      by (simp add: s'(6) PAGE_SIZE_def algebra_simps)
  qed
  ultimately show ?thesis
    using s'(1-3,7) translates by blast
qed

text \<open>A machine with 64 MB.\<close>

definition efi_64mb :: byte_mem where
  "efi_64mb = (\<lambda>_. 0)(0x1000 := 7, 0x1019 := 0x40)"

lemma efi_64mb_pages:
  "mmap_pages efi_64mb 0x1000 40 40 = {..<16384}" "mmap_count efi_64mb 0x1000 40 40 = 16384"
proof -
  have d: "mmap_desc efi_64mb 0x1000 40 0 =
      \<lparr>efi_type = 7, efi_pad = 0, phys_start = 0, virt_start = 0, num_pages = 16384, efi_attr = 0\<rparr>"
    by (simp add: mmap_desc_def load_descriptor_def load64_def load32_def efi_64mb_def)
  have "unat (PAGE_INDEX 0 + of_nat p) = p" if "p < 16384" for p
    using that unat_of_nat_u64 [of p] by (simp add: PAGE_INDEX_def)
  then have "region_pages (mmap_desc efi_64mb 0x1000 40 0) = {..<16384}"
    unfolding d by (auto simp: region_pages_def efi_usable_def MAX_PAGES_def)
  then show "mmap_pages efi_64mb 0x1000 40 40 = {..<16384}" "mmap_count efi_64mb 0x1000 40 40 = 16384"
    by (simp_all add: mmap_pages_def mmap_count_def lessThan_Suc)
qed

theorem memory_init_complete_witness:
  "\<exists>s'. memory_init trace_bus efi_64mb 0x1000 40 40 kmem_sample = Inr s' \<and>
    heap_end (kheap s') = heap_ptr (kheap s') + HEAP_INITIAL_SIZE \<and>
    vmm_virt_to_phys pmm_alloc (kernel_pml4 (vm s')) 0xB8000 (vm s') = Inr 0xB8000 \<and>
    vmm_virt_to_phys pmm_alloc (kernel_pml4 (vm s')) (heap_ptr (kheap s') + of_nat 4096) (vm s') =
      Inr (heap_ptr (kheap s') - VIRT_PHYS_MAP_BASE + of_nat 4096)"
proof -
  have z: "kmem_static (\<lambda>_. 0) 0 kmem_sample"
    by (simp add: kmem_static_def kmem_sample_def)
  have pages: "{512..<512 + 6151} \<subseteq> mmap_pages efi_64mb 0x1000 40 40"
    unfolding efi_64mb_pages by (rule subsetI) simp
  have "(40 :: u64) \<noteq> 0" "mmap_count efi_64mb 0x1000 40 40 \<le> MAX_PAGES" "512 + 6151 \<le> mmap_count efi_64mb 0x1000 40 40"
    by (simp_all add: efi_64mb_pages MAX_PAGES_def)
  note m = this
  obtain s' where s': "memory_init trace_bus efi_64mb 0x1000 40 40 kmem_sample = Inr s'"
      "heap_end (kheap s') = heap_ptr (kheap s') + HEAP_INITIAL_SIZE"
      "\<forall>x < 0x100000000. vmm_virt_to_phys pmm_alloc (kernel_pml4 (vm s')) x (vm s') = Inr x \<and>
         vmm_virt_to_phys pmm_alloc (kernel_pml4 (vm s')) (VIRT_PHYS_MAP_BASE + x) (vm s') = Inr x"
      "\<forall>n < 16777216. vmm_virt_to_phys pmm_alloc (kernel_pml4 (vm s')) (heap_ptr (kheap s') + of_nat n) (vm s') =
         Inr (heap_ptr (kheap s') - VIRT_PHYS_MAP_BASE + of_nat n)"
    using memory_init_complete [OF z m(1,2) _ m(3) pages, of trace_bus] by auto
  have "vmm_virt_to_phys pmm_alloc (kernel_pml4 (vm s')) 0xB8000 (vm s') = Inr 0xB8000"
    using s'(3) by (simp add: word_less_nat_alt)
  moreover have "vmm_virt_to_phys pmm_alloc (kernel_pml4 (vm s')) (heap_ptr (kheap s') + of_nat 4096) (vm s') =
      Inr (heap_ptr (kheap s') - VIRT_PHYS_MAP_BASE + of_nat 4096)"
    by (rule mp [OF spec [OF s'(4)]]) simp
  ultimately show ?thesis
    using s'(1,2) by blast
qed

end
