(* ===== verification/KernelRun.thy ===== *)
theory KernelRun
  imports MemoryMgr
begin

section \<open>The memory of the running kernel\<close>

text \<open>
  After start-up the kernel's memory is used by whoever calls its functions and by interrupts, in
  any order. This theory puts the components together as one machine: the calls of
  \<^verbatim>\<open>kernel/memory/memory.c\<close> on the kernel's own tables, writes through the direct map into
  frames that were handed out, and interrupts, which \<^verbatim>\<open>idt_dispatch\<close> (\<^verbatim>\<open>idt.c\<close>) gives to the
  registered handler. It is specified by an automaton that knows only who owns each frame and
  what each page is mapped to, and the machine refines it.
\<close>

subsection \<open>Interrupts\<close>

text \<open>
  The one handler of the kernel runs on the memory, the faulting address in CR2. How each run
  of the handler ended is collected.
\<close>

definition run_handler ::
  "u64 \<Rightarrow> (kernel_handler, 'c, 'd, (fault_outcome list \<times> pmm vmm \<times> swap) checked) handler_call" where
  "run_handler cr2 h vec ctx = (\<lambda>(i, k). (i, rbind k (\<lambda>(outs, s, w).
     rbind (swap_page_fault_handler pmm_alloc cr2 (s, w)) (\<lambda>(r, s, w). Inr (outs @ [r], s, w)))))"

definition interrupt ::
  "'d bus \<Rightarrow> u8 \<Rightarrow> u64 \<Rightarrow> u64 \<Rightarrow> ('c, 'd) kmem \<Rightarrow> (fault_outcome list \<times> ('c, 'd) kmem) checked" where
  "interrupt b vec error_code cr2 s =
     (let (i, k) = idt_dispatch b (run_handler cr2) vec error_code (irqs s, Inr ([], vm s, sw s))
      in rbind k (\<lambda>(outs, v, w). Inr (outs, s\<lparr>vm := v, sw := w, irqs := i\<rparr>)))"

subsection \<open>The machine\<close>

text \<open>
  The state is the kernel's memory and the set of frames that were handed out and not returned.
  A frame swapped in is handed out to the page it is mapped to.
\<close>

datatype kernel_op =
    GetFrame
  | GetRun u64
  | PutFrame u64
  | MapPage u64 u64 u64
  | UnmapPage u64
  | Allocate u64
  | AllocateAligned u64 u64
  | Release u64
  | Write u64 nat u64
  | Interrupt u8 u64 u64

definition given :: "u64 \<Rightarrow> u64 set" where "given f = (if f = 0 then {} else {f})"

text \<open>The \<open>n\<close> frames from an address on.\<close>

definition run_frames :: "u64 \<Rightarrow> nat \<Rightarrow> u64 set" where
  "run_frames f n = (\<lambda>i. f + of_nat i * PAGE_SIZE) ` {..<n}"

primrec swapped_in :: "fault_outcome list \<Rightarrow> u64 set" where
  "swapped_in [] = {}"
| "swapped_in (r # rs) = (case r of SwappedIn idx f \<Rightarrow> insert f (swapped_in rs) | _ \<Rightarrow> swapped_in rs)"

fun kernel_step ::
  "'d bus \<Rightarrow> kernel_op \<Rightarrow> u64 set \<times> ('c, 'd) kmem \<Rightarrow> (u64 set \<times> ('c, 'd) kmem) checked" where
  "kernel_step b GetFrame (lent, s) =
     rbind (pmm_alloc (frames (vm s))) (\<lambda>(f, p). Inr (lent \<union> given f, s\<lparr>vm := (vm s)\<lparr>frames := p\<rparr>\<rparr>))"
| "kernel_step b (GetRun n) (lent, s) =
     rbind (pmm_alloc_contiguous n (frames (vm s))) (\<lambda>(f, p).
       Inr (lent \<union> (if f = 0 then {} else run_frames f (unat n)), s\<lparr>vm := (vm s)\<lparr>frames := p\<rparr>\<rparr>))"
| "kernel_step b (PutFrame f) (lent, s) =
     rbind (pmm_free f (frames (vm s))) (\<lambda>p. Inr (lent - {f}, s\<lparr>vm := (vm s)\<lparr>frames := p\<rparr>\<rparr>))"
| "kernel_step b (MapPage v phys flags) (lent, s) =
     rbind (vmm_map pmm_alloc (kernel_pml4 (vm s)) v phys flags (vm s)) (\<lambda>(r, m). Inr (lent, s\<lparr>vm := m\<rparr>))"
| "kernel_step b (UnmapPage v) (lent, s) =
     rbind (vmm_unmap pmm_alloc (kernel_pml4 (vm s)) v (vm s)) (\<lambda>m. Inr (lent, s\<lparr>vm := m\<rparr>))"
| "kernel_step b (Allocate n) (lent, s) = (let (p, h) = kmalloc n (kheap s) in Inr (lent, s\<lparr>kheap := h\<rparr>))"
| "kernel_step b (AllocateAligned n align) (lent, s) =
     (let (p, h) = kmalloc_aligned n align (kheap s) in Inr (lent, s\<lparr>kheap := h\<rparr>))"
| "kernel_step b (Release p) (lent, s) = Inr (lent, s\<lparr>kheap := kfree p (kheap s)\<rparr>)"
| "kernel_step b (Write f i e) (lent, s) = Inr (lent, s\<lparr>vm := write_cell (slot f i) e (vm s)\<rparr>)"
| "kernel_step b (Interrupt vec error_code cr2) (lent, s) =
     rbind (interrupt b vec error_code cr2 s) (\<lambda>(outs, s). Inr (lent \<union> swapped_in outs, s))"

text \<open>The frames of the initial heap: the 16 MB below its end.\<close>

definition heap_frames :: "heap \<Rightarrow> u64 set" where
  "heap_frames h = (if heap_end h = 0 then {}
     else (\<lambda>i. heap_end h - HEAP_INITIAL_SIZE - VIRT_PHYS_MAP_BASE + of_nat i * PAGE_SIZE) ` {..<4096})"

text \<open>
  The discipline of the callers: a frame is returned only while it is handed out, a request of the heap is of at
  most 2\<open>^\<close>46 bytes, an alignment a power of two up to 2\<open>^\<close>46, a write is to a frame of one's own or of the heap.
\<close>

fun kernel_allowed :: "kernel_op \<Rightarrow> u64 set \<times> ('c, 'd) kmem \<Rightarrow> bool" where
  "kernel_allowed (PutFrame f) (lent, s) \<longleftrightarrow> f \<in> lent"
| "kernel_allowed (Allocate n) (lent, s) \<longleftrightarrow> unat n \<le> KMALLOC_LIMIT"
| "kernel_allowed (AllocateAligned n align) (lent, s) \<longleftrightarrow> heap_valid (Aligned n align)"
| "kernel_allowed (Write f i e) (lent, s) \<longleftrightarrow> f \<in> lent \<union> heap_frames (kheap s) \<and> i < 512"
| "kernel_allowed op x \<longleftrightarrow> True"

lemma always_allowed:
  "kernel_allowed GetFrame x" "kernel_allowed (GetRun n) x" "kernel_allowed (MapPage v phys flags) x"
  "kernel_allowed (UnmapPage v) x" "kernel_allowed (Release p) x" "kernel_allowed (Interrupt vec error_code cr2) x"
  by (cases x; simp)+

subsection \<open>The specification\<close>

record ownership =
  o_free :: "u64 set"
  o_tables :: "u64 set"
  o_lent :: "u64 set"
  o_heap :: "u64 set"
  entry_of :: "u64 \<Rightarrow> u64"
  handled :: "u8 \<Rightarrow> bool"

definition set_page :: "u64 \<Rightarrow> u64 \<Rightarrow> ownership \<Rightarrow> ownership" where
  "set_page v e a = a\<lparr>entry_of := (\<lambda>w. if same_page w v then e else entry_of a w)\<rparr>"

definition lend :: "u64 \<Rightarrow> ownership \<Rightarrow> ownership" where
  "lend f a = a\<lparr>o_free := o_free a - {f}, o_lent := insert f (o_lent a)\<rparr>"

definition lend_all :: "u64 set \<Rightarrow> ownership \<Rightarrow> ownership" where
  "lend_all F a = a\<lparr>o_free := o_free a - F, o_lent := o_lent a \<union> F\<rparr>"

definition into_tables :: "u64 set \<Rightarrow> ownership \<Rightarrow> ownership" where
  "into_tables N a = a\<lparr>o_free := o_free a - N, o_tables := o_tables a \<union> N\<rparr>"

inductive owner_step :: "kernel_op \<Rightarrow> ownership \<Rightarrow> ownership \<Rightarrow> bool" where
  get_frame: "f \<in> o_free a \<Longrightarrow> owner_step GetFrame a (lend f a)"
| get_none: "o_free a = {} \<Longrightarrow> owner_step GetFrame a a"
| get_run: "0 < n \<Longrightarrow> run_frames f (unat n) \<subseteq> o_free a \<Longrightarrow>
    owner_step (GetRun n) a (lend_all (run_frames f (unat n)) a)"
| get_no_run: "n = 0 \<or> (\<forall>f. \<not> run_frames f (unat n) \<subseteq> o_free a) \<Longrightarrow> owner_step (GetRun n) a a"
| put_frame: "f \<in> o_lent a \<Longrightarrow>
    owner_step (PutFrame f) a (a\<lparr>o_free := insert f (o_free a), o_lent := o_lent a - {f}\<rparr>)"
| map_page: "N \<subseteq> o_free a \<Longrightarrow>
    owner_step (MapPage v phys flags) a (set_page v (pte_value phys flags) (into_tables N a))"
| map_full: "N \<subseteq> o_free a \<Longrightarrow> card (o_free a) < 3 \<Longrightarrow> owner_step (MapPage v phys flags) a (into_tables N a)"
| unmap_page: "owner_step (UnmapPage v) a (if present (entry_of a v) then set_page v 0 a else a)"
| allocate: "owner_step (Allocate n) a a"
| allocate_aligned: "owner_step (AllocateAligned n align) a a"
| release: "owner_step (Release p) a a"
| write_own: "f \<in> o_lent a \<union> o_heap a \<Longrightarrow> owner_step (Write f i e) a a"
| swap_in: "handled a vec \<Longrightarrow> swapped (entry_of a cr2) \<Longrightarrow> f \<in> o_free a \<Longrightarrow>
    owner_step (Interrupt vec error_code cr2) a (set_page cr2 (swap_in_pte f) (lend f a))"
| no_swap_in: "\<not> handled a vec \<or> \<not> swapped (entry_of a cr2) \<or> o_free a = {} \<Longrightarrow>
    owner_step (Interrupt vec error_code cr2) a a"

text \<open>No frame has two owners.\<close>

definition apart :: "ownership \<Rightarrow> bool" where
  "apart a \<longleftrightarrow> o_free a \<inter> o_tables a = {} \<and> o_free a \<inter> o_lent a = {} \<and> o_free a \<inter> o_heap a = {} \<and>
     o_tables a \<inter> o_lent a = {} \<and> o_tables a \<inter> o_heap a = {} \<and> o_lent a \<inter> o_heap a = {}"

lemmas owner_defs = set_page_def lend_def lend_all_def into_tables_def

lemma owner_step_apart: "owner_step op a a' \<Longrightarrow> apart a \<Longrightarrow> apart a'"
  by (induction rule: owner_step.induct) (auto simp: apart_def owner_defs)

lemma owner_step_heap: "owner_step op a a' \<Longrightarrow> o_heap a' = o_heap a"
  by (induction rule: owner_step.induct) (auto simp: owner_defs)

lemma owner_step_tables: "owner_step op a a' \<Longrightarrow> o_tables a \<subseteq> o_tables a'"
  by (induction rule: owner_step.induct) (auto simp: owner_defs)

lemma owner_step_handled: "owner_step op a a' \<Longrightarrow> handled a' = handled a"
  by (induction rule: owner_step.induct) (auto simp: owner_defs)

inductive_cases owner_writeE: "owner_step (Write f i e) a a'"

subsection \<open>Writes outside the tables\<close>

lemma tbl_other_write:
  assumes ok: "pt_ok F c R" and f: "frame_addr f" "f \<notin> tables c R" "i < 512" and q: "valid_path q"
  shows "tbl (c(slot f i := e)) R q = tbl c R q"
  using q
proof (induction q rule: rev_induct)
  case (snoc j r)
  note v = valid_path_snoc [OF snoc.prems]
  then have IH: "tbl (c(slot f i := e)) R r = tbl c R r"
    using snoc.IH by blast
  show ?case
  proof (cases "tbl c R r")
    case None
    with IH show ?thesis by (simp add: tbl_snoc del: fun_upd_apply)
  next
    case (Some U)
    then have "U \<noteq> f" "frame_addr U"
      using f(2) v pt_ok_frame [OF ok _ Some] by (auto simp: tables_def)
    with slot_inj [of U f j i] have "slot U j \<noteq> slot f i"
      using f v by blast
    with Some show ?thesis by (simp add: tbl_snoc IH del: fun_upd_apply) simp
  qed
qed simp

lemma other_write:
  assumes ok: "pt_ok F c R" and f: "frame_addr f" "f \<notin> tables c R" "i < 512"
  shows "pt_ok F (c(slot f i := e)) R" and "tables (c(slot f i := e)) R = tables c R"
    and "pt_view (c(slot f i := e)) R = pt_view c R"
proof -
  note t = tbl_other_write [OF ok f, of _ e]
  show "pt_ok F (c(slot f i := e)) R"
    using ok t unfolding pt_ok_def by simp
  show "tables (c(slot f i := e)) R = tables c R"
    using t by (auto simp: tables_def)
  show "pt_view (c(slot f i := e)) R = pt_view c R"
  proof
    fix w
    show "pt_view (c(slot f i := e)) R w = pt_view c R w"
    proof (cases "tbl c R (vpath w)")
      case (Some U)
      then have "U \<noteq> f" "frame_addr U"
        using f(2) pt_ok_frame [OF ok _ Some] by (auto simp: tables_def)
      with slot_inj [of U f "pt_index w 1" i] have "slot U (pt_index w 1) \<noteq> slot f i"
        using f by simp
      with Some show ?thesis
        by (simp add: pt_view_def t)
    qed (simp add: pt_view_def t)
  qed
qed

subsection \<open>The machine refines the specification\<close>

definition owners :: "u64 set \<times> ('c, 'd) kmem \<Rightarrow> ownership" where
  "owners = (\<lambda>(lent, s).
     \<lparr>o_free = pmm_free_frames (frames (vm s)), o_tables = tables (cells (vm s)) (kernel_pml4 (vm s)), o_lent = lent,
      o_heap = heap_frames (kheap s), entry_of = pt_view (cells (vm s)) (kernel_pml4 (vm s)),
      handled = (\<lambda>vec. user_handlers (irqs s) vec \<noteq> None)\<rparr>)"

text \<open>The frames the allocator may ever hand out.\<close>

definition frame_range :: "pmm \<Rightarrow> u64 set" where
  "frame_range p = (\<lambda>i. of_nat i * PAGE_SIZE) ` {512..<unat (phys_total_pages p)}"

definition kernel_inv :: "u64 set \<times> ('c, 'd) kmem \<Rightarrow> bool" where
  "kernel_inv = (\<lambda>(lent, s). vm_inv pmm_ok pmm_free_frames (kernel_pml4 (vm s)) (vm s) \<and> heap_ok (kheap s) \<and>
     lent \<subseteq> frame_range (frames (vm s)) \<and> (\<forall>f \<in> heap_frames (kheap s). frame_addr f) \<and> apart (owners (lent, s)))"

lemma frames_in_range: "pmm_free_frames p \<subseteq> frame_range p"
  by (auto simp: pmm_free_frames_def frame_range_def usable_set_def)

lemma frame_range_addr: "pmm_ok p \<Longrightarrow> f \<in> frame_range p \<Longrightarrow> frame_addr f"
  by (auto simp: frame_range_def pmm_ok_def intro!: page_addr_frame)

lemma pmm_free_frame:
  assumes "pmm_ok p" and "f \<in> frame_range p"
  shows "\<exists>p'. pmm_free f p = Inr p' \<and> pmm_ok p' \<and> phys_total_pages p' = phys_total_pages p \<and>
    pmm_free_frames p' = insert f (pmm_free_frames p)"
proof -
  obtain i where i: "f = of_nat i * PAGE_SIZE" "512 \<le> i" "i < unat (phys_total_pages p)"
    using assms(2) by (auto simp: frame_range_def)
  then have max: "i < MAX_PAGES"
    using assms(1) by (simp add: pmm_ok_def)
  have idx: "unat (f div PAGE_SIZE) = i"
    using max i(1) by simp
  obtain p' where p': "pmm_free f p = Inr p'" "free_set p' = insert i (free_set p)"
    "phys_total_pages p' = phys_total_pages p"
    using pmm_free_eq [of f p] max unfolding idx by blast
  have "usable_set p' = insert i (usable_set p)"
    using p'(2,3) i by (auto simp: usable_set_def)
  then show ?thesis
    using p' assms(1) i(1) by (auto simp: pmm_ok_def pmm_free_frames_def)
qed

text \<open>No operation changes the number of pages, so the allocator keeps its contract with a fixed one.\<close>

definition sized :: "u64 \<Rightarrow> pmm \<Rightarrow> bool" where
  "sized n p \<longleftrightarrow> pmm_ok p \<and> phys_total_pages p = n"

lemma pmm_alloc_sized:
  assumes "sized n p" and "pmm_alloc p = Inr (f, p')"
  shows "sized n p'"
proof -
  have ok: "pmm_ok p" and n: "phys_total_pages p = n"
    using assms(1) by (simp_all add: sized_def)
  have "phys_total_pages p' = phys_total_pages p"
    using ok
  proof (cases rule: pmm_alloc_cases)
    case none
    then show ?thesis
      using assms(2) by simp
  next
    case (frame k q)
    then have "p' = q"
      using assms(2) by (simp only: sum.inject prod.inject)
    then show ?thesis
      using frame(2) by (simp add: takes_def)
  qed
  then show ?thesis
    using pmm_frames.alloc_ok [OF ok assms(2)] n by (simp add: sized_def)
qed

interpretation sized_frames: frame_allocator pmm_alloc pmm_free_frames "sized n" for n
proof unfold_locales
  fix p assume s: "sized n p"
  then have ok: "pmm_ok p"
    by (simp add: sized_def)
  show "\<exists>f p'. pmm_alloc p = Inr (f, p')"
    using pmm_frames.alloc_total [OF ok] .
  show "frame_addr f" if "f \<in> pmm_free_frames p" for f
    using pmm_frames.free_frame_addr [OF ok that] .
  fix f p' assume a: "pmm_alloc p = Inr (f, p')"
  show "sized n p'"
    using pmm_alloc_sized [OF s a] .
  show "f \<in> pmm_free_frames p \<and> pmm_free_frames p' = pmm_free_frames p - {f}" if "f \<noteq> 0"
    using pmm_frames.alloc_frame [OF ok a that] .
next
  fix p p' assume "sized n p" "pmm_alloc p = Inr (0, p')"
  then show "p' = p \<and> pmm_free_frames p = {}"
    using pmm_frames.alloc_failed by (simp add: sized_def)
qed

definition kernel_sound :: "u64 set \<times> ('c, 'd) kmem \<Rightarrow> bool" where
  "kernel_sound = (\<lambda>(lent, s). vm_inv pmm_ok pmm_free_frames (kernel_pml4 (vm s)) (vm s) \<and> heap_ok (kheap s) \<and>
     lent \<subseteq> frame_range (frames (vm s)) \<and> (\<forall>f \<in> heap_frames (kheap s). frame_addr f))"

definition refines :: "'d bus \<Rightarrow> kernel_op \<Rightarrow> u64 set \<times> ('c, 'd) kmem \<Rightarrow> bool" where
  "refines b op x \<longleftrightarrow> (\<exists>x'. kernel_step b op x = Inr x' \<and> kernel_sound x' \<and> owner_step op (owners x) (owners x'))"

lemma vm_inv_sized: "vm_inv pmm_ok ff R m \<longleftrightarrow> vm_inv (sized (phys_total_pages (frames m))) ff R m"
  by (simp add: vm_inv_def sized_def)

lemma vm_inv_sizedD:
  assumes "vm_inv (sized n) ff R m"
  shows "vm_inv pmm_ok ff R m" and "phys_total_pages (frames m) = n" and "pmm_ok (frames m)"
  using assms by (simp_all add: vm_inv_def sized_def)

lemma frame_range_cong: "phys_total_pages p = phys_total_pages q \<Longrightarrow> frame_range p = frame_range q"
  by (simp add: frame_range_def)

lemma refinesI:
  assumes "kernel_step b op x = Inr (lent, s')" and "vm_inv (sized n) pmm_free_frames (kernel_pml4 (vm s')) (vm s')"
    and "heap_ok (kheap s')" and "lent \<subseteq> frame_range (frames (vm s'))" and "\<forall>f \<in> heap_frames (kheap s'). frame_addr f"
    and "owner_step op (owners x) (owners (lent, s'))"
  shows "refines b op x"
  using assms vm_inv_sizedD(1) by (auto simp: refines_def kernel_sound_def)

lemma kernel_invD:
  assumes "kernel_inv (lent, s)"
  shows "vm_inv (sized (phys_total_pages (frames (vm s)))) pmm_free_frames (kernel_pml4 (vm s)) (vm s)"
    and "pmm_ok (frames (vm s))" and "heap_ok (kheap s)"
    and "lent \<subseteq> frame_range (frames (vm s))" and "\<forall>f \<in> heap_frames (kheap s). frame_addr f"
    and "apart (owners (lent, s))"
  using assms vm_inv_sized by (auto simp: kernel_inv_def vm_inv_def)

lemma heap_frames_cong: "heap_end h' = heap_end h \<Longrightarrow> heap_frames h' = heap_frames h"
  by (simp add: heap_frames_def)

lemma get_frame_refines:
  assumes "kernel_inv (lent, s)"
  shows "refines b GetFrame (lent, s)"
proof -
  note i = kernel_invD [OF assms]
  obtain f p where a: "pmm_alloc (frames (vm s)) = Inr (f, p)"
    using pmm_frames.alloc_total [OF i(2)] by blast
  have p: "sized (phys_total_pages (frames (vm s))) p"
    using pmm_alloc_sized [OF _ a] i(2) by (simp add: sized_def)
  let ?s' = "s\<lparr>vm := (vm s)\<lparr>frames := p\<rparr>\<rparr>"
  have step: "kernel_step b GetFrame (lent, s) = Inr (lent \<union> given f, ?s')"
    by (simp add: a)
  have range: "frame_range p = frame_range (frames (vm s))"
    using p by (intro frame_range_cong) (simp add: sized_def)
  show ?thesis
  proof (cases "f = 0")
    case True
    then have full: "p = frames (vm s)" "pmm_free_frames (frames (vm s)) = {}"
      using pmm_frames.alloc_failed [OF i(2)] a by simp_all
    then have same: "(lent \<union> given f, ?s') = (lent, s)"
      using True by (simp add: given_def)
    have "owner_step GetFrame (owners (lent, s)) (owners (lent, s))"
      using full(2) by (intro owner_step.get_none) (simp add: owners_def)
    then show ?thesis
      using refinesI [OF step [unfolded same] i(1,3,4,5)] by blast
  next
    case False
    note fr = pmm_frames.alloc_frame [OF i(2) a False]
    have g: "lent \<union> given f = insert f lent"
      using False by (simp add: given_def)
    have "owners (insert f lent, ?s') = lend f (owners (lent, s))"
      using fr by (simp add: owners_def lend_def)
    then have "owner_step GetFrame (owners (lent, s)) (owners (insert f lent, ?s'))"
      using fr owner_step.get_frame [of f "owners (lent, s)"] by (simp add: owners_def)
    moreover have "vm_inv (sized (phys_total_pages (frames (vm s)))) pmm_free_frames (kernel_pml4 (vm ?s')) (vm ?s')"
      using i(1) p fr pt_ok_subset [of "pmm_free_frames (frames (vm s))" _ _ "pmm_free_frames p"]
      by (simp add: vm_inv_def Diff_subset)
    moreover have "insert f lent \<subseteq> frame_range (frames (vm ?s'))"
      using i(4) fr frames_in_range [of "frames (vm s)"] range by auto
    ultimately show ?thesis
      using refinesI [OF step [unfolded g]] i(3,5) by simp
  qed
qed

lemma run_frames_pages: "run_frames (of_nat k * PAGE_SIZE) n = (\<lambda>i. of_nat i * PAGE_SIZE) ` {k..<k + n}"
proof -
  have "{k..<k + n} = (\<lambda>i. k + i) ` {..<n}"
    by (simp add: lessThan_atLeast0 image_add_atLeastLessThan add.commute)
  then show ?thesis
    by (simp add: run_frames_def image_image algebra_simps)
qed

text \<open>A run of free frames is a run of free pages.\<close>

lemma run_frames_free:
  assumes "pmm_ok p" and "0 < n" and "run_frames f n \<subseteq> pmm_free_frames p"
  shows "\<exists>k. run_at p n k"
proof -
  have "f \<in> run_frames f n"
    using assms(2) by (auto simp: run_frames_def image_iff intro: bexI [of _ 0])
  then obtain k where k: "f = of_nat k * PAGE_SIZE" "k \<in> usable_set p"
    using assms(3) unfolding pmm_free_frames_def by blast
  have "k + i \<in> usable_set p" if "i < n" for i
    using that
  proof (induction i)
    case (Suc i)
    then have "k + i < unat (phys_total_pages p)"
      using usable_setD by fastforce
    then have le: "k + Suc i \<le> MAX_PAGES"
      using assms(1) by (simp add: pmm_ok_def)
    have "of_nat (k + Suc i) * PAGE_SIZE \<in> run_frames f n"
      unfolding k(1) run_frames_pages by (rule imageI) (use Suc.prems in simp)
    then have "of_nat (k + Suc i) * PAGE_SIZE \<in> pmm_free_frames p"
      using assms(3) by blast
    then obtain j where j: "(of_nat (k + Suc i) :: u64) * PAGE_SIZE = of_nat j * PAGE_SIZE" "j \<in> usable_set p"
      unfolding pmm_free_frames_def by blast
    then have "j < MAX_PAGES"
      using usable_setD by blast
    have "unat (of_nat (k + Suc i) * PAGE_SIZE) = (k + Suc i) * 4096"
    proof -
      have "(of_nat (k + Suc i) :: u64) * PAGE_SIZE = of_nat ((k + Suc i) * 4096)"
        by (simp add: PAGE_SIZE_def)
      then show ?thesis
        using le by (simp only:) (rule unat_of_nat_u64, simp add: MAX_PAGES_def)
    qed
    moreover have "unat (of_nat j * PAGE_SIZE) = j * 4096"
      using unat_page_addr [OF \<open>j < MAX_PAGES\<close>] by simp
    ultimately have "(k + Suc i) * 4096 = j * 4096"
      using j(1) by (simp only:)
    then have "k + Suc i = j"
      by (rule iffD1 [OF mult_right_cancel, rotated]) simp
    then show ?case
      using j(2) by simp
  qed (use k in simp)
  then have "{k..<k + n} \<subseteq> usable_set p"
    by (auto simp: le_iff_add)
  moreover have "k + (n - 1) \<in> usable_set p"
    using calculation assms(2) by auto
  ultimately have "run_at p n k"
    using usable_setD [OF k(2)] usable_setD [of "k + (n - 1)" p] assms(2)
    unfolding run_at_def by (auto simp: usable_set_def)
  then show ?thesis ..
qed

lemma get_run_refines:
  assumes "kernel_inv (lent, s)"
  shows "refines b (GetRun n) (lent, s)"
proof -
  note i = kernel_invD [OF assms]
  let ?p = "frames (vm s)" and ?o = "owners (lent, s)"
  from i(2) show ?thesis
  proof (cases rule: pmm_alloc_contiguous_cases [where n = n])
    case none
    have "n = 0 \<or> (\<forall>f. \<not> run_frames f (unat n) \<subseteq> o_free ?o)"
      using none(2) run_frames_free [OF i(2), of "unat n"] by (auto simp: owners_def unat_gt_0)
    then have "owner_step (GetRun n) ?o ?o"
      by (rule owner_step.get_no_run)
    then show ?thesis
      using none(1) i by (intro refinesI [where s' = s and lent = lent]) simp_all
  next
    case (run k p)
    let ?F = "run_frames (of_nat k * PAGE_SIZE) (unat n)" and ?s' = "s\<lparr>vm := (vm s)\<lparr>frames := p\<rparr>\<rparr>"
    have at: "run_at ?p (unat n) k"
      using run(3) by (simp add: first_run_def)
    then have k: "512 \<le> k" "k < MAX_PAGES" and sub: "{k..<k + unat n} \<subseteq> usable_set ?p"
      using i(2) run(4) by (auto simp: run_at_def usable_set_def pmm_ok_def word_less_nat_alt)
    have F: "?F \<subseteq> pmm_free_frames ?p"
      using sub by (auto simp: run_frames_pages pmm_free_frames_def)
    have inj: "inj_on (\<lambda>i. of_nat i * PAGE_SIZE) (usable_set ?p)"
      by (auto simp: inj_on_def intro: page_addr_inj dest: usable_setD)
    have "usable_set p = usable_set ?p - {k..<k + unat n}"
      using run(2) by (auto simp: takes_def usable_set_def)
    then have free: "pmm_free_frames p = pmm_free_frames ?p - ?F"
      using inj_on_image_set_diff [OF inj Diff_subset sub] by (simp add: pmm_free_frames_def run_frames_pages)
    have p: "sized (phys_total_pages ?p) p"
      using run(2) i(2) takes_ok [OF run(2)] by (simp add: sized_def takes_def)
    then have range: "frame_range p = frame_range ?p"
      by (intro frame_range_cong) (simp add: sized_def)
    have step: "kernel_step b (GetRun n) (lent, s) = Inr (lent \<union> ?F, ?s')"
      using run(1) page_addr_neq_0 [OF k] by simp
    have "owners (lent \<union> ?F, ?s') = lend_all ?F ?o"
      using free by (simp add: owners_def lend_all_def)
    then have "owner_step (GetRun n) ?o (owners (lent \<union> ?F, ?s'))"
      using owner_step.get_run [OF run(4), of "of_nat k * PAGE_SIZE" ?o] F by (simp add: owners_def)
    moreover have "vm_inv (sized (phys_total_pages ?p)) pmm_free_frames (kernel_pml4 (vm ?s')) (vm ?s')"
      using i(1) p free pt_ok_subset [of "pmm_free_frames ?p" _ _ "pmm_free_frames p"]
      by (simp add: vm_inv_def Diff_subset)
    moreover have "lent \<union> ?F \<subseteq> frame_range (frames (vm ?s'))"
      using i(4) F frames_in_range [of ?p] range by auto
    ultimately show ?thesis
      using refinesI [OF step] i(3,5) by simp
  qed
qed

lemma put_frame_refines:
  assumes "kernel_inv (lent, s)" and "f \<in> lent"
  shows "refines b (PutFrame f) (lent, s)"
proof -
  note i = kernel_invD [OF assms(1)]
  obtain p where p: "pmm_free f (frames (vm s)) = Inr p" "pmm_ok p"
      "phys_total_pages p = phys_total_pages (frames (vm s))"
      "pmm_free_frames p = insert f (pmm_free_frames (frames (vm s)))"
    using pmm_free_frame [OF i(2)] i(4) assms(2) by blast
  let ?s' = "s\<lparr>vm := (vm s)\<lparr>frames := p\<rparr>\<rparr>"
  have "f \<notin> tables (cells (vm s)) (kernel_pml4 (vm s))"
    using i(6) assms(2) by (auto simp: apart_def owners_def)
  then have "vm_inv (sized (phys_total_pages p)) pmm_free_frames (kernel_pml4 (vm ?s')) (vm ?s')"
    using i(1) p by (auto simp: vm_inv_def sized_def pt_ok_def tables_def)
  moreover have "owner_step (PutFrame f) (owners (lent, s)) (owners (lent - {f}, ?s'))"
    using owner_step.put_frame [of f "owners (lent, s)"] assms(2) p(4) by (simp add: owners_def)
  ultimately show ?thesis
    using p(1,3) i(3,4,5) frame_range_cong [of p "frames (vm s)"]
    by (intro refinesI [where s' = ?s' and lent = "lent - {f}"]) auto
qed

lemma vm_inv_range:
  assumes "vm_inv (sized (phys_total_pages (frames (vm s)))) ff R m"
  shows "frame_range (frames m) = frame_range (frames (vm s))"
  using vm_inv_sizedD(2) [OF assms] by (rule frame_range_cong)

lemma owners_vm:
  "owners (lent, s\<lparr>vm := m\<rparr>) = (owners (lent, s))\<lparr>o_free := pmm_free_frames (frames m),
     o_tables := tables (cells m) (kernel_pml4 m), entry_of := pt_view (cells m) (kernel_pml4 m)\<rparr>"
  by (simp add: owners_def)

lemma map_page_refines:
  assumes "kernel_inv (lent, s)"
  shows "refines b (MapPage v phys flags) (lent, s)"
proof -
  note i = kernel_invD [OF assms]
  let ?R = "kernel_pml4 (vm s)" and ?o = "owners (lent, s)"
  from i(1) show ?thesis
  proof (cases rule: sized_frames.vmm_map_spec [where v = v and phys = phys and flags = flags])
    case (mapped m)
    then obtain N where N: "N \<subseteq> pmm_free_frames (frames (vm s))"
      "pmm_free_frames (frames m) = pmm_free_frames (frames (vm s)) - N"
      "tables (cells m) ?R = tables (cells (vm s)) ?R \<union> N"
      by (auto simp: grows_def)
    have "owners (lent, s\<lparr>vm := m\<rparr>) = set_page v (pte_value phys flags) (into_tables N ?o)"
      unfolding owners_vm using mapped(3,5) N by (simp add: owners_def owner_defs cong: if_cong)
    moreover have "N \<subseteq> o_free ?o"
      using N(1) by (simp add: owners_def)
    ultimately have "owner_step (MapPage v phys flags) ?o (owners (lent, s\<lparr>vm := m\<rparr>))"
      using owner_step.map_page by simp
    then show ?thesis
      using mapped(1,2,5) i(3,4,5) vm_inv_range [OF mapped(2)]
      by (intro refinesI [where s' = "s\<lparr>vm := m\<rparr>" and lent = lent]) simp_all
  next
    case (full m)
    then obtain N where N: "N \<subseteq> pmm_free_frames (frames (vm s))"
      "pmm_free_frames (frames m) = pmm_free_frames (frames (vm s)) - N"
      "tables (cells m) ?R = tables (cells (vm s)) ?R \<union> N"
      by (auto simp: grows_def)
    have R: "kernel_pml4 m = ?R" "pt_view (cells m) ?R = pt_view (cells (vm s)) ?R"
      using full(3) by (simp_all add: same_map_def)
    have "owners (lent, s\<lparr>vm := m\<rparr>) = into_tables N ?o"
      unfolding owners_vm using R N by (simp add: owners_def owner_defs)
    moreover have "N \<subseteq> o_free ?o" "card (o_free ?o) < 3"
      using N(1) full(5) by (simp_all add: owners_def)
    ultimately have "owner_step (MapPage v phys flags) ?o (owners (lent, s\<lparr>vm := m\<rparr>))"
      using owner_step.map_full by simp
    then show ?thesis
      using full(1,2) R(1) i(3,4,5) vm_inv_range [OF full(2)]
      by (intro refinesI [where s' = "s\<lparr>vm := m\<rparr>" and lent = lent]) simp_all
  qed
qed

lemma unmap_page_refines:
  assumes "kernel_inv (lent, s)"
  shows "refines b (UnmapPage v) (lent, s)"
proof -
  note i = kernel_invD [OF assms]
  let ?R = "kernel_pml4 (vm s)" and ?o = "owners (lent, s)"
  obtain m where m: "vmm_unmap pmm_alloc ?R v (vm s) = Inr m"
      "vm_inv (sized (phys_total_pages (frames (vm s)))) pmm_free_frames ?R m"
      "pt_view (cells m) ?R = (\<lambda>w. if same_page w v \<and> present (pt_view (cells (vm s)) ?R v) then 0
         else pt_view (cells (vm s)) ?R w)"
      "kernel_pml4 m = ?R" "frames m = frames (vm s)" "tables (cells m) ?R = tables (cells (vm s)) ?R"
    using sized_frames.vmm_unmap_spec [OF i(1), of v] by blast
  have "owners (lent, s\<lparr>vm := m\<rparr>) = (if present (entry_of ?o v) then set_page v 0 ?o else ?o)"
    unfolding owners_vm m(3-6) by (simp add: owners_def owner_defs cong: if_cong)
  then have "owner_step (UnmapPage v) ?o (owners (lent, s\<lparr>vm := m\<rparr>))"
    using owner_step.unmap_page by simp
  then show ?thesis
    using m(1,2,4) i(3,4,5) vm_inv_range [OF m(2)]
    by (intro refinesI [where s' = "s\<lparr>vm := m\<rparr>" and lent = lent]) simp_all
qed

text \<open>What keeps the end of the heap leaves its frames.\<close>

lemma heap_call_refines:
  assumes "kernel_inv (lent, s)" and "kernel_step b op (lent, s) = Inr (lent, s\<lparr>kheap := h\<rparr>)"
    and "heap_ok h" and "heap_end h = heap_end (kheap s)" and "\<And>a. owner_step op a a"
  shows "refines b op (lent, s)"
proof -
  note i = kernel_invD [OF assms(1)]
  have hf: "heap_frames h = heap_frames (kheap s)"
    using assms(4) by (rule heap_frames_cong)
  then have "owners (lent, s\<lparr>kheap := h\<rparr>) = owners (lent, s)"
    by (simp add: owners_def)
  then have "owner_step op (owners (lent, s)) (owners (lent, s\<lparr>kheap := h\<rparr>))"
    using assms(5) by simp
  then show ?thesis
    using assms(2,3) hf i by (intro refinesI [where s' = "s\<lparr>kheap := h\<rparr>" and lent = lent]) simp_all
qed

lemma allocate_refines:
  assumes "kernel_inv (lent, s)" and "unat n \<le> KMALLOC_LIMIT"
  shows "refines b (Allocate n) (lent, s)"
proof -
  obtain p h where k: "kmalloc n (kheap s) = (p, h)"
    by fastforce
  note h = kmalloc_ok [OF kernel_invD(3) [OF assms(1)] assms(2) k]
  show ?thesis
    using heap_call_refines [OF assms(1), of b "Allocate n" h] k h owner_step.allocate by simp
qed

lemma allocate_aligned_refines:
  assumes "kernel_inv (lent, s)" and "heap_valid (Aligned n align)"
  shows "refines b (AllocateAligned n align) (lent, s)"
proof -
  obtain p h where k: "kmalloc_aligned n align (kheap s) = (p, h)"
    by fastforce
  then have "heap_call (Aligned n align) (kheap s) = (p, h)"
    by simp
  note h = heap_call_facts [OF kernel_invD(3) [OF assms(1)] assms(2) this]
  show ?thesis
    using heap_call_refines [OF assms(1), of b "AllocateAligned n align" h] k h owner_step.allocate_aligned by simp
qed

lemma release_refines:
  assumes "kernel_inv (lent, s)"
  shows "refines b (Release p) (lent, s)"
  using heap_call_refines [OF assms, of b "Release p" "kheap s"] kernel_invD(3) [OF assms] owner_step.release
  by (simp add: kfree_def)

lemma write_refines:
  assumes "kernel_inv (lent, s)" and "f \<in> lent \<union> heap_frames (kheap s)" and "k < 512"
  shows "refines b (Write f k e) (lent, s)"
proof -
  note i = kernel_invD [OF assms(1)]
  let ?R = "kernel_pml4 (vm s)" and ?m = "write_cell (slot f k) e (vm s)"
  have "frame_addr f"
    using assms(2) i(2,4,5) frame_range_addr by auto
  moreover have "f \<notin> tables (cells (vm s)) ?R"
    using assms(2) i(6) by (auto simp: apart_def owners_def)
  moreover have "pt_ok (pmm_free_frames (frames (vm s))) (cells (vm s)) ?R"
    using i(1) by (simp add: vm_inv_def)
  ultimately have w: "pt_ok (pmm_free_frames (frames (vm s))) (cells ?m) ?R"
      "tables (cells ?m) ?R = tables (cells (vm s)) ?R" "pt_view (cells ?m) ?R = pt_view (cells (vm s)) ?R"
    using other_write [of _ "cells (vm s)" ?R f k e] assms(3) by (simp_all add: write_cell_def)
  have "owners (lent, s\<lparr>vm := ?m\<rparr>) = owners (lent, s)"
    using w(2,3) by (simp add: owners_def write_cell_def)
  then have "owner_step (Write f k e) (owners (lent, s)) (owners (lent, s\<lparr>vm := ?m\<rparr>))"
    using owner_step.write_own [of f "owners (lent, s)"] assms(2) by (simp add: owners_def)
  moreover have "vm_inv (sized (phys_total_pages (frames (vm s)))) pmm_free_frames ?R ?m"
    using i(1) w(1) by (simp add: vm_inv_def write_cell_def)
  ultimately show ?thesis
    using i(3,4,5) by (intro refinesI [where s' = "s\<lparr>vm := ?m\<rparr>" and lent = lent]) (simp_all add: write_cell_def)
qed

text \<open>An interrupt changes nothing of the interrupt state but what the acknowledgement does to the devices.\<close>

lemma interrupt_none:
  assumes "user_handlers (irqs s) vec = None"
  shows "\<exists>d. interrupt b vec error_code cr2 s = Inr ([], s\<lparr>irqs := (irqs s)\<lparr>dev := d\<rparr>\<rparr>)"
proof (cases "hardware_irq vec")
  case False
  then have "interrupt b vec error_code cr2 s = Inr ([], s\<lparr>irqs := (irqs s)\<lparr>dev := dev (irqs s)\<rparr>\<rparr>)"
    using assms by (cases s) (simp add: interrupt_def idt_dispatch_def)
  then show ?thesis ..
qed (use assms in \<open>simp add: interrupt_def idt_dispatch_def, blast\<close>)

lemma interrupt_handled:
  assumes "user_handlers (irqs s) vec = Some h"
    and "swap_page_fault_handler pmm_alloc cr2 (vm s, sw s) = Inr (r, m, w)"
  shows "\<exists>d. interrupt b vec error_code cr2 s = Inr ([r], s\<lparr>vm := m, sw := w, irqs := (irqs s)\<lparr>dev := d\<rparr>\<rparr>)"
proof (cases "hardware_irq vec")
  case False
  then have "interrupt b vec error_code cr2 s = Inr ([r], s\<lparr>vm := m, sw := w, irqs := (irqs s)\<lparr>dev := dev (irqs s)\<rparr>\<rparr>)"
    using assms by (cases s) (simp add: interrupt_def idt_dispatch_def run_handler_def)
  then show ?thesis ..
qed (use assms in \<open>simp add: interrupt_def idt_dispatch_def run_handler_def, blast\<close>)

lemma unhandled_refines:
  assumes "kernel_inv (lent, s)" and "user_handlers (irqs s) vec = None"
  shows "refines b (Interrupt vec error_code cr2) (lent, s)"
proof -
  note i = kernel_invD [OF assms(1)]
  obtain j where j: "interrupt b vec error_code cr2 s = Inr ([], s\<lparr>irqs := j\<rparr>)" "user_handlers j = user_handlers (irqs s)"
    using interrupt_none [of s vec b error_code cr2] assms(2) by fastforce
  have "owners (lent, s\<lparr>irqs := j\<rparr>) = owners (lent, s)"
    using j(2) by (simp add: owners_def)
  then have "owner_step (Interrupt vec error_code cr2) (owners (lent, s)) (owners (lent, s\<lparr>irqs := j\<rparr>))"
    using owner_step.no_swap_in [of "owners (lent, s)" vec cr2] assms(2) by (simp add: owners_def)
  then show ?thesis
    using j(1) i by (intro refinesI [where s' = "s\<lparr>irqs := j\<rparr>" and lent = lent]) simp_all
qed

text \<open>A fault the handler can do nothing about.\<close>

lemma idle_fault_refines:
  assumes "kernel_inv (lent, s)" and some: "user_handlers (irqs s) vec = Some h"
    and run: "swap_page_fault_handler pmm_alloc cr2 (vm s, sw s) = Inr (r, vm s, sw s)"
    and none: "\<not> swapped (pt_view (cells (vm s)) (kernel_pml4 (vm s)) cr2) \<or> pmm_free_frames (frames (vm s)) = {}"
    and out: "swapped_in [r] = {}"
  shows "refines b (Interrupt vec error_code cr2) (lent, s)"
proof -
  note i = kernel_invD [OF assms(1)]
  obtain j where j: "interrupt b vec error_code cr2 s = Inr ([r], s\<lparr>vm := vm s, sw := sw s, irqs := j\<rparr>)"
      "user_handlers j = user_handlers (irqs s)"
    using interrupt_handled [OF some run, of b error_code] by fastforce
  have "owners (lent, s\<lparr>irqs := j\<rparr>) = owners (lent, s)"
    using j(2) by (simp add: owners_def)
  then have "owner_step (Interrupt vec error_code cr2) (owners (lent, s)) (owners (lent, s\<lparr>irqs := j\<rparr>))"
    using owner_step.no_swap_in [of "owners (lent, s)" vec cr2] none by (simp add: owners_def)
  then show ?thesis
    using j(1) i out by (intro refinesI [where s' = "s\<lparr>irqs := j\<rparr>" and lent = lent]) simp_all
qed

lemma interrupt_refines:
  assumes "kernel_inv (lent, s)"
  shows "refines b (Interrupt vec error_code cr2) (lent, s)"
proof (cases "user_handlers (irqs s) vec")
  case None
  then show ?thesis
    by (rule unhandled_refines [OF assms])
next
  case (Some h)
  note i = kernel_invD [OF assms]
  note idle = idle_fault_refines [OF assms Some]
  let ?R = "kernel_pml4 (vm s)" and ?o = "owners (lent, s)" and ?op = "Interrupt vec error_code cr2"
  have handled: "handled ?o vec"
    using Some by (simp add: owners_def)
  from i(1) refl show ?thesis
  proof (cases rule: sized_frames.swap_page_fault_cases [where v = cr2 and w = "sw s"])
    case no_pte
    then have "\<not> swapped (pt_view (cells (vm s)) ?R cr2)"
      using swapped_leaf by blast
    with no_pte show ?thesis
      using idle by simp
  next
    case unexpected
    then show ?thesis
      using idle by simp
  next
    case no_frame
    then show ?thesis
      using idle by simp
  next
    case (swapped_in f m)
    let ?w = "(sw s)\<lparr>swap_used := swap_used (sw s) - 1\<rparr>"
    obtain j r where j: "interrupt b vec error_code cr2 s = Inr ([r], s\<lparr>vm := m, sw := ?w, irqs := j\<rparr>)"
        "user_handlers j = user_handlers (irqs s)" "swapped_in [r] = {f}"
      using interrupt_handled [OF Some swapped_in(5), of b error_code] by fastforce
    let ?s' = "s\<lparr>vm := m, sw := ?w, irqs := j\<rparr>"
    have "owners (insert f lent, ?s') = set_page cr2 (swap_in_pte f) (lend f ?o)"
      using swapped_in(4,7,9,11) j(2) by (simp add: owners_def owner_defs cong: if_cong)
    then have "owner_step ?op ?o (owners (insert f lent, ?s'))"
      using owner_step.swap_in [OF handled, of cr2 f] swapped_in(1,3) by (simp add: owners_def)
    moreover have "insert f lent \<subseteq> frame_range (frames m)"
      using i(4) swapped_in(3) frames_in_range [of "frames (vm s)"] vm_inv_range [OF swapped_in(6)] by auto
    ultimately show ?thesis
      using j(1,3) swapped_in(6,9) i(3,5)
      by (intro refinesI [where s' = ?s' and lent = "insert f lent"]) simp_all
  qed
qed

lemma kernel_step_refines:
  assumes "kernel_inv x" and "kernel_allowed op x"
  shows "refines b op x"
proof (cases x)
  case (Pair lent s)
  then show ?thesis
    using assms
    by (cases op) (simp_all only: kernel_allowed.simps get_frame_refines get_run_refines put_frame_refines
        map_page_refines unmap_page_refines allocate_refines allocate_aligned_refines release_refines write_refines
        interrupt_refines)
qed

lemma kernel_invI: "kernel_sound x \<Longrightarrow> apart (owners x) \<Longrightarrow> kernel_inv x"
  by (cases x) (simp add: kernel_sound_def kernel_inv_def)

lemma kernel_inv_apart: "kernel_inv x \<Longrightarrow> apart (owners x)"
  by (cases x) (simp add: kernel_inv_def)

lemma kernel_step_owners:
  assumes "kernel_inv x" and "kernel_allowed op x" and "kernel_step b op x = Inr x'"
  shows "owner_step op (owners x) (owners x')"
  using kernel_step_refines [OF assms(1,2), of b] assms(3) by (simp add: refines_def)

interpretation kernel_sys: invariant_system "kernel_step b" kernel_allowed kernel_inv for b :: "'d bus"
proof unfold_locales
  fix x x' :: "u64 set \<times> ('c, 'd) kmem" and op
  assume i: "kernel_inv x" "kernel_allowed op x"
  then obtain y where y: "kernel_step b op x = Inr y" "kernel_sound y" "owner_step op (owners x) (owners y)"
    using kernel_step_refines unfolding refines_def by blast
  show "\<exists>x'. kernel_step b op x = Inr x'"
    using y(1) by blast
  assume "kernel_step b op x = Inr x'"
  then show "kernel_inv x'"
    using y owner_step_apart [OF y(3) kernel_inv_apart [OF i(1)]] kernel_invI by simp
qed

text \<open>What holds of the owners after any run: the heap keeps its frames, no table is given up.\<close>

lemma kernel_run_owners:
  assumes "kernel_sys.run b x ops x'" and "kernel_inv x"
  shows "kernel_inv x' \<and> o_heap (owners x') = o_heap (owners x) \<and> o_tables (owners x) \<subseteq> o_tables (owners x') \<and>
    handled (owners x') = handled (owners x)"
  using assms
proof (induction rule: kernel_sys.run.induct)
  case (run_cons op x x1 ops x2)
  note st = kernel_step_owners [OF run_cons.prems run_cons.hyps(1,2)]
  have "kernel_inv x1"
    using kernel_sys.step_inv [OF run_cons.prems run_cons.hyps(1,2)] .
  then show ?case
    using run_cons.IH owner_step_heap [OF st] owner_step_tables [OF st] owner_step_handled [OF st] by auto
qed simp

subsection \<open>The machine after start-up\<close>

lemma memory_init_kernel_inv:
  fixes s :: "('c, 'd) kmem"
  assumes "kmem_static c boot_cr3 s" and "dsz \<noteq> 0" and "mmap_count m a sz dsz \<le> MAX_PAGES"
    and "memory_init b m a sz dsz s = Inr s0" and "kernel_pml4 (vm s0) \<noteq> 0"
  shows "kernel_inv ({}, s0)" and "user_handlers (irqs s0) 14 = Some SwapPageFault"
proof -
  let ?R = "kernel_pml4 (vm s0)" and ?h = "kheap s0"
  obtain s' where init: "memory_init b m a sz dsz s = Inr s'" and spec: "pmm_ok (frames (vm s'))" "heap_ok (kheap s')"
      "kernel_pml4 (vm s') \<noteq> 0 \<longrightarrow> vm_inv pmm_ok pmm_free_frames (kernel_pml4 (vm s')) (vm s')
        \<and> cr3 (vm s') = kernel_pml4 (vm s')
        \<and> (\<forall>q T i. valid_path q \<longrightarrow> tbl (cells (vm s')) (kernel_pml4 (vm s')) q = Some T \<longrightarrow>
             i < 4096 \<longrightarrow> heap_ptr (kheap s') \<noteq> 0 \<longrightarrow> phys_ptr T \<noteq> heap_ptr (kheap s') + of_nat i * PAGE_SIZE)"
      "user_handlers (irqs s') 14 = Some SwapPageFault"
      "heap_end (kheap s') = (if heap_ptr (kheap s') = 0 then 0 else heap_ptr (kheap s') + HEAP_INITIAL_SIZE)"
      "\<forall>i < 4096. heap_ptr (kheap s') \<noteq> 0 \<longrightarrow>
         heap_ptr (kheap s') + of_nat i * PAGE_SIZE - VIRT_PHYS_MAP_BASE \<notin> pmm_free_frames (frames (vm s')) \<and>
         frame_addr (heap_ptr (kheap s') + of_nat i * PAGE_SIZE - VIRT_PHYS_MAP_BASE)"
    using memory_init_spec [OF assms(1-3), of b] by blast
  have s': "s' = s0"
    using init assms(4) by simp
  note spec = spec [unfolded s']
  have inv: "vm_inv pmm_ok pmm_free_frames ?R (vm s0)"
    using spec(3) assms(5) by simp
  have tab: "phys_ptr T \<noteq> heap_ptr ?h + of_nat i * PAGE_SIZE"
    if "T \<in> tables (cells (vm s0)) ?R" "i < 4096" "heap_ptr ?h \<noteq> 0" for T i
    using spec(3) assms(5) that unfolding tables_def by blast
  have hf: "\<exists>i < 4096. f = heap_ptr ?h + of_nat i * PAGE_SIZE - VIRT_PHYS_MAP_BASE \<and> heap_ptr ?h \<noteq> 0"
    if "f \<in> heap_frames ?h" for f
    using that spec(5) by (auto simp: heap_frames_def algebra_simps split: if_splits)
  have "f \<notin> tables (cells (vm s0)) ?R" if f: "f \<in> heap_frames ?h" for f
  proof
    assume t: "f \<in> tables (cells (vm s0)) ?R"
    obtain i where i: "i < 4096" "f = heap_ptr ?h + of_nat i * PAGE_SIZE - VIRT_PHYS_MAP_BASE" "heap_ptr ?h \<noteq> 0"
      using hf [OF f] by blast
    then have "phys_ptr f = heap_ptr ?h + of_nat i * PAGE_SIZE"
      by (simp add: phys_ptr_def)
    with tab [OF t i(1,3)] show False ..
  qed
  moreover have "f \<notin> pmm_free_frames (frames (vm s0)) \<and> frame_addr f" if "f \<in> heap_frames ?h" for f
    using hf [OF that] spec(6) by blast
  moreover have "pmm_free_frames (frames (vm s0)) \<inter> tables (cells (vm s0)) ?R = {}"
    using inv by (auto simp: vm_inv_def tables_def dest: pt_ok_frame)
  ultimately show "kernel_inv ({}, s0)"
    using inv spec(2) by (auto simp: kernel_inv_def apart_def owners_def)
  show "user_handlers (irqs s0) 14 = Some SwapPageFault"
    by (rule spec(4))
qed

text \<open>There are tables as soon as the map has a page above the first 512 and below its own size.\<close>

lemma memory_init_active:
  fixes s :: "('c, 'd) kmem"
  assumes "kmem_static c boot_cr3 s" and "dsz \<noteq> 0" and "mmap_count m a sz dsz \<le> MAX_PAGES"
    and page: "k \<in> mmap_pages m a sz dsz" "512 \<le> k" "k < mmap_count m a sz dsz"
  shows "\<exists>s0. memory_init b m a sz dsz s = Inr s0 \<and> kernel_pml4 (vm s0) \<noteq> 0"
proof -
  obtain p where p: "pmm_init m a sz dsz pmm_static = Inr p" "free_set p = mmap_pages m a sz dsz - {..<512}"
      "phys_total_pages p = of_nat (mmap_count m a sz dsz)"
    using pmm_init_eq [OF assms(2), of m a sz pmm_static] by (auto simp: pmm_static_def)
  have total: "unat (phys_total_pages p) = mmap_count m a sz dsz"
    unfolding p(3) using assms(3) by (intro unat_of_nat_u64) (simp add: MAX_PAGES_def)
  have ok: "pmm_ok p"
    using assms(3) by (simp add: pmm_ok_def total)
  have "k \<in> usable_set p"
    using page by (simp add: usable_set_def p(2) total)
  then have some: "pmm_free_frames p \<noteq> {}"
    by (auto simp: pmm_free_frames_def)
  let ?v0 = "(vm s)\<lparr>frames := p\<rparr>"
  have v0: "pmm_ok (frames ?v0)"
    using ok by simp
  obtain v where v: "vmm_init pmm_alloc ?v0 = Inr v" "kernel_pml4 v \<noteq> 0" "pmm_ok (frames v)"
    by (rule pmm_frames.vmm_init_spec [OF v0]) (use some in \<open>auto simp: vm_inv_def\<close>)
  obtain q h where "kmalloc_init (frames v, heap_static) = Inr (q, h)"
    by (rule kmalloc_init_pages [OF v(3)]) blast
  then show ?thesis
    using p(1) v(1,2) assms(1) by (simp add: memory_init_def kmem_static_def swap_init_def)
qed

lemma swap_in_translation:
  assumes "frame_addr f"
  shows "translation (swap_in_pte f) v = f OR (v AND 0xFFF)"
  using table_entry [OF assms] by (simp add: translation_def swap_in_pte_def)

subsection \<open>Properties\<close>

text \<open>C1: The kernel's memory refines its specification. The callers keep a discipline: \<open>pmm_free\<close> is called only with
  a frame that is handed out at that moment; \<open>kmalloc\<close> and \<open>kmalloc_aligned\<close> are asked for at most 2\<open>^\<close>46 bytes, aligned
  to a power of two up to 2\<open>^\<close>46; a word is written only into a frame that is handed out or belongs to the heap.
  \<open>pmm_alloc\<close>, \<open>pmm_alloc_contiguous\<close>, \<open>vmm_map\<close> and \<open>vmm_unmap\<close> of the kernel's own tables, \<open>kfree\<close> and interrupts with
  any faulting address are unrestricted. From any state that keeps the invariant (page tables well formed, heap well
  formed, no frame with two owners), each of these calls runs without a fault, and what it does to the owners of
  the frames and to the mapping of every page is a step of the specification; the invariant holds again.\<close>

theorem kernel_memory_refines:
  assumes "kernel_inv x" and "kernel_allowed op x"
  shows "\<exists>x'. kernel_step b op x = Inr x' \<and> owner_step op (owners x) (owners x') \<and> kernel_inv x'"
  using kernel_step_refines [OF assms, of b] kernel_sys.step_inv [OF assms, of b] by (auto simp: refines_def)

text \<open>A machine with 1024 usable pages from address 0 on.\<close>

definition efi_low :: byte_mem where
  "efi_low = (\<lambda>_. 0)(0x1000 := 7, 0x1019 := 4)"

lemma efi_low_pages: "mmap_pages efi_low 0x1000 40 40 = {..<1024}" "mmap_count efi_low 0x1000 40 40 = 1024"
proof -
  have d: "mmap_desc efi_low 0x1000 40 0 =
      \<lparr>efi_type = 7, efi_pad = 0, phys_start = 0, virt_start = 0, num_pages = 1024, efi_attr = 0\<rparr>"
    by (simp add: mmap_desc_def load_descriptor_def load64_def load32_def efi_low_def)
  have "unat (PAGE_INDEX 0 + of_nat p) = p" if "p < 1024" for p
    using that unat_of_nat_u64 [of p] by (simp add: PAGE_INDEX_def)
  then have "region_pages (mmap_desc efi_low 0x1000 40 0) = {..<1024}"
    unfolding d by (auto simp: region_pages_def efi_usable_def MAX_PAGES_def)
  then show "mmap_pages efi_low 0x1000 40 40 = {..<1024}" "mmap_count efi_low 0x1000 40 40 = 1024"
    by (simp_all add: mmap_pages_def mmap_count_def lessThan_Suc)
qed

lemma low_machine:
  obtains s0 where "memory_init trace_bus efi_low 0x1000 40 40 kmem_sample = Inr s0" "kernel_pml4 (vm s0) \<noteq> 0"
    "kernel_inv ({}, s0)" "user_handlers (irqs s0) 14 = Some SwapPageFault"
proof -
  have z: "kmem_static (\<lambda>_. 0) 0 kmem_sample"
    by (simp add: kmem_static_def kmem_sample_def)
  have m: "mmap_count efi_low 0x1000 40 40 \<le> MAX_PAGES" "(40 :: u64) \<noteq> 0"
    by (simp_all add: efi_low_pages MAX_PAGES_def)
  obtain s0 where s0: "memory_init trace_bus efi_low 0x1000 40 40 kmem_sample = Inr s0" "kernel_pml4 (vm s0) \<noteq> 0"
    using memory_init_active [OF z m(2,1), of 600 trace_bus] by (auto simp: efi_low_pages)
  with memory_init_kernel_inv [OF z m(2,1) s0] show thesis
    using that by blast
qed

theorem kernel_memory_refines_witness:
  "\<exists>s0 x1 x'. memory_init trace_bus efi_low 0x1000 40 40 kmem_sample = Inr s0 \<and>
    kernel_step trace_bus (GetRun 3) ({}, s0) = Inr x1 \<and>
    kernel_step trace_bus (Interrupt 14 0 0xB8000) x1 = Inr x' \<and> kernel_inv x'"
proof -
  obtain s0 where s0: "memory_init trace_bus efi_low 0x1000 40 40 kmem_sample = Inr s0" "kernel_inv ({}, s0)"
    by (rule low_machine)
  obtain x1 where x1: "kernel_step trace_bus (GetRun 3) ({}, s0) = Inr x1" "kernel_inv x1"
    using kernel_memory_refines [OF s0(2) always_allowed(2)] by blast
  then show ?thesis
    using kernel_memory_refines [OF x1(2) always_allowed(6)] s0(1) by blast
qed

text \<open>C28: Owning a frame gives no power over translations: no word written into a frame that was handed out or
  belongs to the heap changes the translation of any address.\<close>

theorem writes_keep_translations:
  assumes "kernel_inv (lent, s)" and "f \<in> lent \<union> heap_frames (kheap s)" and "i < 512"
  shows "\<exists>s'. kernel_step b (Write f i e) (lent, s) = Inr (lent, s') \<and> kernel_pml4 (vm s') = kernel_pml4 (vm s) \<and>
    vmm_virt_to_phys pmm_alloc (kernel_pml4 (vm s)) v (vm s') = vmm_virt_to_phys pmm_alloc (kernel_pml4 (vm s)) v (vm s)"
proof -
  have allowed: "kernel_allowed (Write f i e) (lent, s)"
    using assms(2,3) by simp
  let ?s' = "s\<lparr>vm := write_cell (slot f i) e (vm s)\<rparr>"
  have step: "kernel_step b (Write f i e) (lent, s) = Inr (lent, ?s')"
    by simp
  have "entry_of (owners (lent, ?s')) = entry_of (owners (lent, s))"
    using kernel_step_owners [OF assms(1) allowed step] by (rule owner_writeE) simp
  then have "pt_view (cells (vm ?s')) (kernel_pml4 (vm s)) = pt_view (cells (vm s)) (kernel_pml4 (vm s))"
    by (simp add: owners_def write_cell_def)
  then show ?thesis
    using step by (intro exI [of _ ?s']) (simp add: vmm_virt_to_phys_view write_cell_def)
qed

text \<open>C23: A page fault delivered through the interrupt table while a frame is free gives a page marked as swapped a
  frame of its own, that was free: afterwards the faulting address translates into it, the frame
  is handed out, and no other page has changed.\<close>

theorem swap_in_delivered:
  assumes "kernel_inv (lent, s)" and "user_handlers (irqs s) 14 = Some SwapPageFault"
    and "swapped (pt_view (cells (vm s)) (kernel_pml4 (vm s)) v)" and "pmm_free_frames (frames (vm s)) \<noteq> {}"
  shows "\<exists>f s'. f \<in> pmm_free_frames (frames (vm s)) \<and>
    kernel_step b (Interrupt 14 error_code v) (lent, s) = Inr (insert f lent, s') \<and> kernel_inv (insert f lent, s') \<and>
    vmm_virt_to_phys pmm_alloc (kernel_pml4 (vm s')) v (vm s') = Inr (f OR (v AND 0xFFF)) \<and>
    (\<forall>w. same_page w v \<or> pt_view (cells (vm s')) (kernel_pml4 (vm s')) w = pt_view (cells (vm s)) (kernel_pml4 (vm s)) w)"
proof -
  let ?op = "Interrupt 14 error_code v"
  have allowed: "kernel_allowed ?op (lent, s)"
    by simp
  obtain lent' s' where step: "kernel_step b ?op (lent, s) = Inr (lent', s')" "kernel_inv (lent', s')"
      "owner_step ?op (owners (lent, s)) (owners (lent', s'))"
    using kernel_step_refines [OF assms(1) allowed, of b] kernel_sys.step_inv [OF assms(1) allowed, of b]
    unfolding refines_def by (metis prod.exhaust)
  have o: "handled (owners (lent, s)) 14" "swapped (entry_of (owners (lent, s)) v)" "o_free (owners (lent, s)) \<noteq> {}"
    using assms(2-4) by (simp_all add: owners_def)
  obtain f where f: "f \<in> o_free (owners (lent, s))"
      "owners (lent', s') = set_page v (swap_in_pte f) (lend f (owners (lent, s)))"
    using step(3) o by (cases rule: owner_step.cases) auto
  have fr: "frame_addr f"
    using f(1) pmm_frames.free_frame_addr kernel_invD(2) [OF assms(1)] by (simp add: owners_def)
  have lent': "lent' = insert f lent" and free: "f \<in> pmm_free_frames (frames (vm s))"
    using f by (simp_all add: owners_def owner_defs)
  have view: "pt_view (cells (vm s')) (kernel_pml4 (vm s')) =
      (\<lambda>w. if same_page w v then swap_in_pte f else pt_view (cells (vm s)) (kernel_pml4 (vm s)) w)"
    using f(2) by (simp add: owners_def owner_defs cong: if_cong)
  show ?thesis
    using step(1,2) free unfolding lent'
    by (intro exI [of _ f] exI [of _ s']) (simp add: vmm_virt_to_phys_view view swap_in_translation [OF fr])
qed

text \<open>A machine with one page marked as swapped and frames to spare.\<close>

lemma swapped_machine:
  obtains s :: "(unit, port_write list) kmem" where "kernel_inv ({}, s)" "user_handlers (irqs s) 14 = Some SwapPageFault"
    "swapped (pt_view (cells (vm s)) (kernel_pml4 (vm s)) 0xB8000)" "pmm_free_frames (frames (vm s)) \<noteq> {}"
proof -
  obtain m where m: "vm_inv pmm_ok pmm_free_frames 0x200000 m" "kernel_pml4 m = 0x200000"
    "pt_view (cells m) 0x200000 0xB8000 = pte_value 0x5000 PTE_SWAPPED" "pmm_free_frames (frames m) \<noteq> {}"
    using swapped_page_exists by blast
  let ?s = "\<lparr>vm = m, sw = swap_static, kheap = heap_static,
    irqs = idt_register_handler trace_bus 14 (Some SwapPageFault) None (irq_static [])\<rparr> :: (unit, port_write list) kmem"
  have "heap_frames heap_static = {}"
    by (simp add: heap_frames_def heap_static_def)
  moreover have "pmm_free_frames (frames m) \<inter> tables (cells m) 0x200000 = {}"
    using m(1) by (auto simp: vm_inv_def tables_def dest: pt_ok_frame)
  ultimately have "kernel_inv ({}, ?s)"
    using m(1,2) by (simp add: kernel_inv_def apart_def owners_def)
  then show thesis
    using m sample_swapped by (intro that [of ?s]) (simp_all add: idt_register_handler_def hardware_irq_def IRQ_BASE_def)
qed

theorem writes_keep_translations_witness:
  "\<exists>(s :: (unit, port_write list) kmem) f s'. kernel_inv ({f}, s) \<and>
    kernel_step trace_bus (Write f 0 0xFFF) ({f}, s) = Inr ({f}, s') \<and>
    vmm_virt_to_phys pmm_alloc (kernel_pml4 (vm s)) 0xB8000 (vm s') = vmm_virt_to_phys pmm_alloc (kernel_pml4 (vm s)) 0xB8000 (vm s)"
proof -
  obtain s :: "(unit, port_write list) kmem" where s: "kernel_inv ({}, s)" "pmm_free_frames (frames (vm s)) \<noteq> {}"
    by (rule swapped_machine)
  have allowed: "kernel_allowed GetFrame ({}, s)"
    by simp
  obtain lent s1 where step: "kernel_step trace_bus GetFrame ({}, s) = Inr (lent, s1)" "kernel_inv (lent, s1)"
      "owner_step GetFrame (owners ({}, s)) (owners (lent, s1))"
    using kernel_step_refines [OF s(1) allowed, of trace_bus] kernel_sys.step_inv [OF s(1) allowed, of trace_bus]
    unfolding refines_def by (metis prod.exhaust)
  obtain f where "lent = {f}"
    using step(3) s(2) by (cases rule: owner_step.cases) (auto simp: owners_def owner_defs)
  with step(2) have inv: "kernel_inv ({f}, s1)"
    by simp
  from writes_keep_translations [OF inv, of f 0 trace_bus "0xFFF" "0xB8000"] inv show ?thesis
    by auto
qed

theorem swap_in_delivered_witness:
  "\<exists>(s :: (unit, port_write list) kmem) f s'. swapped (pt_view (cells (vm s)) (kernel_pml4 (vm s)) 0xB8000) \<and>
    kernel_step trace_bus (Interrupt 14 0 0xB8000) ({}, s) = Inr ({f}, s') \<and>
    vmm_virt_to_phys pmm_alloc (kernel_pml4 (vm s')) 0xB8000 (vm s') = Inr f"
proof -
  obtain s :: "(unit, port_write list) kmem" where s: "kernel_inv ({}, s)" "user_handlers (irqs s) 14 = Some SwapPageFault"
    "swapped (pt_view (cells (vm s)) (kernel_pml4 (vm s)) 0xB8000)" "pmm_free_frames (frames (vm s)) \<noteq> {}"
    by (rule swapped_machine)
  from swap_in_delivered [OF s, of trace_bus 0] s(3) show ?thesis
    by auto
qed

end
