(* ===== verification/Gdt.thy ===== *)
theory Gdt
  imports Prelude
begin

section \<open>The global descriptor table\<close>

text \<open>
  \<^verbatim>\<open>kernel/arch/x86_64/gdt.c\<close>: the flat segments, the task-state segment and its
  descriptor. The descriptors are also read back the way the processor decodes them, from the
  bytes of the packed structures taken as one 64-bit word.
\<close>

subsection \<open>State\<close>

record GdtEntry =
  limit_low :: u16
  base_low :: u16
  base_mid :: u8
  access :: u8
  granularity :: u8
  base_high :: u8

record TssDescriptor = GdtEntry +
  base_upper :: u32
  desc_reserved :: u32

record Tss =
  rsp0 :: u64
  rsp1 :: u64
  rsp2 :: u64
  tss_ist :: "nat \<Rightarrow> u64"
  iopb_offset :: u16

definition TSS_SIZE :: nat where "TSS_SIZE = 104"
definition GDT_ENTRIES :: nat where "GDT_ENTRIES = 7"
definition INTERRUPT_STACK_SIZE :: u64 where "INTERRUPT_STACK_SIZE = 8192"

definition SEG_TSS :: u16 where "SEG_TSS = 0x28"
definition ACCESS_PRESENT :: u8 where "ACCESS_PRESENT = push_bit 7 1"
definition ACCESS_RING0 :: u8 where "ACCESS_RING0 = push_bit 5 0"
definition ACCESS_RING3 :: u8 where "ACCESS_RING3 = push_bit 5 3"
definition ACCESS_TYPE_CODE :: u8 where "ACCESS_TYPE_CODE = 0x1A"
definition ACCESS_TYPE_DATA :: u8 where "ACCESS_TYPE_DATA = 0x12"
definition ACCESS_TYPE_TSS :: u8 where "ACCESS_TYPE_TSS = 0x09"
definition GRAN_64BIT :: u8 where "GRAN_64BIT = push_bit 5 1"
definition GRAN_4K :: u8 where "GRAN_4K = push_bit 7 1"

lemmas gdt_flags [layout_simps] = ACCESS_PRESENT_def ACCESS_RING0_def ACCESS_RING3_def
  ACCESS_TYPE_CODE_def ACCESS_TYPE_DATA_def ACCESS_TYPE_TSS_def GRAN_64BIT_def GRAN_4K_def

text \<open>The value of the register GDTR.\<close>

record GdtDescriptor =
  gdt_limit :: u16
  gdt_base :: u64

text \<open>
  Slots 0 to 4 of the table and, over slots 5 and 6, the descriptor \<open>tss_desc\<close> points at;
  \<open>gdtr\<close> and \<open>task\<close> are what \<open>lgdt\<close> and \<open>ltr\<close> load.
\<close>

record gdt_state =
  gdt :: "nat \<Rightarrow> GdtEntry"
  tss_desc :: TssDescriptor
  kernel_tss :: Tss
  gdtr :: "GdtDescriptor option"
  task :: "u16 option"

definition gdt_static :: gdt_state where
  "gdt_static = \<lparr>
     gdt = (\<lambda>_. \<lparr>limit_low = 0, base_low = 0, base_mid = 0, access = 0, granularity = 0, base_high = 0\<rparr>),
     tss_desc = \<lparr>limit_low = 0, base_low = 0, base_mid = 0, access = 0, granularity = 0, base_high = 0,
       base_upper = 0, desc_reserved = 0\<rparr>,
     kernel_tss = \<lparr>rsp0 = 0, rsp1 = 0, rsp2 = 0, tss_ist = (\<lambda>_. 0), iopb_offset = 0\<rparr>,
     gdtr = None, task = None\<rparr>"

subsection \<open>Operations\<close>

definition gdt_entry :: "u32 \<Rightarrow> u32 \<Rightarrow> u8 \<Rightarrow> u8 \<Rightarrow> GdtEntry" where
  "gdt_entry base limit acc gran =
     \<lparr>limit_low = ucast (limit AND 0xFFFF), base_low = ucast (base AND 0xFFFF),
      base_mid = ucast (drop_bit 16 base AND 0xFF), access = acc,
      granularity = ucast (drop_bit 16 limit AND 0x0F) OR (gran AND 0xF0),
      base_high = ucast (drop_bit 24 base AND 0xFF)\<rparr>"

definition gdt_set_entry :: "nat \<Rightarrow> u32 \<Rightarrow> u32 \<Rightarrow> u8 \<Rightarrow> u8 \<Rightarrow> gdt_state \<Rightarrow> gdt_state" where
  "gdt_set_entry idx base limit acc gran s =
     s\<lparr>gdt := (gdt s)(idx := gdt_entry base limit acc gran)\<rparr>"

definition gdt_set_tss :: "u64 \<Rightarrow> u32 \<Rightarrow> gdt_state \<Rightarrow> gdt_state" where
  "gdt_set_tss tss_addr tss_limit s =
     s\<lparr>tss_desc :=
        \<lparr>limit_low = ucast (tss_limit AND 0xFFFF), base_low = ucast (tss_addr AND 0xFFFF),
         base_mid = ucast (drop_bit 16 tss_addr AND 0xFF), access = ACCESS_PRESENT OR ACCESS_TYPE_TSS,
         granularity = ucast (drop_bit 16 tss_limit AND 0x0F),
         base_high = ucast (drop_bit 24 tss_addr AND 0xFF),
         base_upper = ucast (drop_bit 32 tss_addr AND 0xFFFFFFFF), desc_reserved = 0\<rparr>\<rparr>"

text \<open>The addresses of \<open>interrupt_stack\<close>, \<open>kernel_tss\<close> and \<open>gdt\<close> are parameters.\<close>

definition gdt_init :: "u64 \<Rightarrow> u64 \<Rightarrow> u64 \<Rightarrow> gdt_state \<Rightarrow> gdt_state" where
  "gdt_init stack_addr tss_addr gdt_addr s =
     (let s = gdt_set_entry 0 0 0 0 0 s;
          s = gdt_set_entry 1 0 0xFFFFF (ACCESS_PRESENT OR ACCESS_RING0 OR ACCESS_TYPE_CODE)
                (GRAN_64BIT OR GRAN_4K) s;
          s = gdt_set_entry 2 0 0xFFFFF (ACCESS_PRESENT OR ACCESS_RING0 OR ACCESS_TYPE_DATA) GRAN_4K s;
          s = gdt_set_entry 3 0 0xFFFFF (ACCESS_PRESENT OR ACCESS_RING3 OR ACCESS_TYPE_CODE)
                (GRAN_64BIT OR GRAN_4K) s;
          s = gdt_set_entry 4 0 0xFFFFF (ACCESS_PRESENT OR ACCESS_RING3 OR ACCESS_TYPE_DATA) GRAN_4K s;
          s = s\<lparr>kernel_tss := (kernel_tss s)\<lparr>rsp0 := stack_addr + INTERRUPT_STACK_SIZE,
                 iopb_offset := of_nat TSS_SIZE\<rparr>\<rparr>;
          s = gdt_set_tss tss_addr (of_nat TSS_SIZE - 1) s
      in s\<lparr>gdtr := Some \<lparr>gdt_limit = of_nat (GDT_ENTRIES * 8 - 1), gdt_base = gdt_addr\<rparr>, task := Some SEG_TSS\<rparr>)"

definition gdt_get_tss_rsp0 :: "gdt_state \<Rightarrow> u64" where
  "gdt_get_tss_rsp0 s = rsp0 (kernel_tss s)"

definition gdt_set_tss_rsp0 :: "u64 \<Rightarrow> gdt_state \<Rightarrow> gdt_state" where
  "gdt_set_tss_rsp0 v s = s\<lparr>kernel_tss := (kernel_tss s)\<lparr>rsp0 := v\<rparr>\<rparr>"

subsection \<open>What the processor reads\<close>

definition entry_qword :: "'a GdtEntry_scheme \<Rightarrow> u64" where
  "entry_qword e = ucast (limit_low e) OR push_bit 16 (ucast (base_low e))
     OR push_bit 32 (ucast (base_mid e)) OR push_bit 40 (ucast (access e))
     OR push_bit 48 (ucast (granularity e)) OR push_bit 56 (ucast (base_high e))"

definition seg_base :: "u64 \<Rightarrow> u32" where
  "seg_base q = ucast (drop_bit 16 q AND 0xFFFFFF) OR push_bit 24 (ucast (drop_bit 56 q))"

definition seg_limit :: "u64 \<Rightarrow> u32" where
  "seg_limit q = ucast (q AND 0xFFFF) OR push_bit 16 (ucast (drop_bit 48 q AND 0xF))"

definition tss_base :: "TssDescriptor \<Rightarrow> u64" where
  "tss_base e = ucast (seg_base (entry_qword e)) OR push_bit 32 (ucast (base_upper e))"

text \<open>Bits of the packed descriptor, field by field.\<close>

lemma bit_lt_len: "bit (w :: 'a::len word) n \<Longrightarrow> n < LENGTH('a)"
  by (rule bit_imp_le_length)

lemma bit_entry_qword:
  "bit (entry_qword e) n \<longleftrightarrow> bit (limit_low e) n \<or> 16 \<le> n \<and> bit (base_low e) (n - 16)
    \<or> 32 \<le> n \<and> bit (base_mid e) (n - 32) \<or> 40 \<le> n \<and> bit (access e) (n - 40)
    \<or> 48 \<le> n \<and> bit (granularity e) (n - 48) \<or> 56 \<le> n \<and> bit (base_high e) (n - 56)"
  unfolding entry_qword_def bit_or_iff
  by (simp add: bit_push_ucast bit_push_ucast [of 0, simplified])

lemma low_masks:
  "(0xF :: 'a::len word) = mask 4" "(0xFF :: 'a word) = mask 8" "(0xFFFF :: 'a word) = mask 16"
  "(0xFFFFF :: 'a word) = mask 20" "(0xFFFFFF :: 'a word) = mask 24" "(0xFFFFFFFF :: 'a word) = mask 32"
  by (simp_all add: mask_eq_exp_minus_1)

lemma bit_low: 
  "bit (w AND 0xF) n \<longleftrightarrow> n < 4 \<and> bit (w :: 'a::len word) n"
  "bit (w AND 0xFF) n \<longleftrightarrow> n < 8 \<and> bit w n"
  "bit (w AND 0xFFFF) n \<longleftrightarrow> n < 16 \<and> bit w n"
  "bit (w AND 0xFFFFF) n \<longleftrightarrow> n < 20 \<and> bit w n"
  "bit (w AND 0xFFFFFF) n \<longleftrightarrow> n < 24 \<and> bit w n"
  "bit (w AND 0xFFFFFFFF) n \<longleftrightarrow> n < 32 \<and> bit w n"
  unfolding low_masks by (auto simp: bit_and_iff bit_mask_iff dest: bit_imp_possible_bit)

lemma bit_F0: "bit ((w :: u8) AND 0xF0) n \<longleftrightarrow> 4 \<le> n \<and> n < 8 \<and> bit w n"
proof -
  have "(0xF0 :: u8) = push_bit 4 (mask 4)"
    by (simp add: mask_eq_exp_minus_1)
  show ?thesis
    unfolding \<open>0xF0 = push_bit 4 (mask 4)\<close> bit_and_iff bit_push_bit_iff bit_mask_iff
    using bit_lt_len [of w n] by auto
qed

lemma bit_fields:
  "bit (limit_low (gdt_entry base limit acc gran)) n \<longleftrightarrow> n < 16 \<and> bit limit n"
  "bit (base_low (gdt_entry base limit acc gran)) n \<longleftrightarrow> n < 16 \<and> bit base n"
  "bit (base_mid (gdt_entry base limit acc gran)) n \<longleftrightarrow> n < 8 \<and> bit base (16 + n)"
  "access (gdt_entry base limit acc gran) = acc"
  "bit (granularity (gdt_entry base limit acc gran)) n \<longleftrightarrow>
     (if n < 4 then bit limit (16 + n) else bit gran n)"
  "bit (base_high (gdt_entry base limit acc gran)) n \<longleftrightarrow> n < 8 \<and> bit base (24 + n)"
  using bit_lt_len [of gran n]
  by (auto simp: gdt_entry_def bit_ucast_iff bit_drop_bit_eq bit_or_iff bit_F0 bit_low)

lemma bit_seg_base:
  "bit (seg_base q) n \<longleftrightarrow> (if n < 24 then bit q (16 + n) else n < 32 \<and> bit q (n + 32))"
  by (auto simp: seg_base_def bit_or_iff bit_push_bit_iff bit_ucast_iff bit_low bit_drop_bit_eq
      algebra_simps dest: bit_lt_64)

lemma bit_seg_limit:
  "bit (seg_limit q) n \<longleftrightarrow> (if n < 16 then bit q n else n < 20 \<and> bit q (n + 32))"
  by (auto simp: seg_limit_def bit_or_iff bit_push_bit_iff bit_ucast_iff bit_low bit_drop_bit_eq
      algebra_simps)

lemma access_bound [simp]: "8 \<le> n \<Longrightarrow> \<not> bit (w :: u8) n"
  using bit_lt_len [of w n] by auto

lemma half_bound [simp]: "16 \<le> n \<Longrightarrow> \<not> bit (w :: u16) n"
  using bit_lt_len [of w n] by auto

lemma seg_base_entry: "seg_base (entry_qword (gdt_entry base limit acc gran)) = base"
proof -
  have "bit (seg_base (entry_qword (gdt_entry base limit acc gran))) n = bit base n" for n
  proof -
    consider "n < 16" | m where "n = 16 + m" "m < 8" | m where "n = 24 + m" "m < 8" | "32 \<le> n"
      by atomize_elim presburger
    then show ?thesis
      by cases (auto simp: bit_seg_base bit_entry_qword bit_fields dest: bit_lt_len)
  qed
  then show ?thesis
    by (simp add: word_bit_eq_iff)
qed

lemma seg_limit_entry:
  "seg_limit (entry_qword (gdt_entry base limit acc gran)) = limit AND 0xFFFFF"
proof -
  have "bit (seg_limit (entry_qword (gdt_entry base limit acc gran))) n = bit (limit AND 0xFFFFF) n" for n
  proof -
    consider "n < 16" | m where "n = 16 + m" "m < 4" | "20 \<le> n"
      by atomize_elim presburger
    then show ?thesis
      by cases (auto simp: bit_seg_limit bit_entry_qword bit_fields bit_low)
  qed
  then show ?thesis
    by (simp add: word_bit_eq_iff)
qed

text \<open>Present, privilege, code or data, and the three size flags, from bits 40 to 55.\<close>

definition seg_present :: "u64 \<Rightarrow> bool" where "seg_present q \<longleftrightarrow> bit q 47"
definition seg_dpl :: "u64 \<Rightarrow> u64" where "seg_dpl q = drop_bit 45 q AND 3"
definition seg_is_code :: "u64 \<Rightarrow> bool" where "seg_is_code q \<longleftrightarrow> bit q 44 \<and> bit q 43"
definition seg_is_data :: "u64 \<Rightarrow> bool" where "seg_is_data q \<longleftrightarrow> bit q 44 \<and> \<not> bit q 43"
definition seg_long :: "u64 \<Rightarrow> bool" where "seg_long q \<longleftrightarrow> bit q 53"
definition seg_pages :: "u64 \<Rightarrow> bool" where "seg_pages q \<longleftrightarrow> bit q 55"

lemmas seg_flags = seg_present_def seg_dpl_def seg_is_code_def seg_is_data_def seg_long_def seg_pages_def

lemma gdt_init_gdt:
  "gdt (gdt_init st ta ga s) 0 = gdt_entry 0 0 0 0"
  "gdt (gdt_init st ta ga s) 1 = gdt_entry 0 0xFFFFF 0x9A 0xA0"
  "gdt (gdt_init st ta ga s) 2 = gdt_entry 0 0xFFFFF 0x92 0x80"
  "gdt (gdt_init st ta ga s) 3 = gdt_entry 0 0xFFFFF 0xFA 0xA0"
  "gdt (gdt_init st ta ga s) 4 = gdt_entry 0 0xFFFFF 0xF2 0x80"
  by (simp_all add: gdt_init_def gdt_set_entry_def gdt_set_tss_def gdt_flags Let_def)

lemma gdt_init_qwords:
  "entry_qword (gdt (gdt_init st ta ga s) 0) = 0"
  "entry_qword (gdt (gdt_init st ta ga s) 1) = 0x00AF9A000000FFFF"
  "entry_qword (gdt (gdt_init st ta ga s) 2) = 0x008F92000000FFFF"
  "entry_qword (gdt (gdt_init st ta ga s) 3) = 0x00AFFA000000FFFF"
  "entry_qword (gdt (gdt_init st ta ga s) 4) = 0x008FF2000000FFFF"
  unfolding gdt_init_gdt by (simp_all add: gdt_entry_def entry_qword_def)

text \<open>A flat segment of four-kilobyte pages, code or data, at a privilege level.\<close>

definition flat_segment :: "bool \<Rightarrow> u64 \<Rightarrow> u64 \<Rightarrow> bool" where
  "flat_segment code dpl q \<longleftrightarrow> seg_base q = 0 \<and> seg_limit q = 0xFFFFF \<and> seg_pages q \<and>
     seg_present q \<and> seg_dpl q = dpl \<and> (if code then seg_is_code q else seg_is_data q) \<and>
     seg_long q = code"

lemma flat_segments:
  "flat_segment True 0 0x00AF9A000000FFFF" "flat_segment False 0 0x008F92000000FFFF"
  "flat_segment True 3 0x00AFFA000000FFFF" "flat_segment False 3 0x008FF2000000FFFF"
  by (simp_all add: flat_segment_def seg_flags seg_base_def seg_limit_def)

lemma tss_base_entry: "tss_base (tss_desc (gdt_set_tss a l s)) = a"
proof -
  let ?d = "tss_desc (gdt_set_tss a l s)"
  have f:
    "\<And>n. bit (limit_low ?d) n \<longleftrightarrow> n < 16 \<and> bit l n"
    "\<And>n. bit (base_low ?d) n \<longleftrightarrow> n < 16 \<and> bit a n"
    "\<And>n. bit (base_mid ?d) n \<longleftrightarrow> n < 8 \<and> bit a (16 + n)"
    "\<And>n. bit (base_high ?d) n \<longleftrightarrow> n < 8 \<and> bit a (24 + n)"
    "\<And>n. bit (base_upper ?d) n \<longleftrightarrow> n < 32 \<and> bit a (32 + n)"
    by (auto simp: gdt_set_tss_def bit_ucast_iff bit_drop_bit_eq bit_low)
  have "bit (tss_base ?d) n = bit a n" for n
  proof -
    consider "n < 16" | m where "n = 16 + m" "m < 8" | m where "n = 24 + m" "m < 8"
      | m where "n = 32 + m" "m < 32" | "64 \<le> n"
      by atomize_elim presburger
    then show ?thesis
      by cases (auto simp: tss_base_def bit_or_iff bit_ucast_iff bit_push_bit_iff bit_seg_base
          bit_entry_qword f dest: bit_lt_64)
  qed
  then show ?thesis
    by (simp add: word_bit_eq_iff)
qed

lemma gdt_init_tss:
  "task (gdt_init st ta ga s) = Some 0x28"
  "tss_base (tss_desc (gdt_init st ta ga s)) = ta"
  "seg_limit (entry_qword (tss_desc (gdt_init st ta ga s))) = 103"
  "seg_present (entry_qword (tss_desc (gdt_init st ta ga s)))"
  "gdt_get_tss_rsp0 (gdt_init st ta ga s) = st + 8192"
proof -
  obtain s' where eq: "tss_desc (gdt_init st ta ga s) = tss_desc (gdt_set_tss ta 103 s')"
    by (simp add: gdt_init_def gdt_set_entry_def gdt_set_tss_def TSS_SIZE_def Let_def)
  show "tss_base (tss_desc (gdt_init st ta ga s)) = ta"
    unfolding eq by (rule tss_base_entry)
  show "seg_present (entry_qword (tss_desc (gdt_init st ta ga s)))"
    unfolding eq seg_present_def bit_entry_qword by (simp add: gdt_set_tss_def gdt_flags)
  have f: "limit_low (tss_desc (gdt_set_tss ta 103 s')) = 103"
    "granularity (tss_desc (gdt_set_tss ta 103 s')) = 0"
    by (simp_all add: gdt_set_tss_def)
  have "(103 :: u32) = ucast (103 :: u16)"
    by simp
  then have c: "bit (103 :: u32) n \<longleftrightarrow> bit (103 :: u16) n" for n
    using bit_lt_len [of "103 :: u16" n] unfolding \<open>103 = ucast 103\<close> bit_ucast_iff by auto
  have "bit (seg_limit (entry_qword (tss_desc (gdt_set_tss ta 103 s')))) n = bit (103 :: u32) n" for n
    unfolding bit_seg_limit bit_entry_qword f c
    using bit_lt_len [of "base_high (tss_desc (gdt_set_tss ta 103 s'))" "n + 32 - 56"]
    by (cases "n < 16") (auto dest: bit_lt_len simp del: access_bound)
  then show "seg_limit (entry_qword (tss_desc (gdt_init st ta ga s))) = 103"
    unfolding eq by (simp add: word_bit_eq_iff)
  show "task (gdt_init st ta ga s) = Some 0x28" "gdt_get_tss_rsp0 (gdt_init st ta ga s) = st + 8192"
    by (simp_all add: gdt_init_def gdt_get_tss_rsp0_def gdt_set_tss_def SEG_TSS_def
        INTERRUPT_STACK_SIZE_def gdt_set_entry_def Let_def)
qed

subsection \<open>Properties\<close>

text \<open>The scattered base and limit fields of a segment descriptor decode, the way the
  processor reads the packed entry, to the base and to the low twenty bits of the limit.\<close>

theorem gdt_entry_roundtrip:
  "seg_base (entry_qword (gdt (gdt_set_entry i base limit acc gran s) i)) = base \<and>
   seg_limit (entry_qword (gdt (gdt_set_entry i base limit acc gran s) i)) = limit AND 0xFFFFF"
  by (simp add: gdt_set_entry_def seg_base_entry seg_limit_entry)

text \<open>After \<open>gdt_init\<close> the table holds a null descriptor and flat four-gigabyte segments,
  kernel code and data at privilege 0, user code and data at privilege 3, the code segments
  in 64-bit mode; the task register holds the selector of a present task descriptor
  whose base is the address of \<open>kernel_tss\<close> and whose limit is its last byte, and the ring-0
  stack is the end of the interrupt stack.\<close>

theorem gdt_init_segments:
  "entry_qword (gdt (gdt_init st ta ga s) 0) = 0 \<and>
   flat_segment True 0 (entry_qword (gdt (gdt_init st ta ga s) 1)) \<and>
   flat_segment False 0 (entry_qword (gdt (gdt_init st ta ga s) 2)) \<and>
   flat_segment True 3 (entry_qword (gdt (gdt_init st ta ga s) 3)) \<and>
   flat_segment False 3 (entry_qword (gdt (gdt_init st ta ga s) 4)) \<and>
   task (gdt_init st ta ga s) = Some 0x28 \<and>
   tss_base (tss_desc (gdt_init st ta ga s)) = ta \<and>
   seg_limit (entry_qword (tss_desc (gdt_init st ta ga s))) = 103 \<and>
   seg_present (entry_qword (tss_desc (gdt_init st ta ga s))) \<and>
   gdt_get_tss_rsp0 (gdt_init st ta ga s) = st + 8192"
  unfolding gdt_init_qwords using gdt_init_tss [of st ta ga s] flat_segments by simp

text \<open>\<open>gdt_init\<close> leaves every entry of the interrupt stack table as it was, null in the zeroed
  task segment, although the double-fault gate of the interrupt table switches to entry 1.\<close>

theorem gdt_init_no_interrupt_stacks:
  "tss_ist (kernel_tss (gdt_init st ta ga gdt_static)) i = 0"
  by (simp add: gdt_init_def gdt_set_entry_def gdt_set_tss_def gdt_static_def Let_def)

end
