(* ===== verification/CString.thy ===== *)
theory CString
  imports Prelude "HOL-Library.Sublist" "HOL-Library.Char_ord"
begin

section \<open>C strings\<close>

text \<open>
  The functions of \<^verbatim>\<open>string.h\<close> and \<^verbatim>\<open>stdio.h\<close> the program uses, on character lists without the
  terminating NUL: \<open>strstr\<close> and \<open>strchr\<close> return the rest of the string from the place found,
  \<open>strncmp(p, name, strlen(name)) == 0\<close> is \<open>prefix\<close>, and \<open>snprintf\<close> keeps what fits.
  Numbers print in decimal, and bytes of a file are characters too.
\<close>

definition NUL :: char where "NUL = CHR 0x00"

definition cstr :: "string \<Rightarrow> bool" where "cstr s \<longleftrightarrow> NUL \<notin> set s"

text \<open>The string at the start of a buffer.\<close>

definition c_string :: "string \<Rightarrow> string" where "c_string buf = takeWhile (\<lambda>c. c \<noteq> NUL) buf"

text \<open>\<open>char\<close> is signed on the target.\<close>

definition schar :: "char \<Rightarrow> int" where
  "schar c = (if of_char c < (128 :: nat) then int (of_char c) else int (of_char c) - 256)"

fun strstr :: "string \<Rightarrow> string \<Rightarrow> string option" where
  "strstr s key = (if prefix key s then Some s
                   else case s of [] \<Rightarrow> None | c # cs \<Rightarrow> strstr cs key)"

declare strstr.simps [simp del]

definition strchr :: "string \<Rightarrow> char \<Rightarrow> string option" where
  "strchr s c = (case dropWhile (\<lambda>x. x \<noteq> c) s of [] \<Rightarrow> None | p \<Rightarrow> Some p)"

definition strlcut :: "nat \<Rightarrow> string \<Rightarrow> string" where
  "strlcut n s = take (n - 1) s"

text \<open>
  \<^verbatim>\<open>snprintf(buf + pos, sz - pos, ...)\<close>: the position moves by what the call wanted to write. Once it
  is past the buffer the room left, an unsigned number, wraps around.
\<close>

definition snprintf_at :: "nat \<Rightarrow> string \<Rightarrow> nat \<times> string \<Rightarrow> (nat \<times> string) checked" where
  "snprintf_at sz line = (\<lambda>(pos, buf).
     if sz < pos then Inl BufferOverflow
     else Inr (pos + length line, if pos = sz then buf else take pos buf @ take (sz - pos - 1) line))"

primrec snprintf_all :: "nat \<Rightarrow> string list \<Rightarrow> nat \<times> string \<Rightarrow> (nat \<times> string) checked" where
  "snprintf_all sz [] x = Inr x"
| "snprintf_all sz (p # ps) x = rbind (snprintf_at sz p x) (snprintf_all sz ps)"

lemma snprintf_at_fits:
  "length buf + length line < sz \<Longrightarrow> snprintf_at sz line (length buf, buf) = Inr (length (buf @ line), buf @ line)"
  by (simp add: snprintf_at_def)

lemma snprintf_all_fits:
  "length buf + length (concat ps) < sz \<Longrightarrow>
    snprintf_all sz ps (length buf, buf) = Inr (length (buf @ concat ps), buf @ concat ps)"
proof (induction ps arbitrary: buf)
  case (Cons p ps)
  have "snprintf_at sz p (length buf, buf) = Inr (length (buf @ p), buf @ p)"
    using Cons.prems by (intro snprintf_at_fits) simp
  then show ?case
    using Cons.IH [of "buf @ p"] Cons.prems by simp
qed simp

text \<open>From the start of a buffer what stood in it is overwritten, if anything is printed.\<close>

lemma snprintf_all_start:
  assumes "length (concat ps) < sz" and "ps \<noteq> []"
  shows "snprintf_all sz ps (0, old) = Inr (length (concat ps), concat ps)"
proof (cases ps)
  case (Cons p qs)
  have "snprintf_at sz p (0, old) = Inr (length p, p)"
    using assms Cons by (auto simp: snprintf_at_def)
  then show ?thesis
    using snprintf_all_fits [of p qs sz] assms Cons by simp
qed (use assms in simp)

subsection \<open>Searching\<close>

lemma strstr_Nil: "strstr [] key = (if key = [] then Some [] else None)"
  by (simp add: strstr.simps)

lemma strstr_Cons:
  "strstr (c # cs) key = (if prefix key (c # cs) then Some (c # cs) else strstr cs key)"
  by (subst strstr.simps) simp

lemma strstr_Some:
  assumes "strstr s key = Some p"
  obtains pre where "s = pre @ p" "prefix key p"
    "\<And>q. strict_prefix q pre \<Longrightarrow> \<not> prefix key (drop (length q) s)"
  using assms
proof (induction s arbitrary: thesis)
  case Nil
  then show thesis
    by (auto simp: strstr_Nil split: if_splits)
next
  case (Cons c s)
  show thesis
  proof (cases "prefix key (c # s)")
    case True
    with Cons.prems show thesis
      by (intro Cons.prems(1) [of "[]"]) (auto simp: strstr_Cons)
  next
    case False
    with Cons.prems(2) have "strstr s key = Some p"
      by (simp add: strstr_Cons)
    then obtain pre where pre: "s = pre @ p" "prefix key p"
      "\<And>q. strict_prefix q pre \<Longrightarrow> \<not> prefix key (drop (length q) s)"
      using Cons.IH by blast
    show thesis
    proof (rule Cons.prems(1) [of "c # pre"])
      fix q
      assume "strict_prefix q (c # pre)"
      with False pre(3) show "\<not> prefix key (drop (length q) (c # s))"
        by (cases q) auto
    qed (use pre in simp_all)
  qed
qed

lemma strstr_None: "strstr s key = None \<longleftrightarrow> \<not> sublist key s"
proof (induction s)
  case Nil
  then show ?case
    by (simp add: strstr_Nil)
next
  case (Cons c s)
  then show ?case
    by (auto simp: strstr_Cons sublist_Cons_right)
qed

lemma strchr_None: "strchr s c = None \<longleftrightarrow> c \<notin> set s"
  by (induction s) (auto simp: strchr_def)

lemma strchr_Some:
  assumes "strchr s c = Some p"
  shows "\<exists>pre q. s = pre @ p \<and> p = c # q \<and> c \<notin> set pre"
proof -
  obtain d q where p: "dropWhile (\<lambda>x. x \<noteq> c) s = d # q" "p = d # q"
    using assms by (auto simp: strchr_def split: list.splits)
  then have "d = c"
    using hd_dropWhile [of "\<lambda>x. x \<noteq> c" s] by simp
  moreover have "s = takeWhile (\<lambda>x. x \<noteq> c) s @ d # q"
    using takeWhile_dropWhile_id [of "\<lambda>x. x \<noteq> c" s] p by simp
  moreover have "c \<notin> set (takeWhile (\<lambda>x. x \<noteq> c) s)"
    by (auto dest: set_takeWhileD)
  ultimately show ?thesis
    using p by blast
qed

lemma strchr_append: "c \<notin> set s \<Longrightarrow> strchr (s @ c # t) c = Some (c # t)"
  by (induction s) (auto simp: strchr_def)

subsection \<open>Decimal numbers\<close>

definition digit_char :: "nat \<Rightarrow> char" where "digit_char n = char_of (48 + n)"

fun dec :: "nat \<Rightarrow> string" where
  "dec n = (if n < 10 then [digit_char n] else dec (n div 10) @ [digit_char (n mod 10)])"

declare dec.simps [simp del]

definition is_digit :: "char \<Rightarrow> bool" where
  "is_digit c \<longleftrightarrow> schar (CHR ''0'') \<le> schar c \<and> schar c \<le> schar (CHR ''9'')"

definition digit_val :: "char \<Rightarrow> int" where
  "digit_val c = schar c - schar (CHR ''0'')"


definition dec_val :: "string \<Rightarrow> int" where
  "dec_val s = foldl (\<lambda>a c. a * 10 + digit_val c) 0 s"

lemma digit_char: 
  assumes "n < 10"
  shows "is_digit (digit_char n)" and "digit_val (digit_char n) = int n" and "digit_char n \<noteq> NUL"
    and "digit_char n \<noteq> CHR ''/''"
proof -
  have s: "schar (digit_char n) = 48 + int n"
    using assms by (simp add: schar_def digit_char_def)
  have z: "schar (CHR ''0'') = 48" "schar (CHR ''9'') = 57" "schar NUL = 0" "schar (CHR ''/'') = 47"
    by (simp_all add: schar_def NUL_def)
  show "is_digit (digit_char n)" "digit_val (digit_char n) = int n"
    using assms by (simp_all add: is_digit_def digit_val_def s z)
  have ne: "schar (digit_char n) \<noteq> schar NUL" "schar (digit_char n) \<noteq> schar (CHR ''/'')"
    unfolding s z by simp_all
  show "digit_char n \<noteq> NUL" "digit_char n \<noteq> CHR ''/''"
    using ne by (metis, metis)
qed

lemma dec_digits: "\<forall>c \<in> set (dec n). is_digit c \<and> c \<noteq> NUL \<and> c \<noteq> CHR ''/''"
proof (induction n rule: dec.induct)
  case (1 n)
  then show ?case
    using digit_char(1,3,4) [of n] digit_char(1,3,4) [of "n mod 10"]
    by (cases "n < 10") (simp_all add: dec.simps [of n])
qed

lemma dec_val_dec: "dec_val (dec n) = int n"
proof (induction n rule: dec.induct)
  case (1 n)
  have split: "int (n div 10) * 10 + int (n mod 10) = int n"
    unfolding zdiv_int zmod_int by simp
  show ?case
  proof (cases "n < 10")
    case True
    then show ?thesis
      by (subst dec.simps) (simp add: dec_val_def digit_char(2))
  next
    case False
    then have "dec_val (dec n) = dec_val (dec (n div 10)) * 10 + digit_val (digit_char (n mod 10))"
      by (subst dec.simps) (simp add: dec_val_def)
    with 1 [OF False] split show ?thesis
      by (simp add: digit_char(2))
  qed
qed

lemma dec_inj: "dec m = dec n \<longleftrightarrow> m = n"
  by (metis dec_val_dec of_nat_eq_iff)

lemma dec_neq_Nil [simp]: "dec n \<noteq> []"
  by (subst dec.simps) simp

lemma dec_length: "n < 10 ^ Suc k \<Longrightarrow> length (dec n) \<le> Suc k"
proof (induction k arbitrary: n)
  case 0
  then show ?case
    by (subst dec.simps) simp
next
  case (Suc k)
  then have "n div 10 < 10 ^ Suc k"
    by (simp add: less_mult_imp_div_less mult.commute)
  then have "length (dec (n div 10)) \<le> Suc k"
    by (rule Suc.IH)
  then show ?case
    by (subst dec.simps) simp
qed

subsection \<open>Little-endian numbers in a file\<close>

definition le_bytes :: "nat \<Rightarrow> nat \<Rightarrow> string" where
  "le_bytes k n = map (\<lambda>i. char_of (n div 256 ^ i mod 256)) [0..<k]"

definition le_nat :: "string \<Rightarrow> nat" where
  "le_nat cs = foldr (\<lambda>c n. of_char c + 256 * n) cs 0"

lemma length_le_bytes [simp]: "length (le_bytes k n) = k"
  by (simp add: le_bytes_def)

lemma le_bytes_Suc: "le_bytes (Suc k) n = char_of (n mod 256) # le_bytes k (n div 256)"
  unfolding le_bytes_def map_upt_Suc by (simp add: div_mult2_eq)

lemma le_nat_bytes: "le_nat (le_bytes k n) = n mod 256 ^ k"
proof (induction k arbitrary: n)
  case 0
  then show ?case
    by (simp add: le_bytes_def le_nat_def)
next
  case (Suc k)
  have "le_nat (le_bytes (Suc k) n) = n mod 256 + 256 * (n div 256 mod 256 ^ k)"
    using Suc by (simp add: le_bytes_Suc le_nat_def)
  also have "\<dots> = n mod (256 * 256 ^ k)"
    by (simp add: mod_mult2_eq)
  finally show ?case
    by simp
qed

lemma le_nat_bytes_small [simp]: "n < 256 ^ k \<Longrightarrow> le_nat (le_bytes k n) = n"
  by (simp add: le_nat_bytes)

end
