(* ===== verification/FileSys.thy ===== *)
theory FileSys
  imports CString
begin

section \<open>The file layer\<close>

text \<open>
  \<^verbatim>\<open>kernel/fs/fs.c\<close> and \<^verbatim>\<open>kernel/fs/fs.h\<close>. The clients of the file layer take its operations as
  the record \<open>fs_ops\<close>, so that what they do with a working file system can be stated too;
  \<open>fs_stub\<close> is what the source implements, which reads and writes nothing.
  A read returns the result code and the bytes put in the buffer.
\<close>

record 'f fs_ops =
  fs_read_file :: "string \<Rightarrow> nat \<Rightarrow> 'f \<Rightarrow> int \<times> string \<times> 'f"
  fs_write_file_usb :: "string \<Rightarrow> string \<Rightarrow> 'f \<Rightarrow> int \<times> 'f"
  fs_file_exists :: "string \<Rightarrow> 'f \<Rightarrow> bool"
  fs_mkdir_usb :: "string \<Rightarrow> 'f \<Rightarrow> int \<times> 'f"

record fs_state =
  fs_usb_ready :: bool
  fs_ssd_ready :: bool

definition fs_static :: fs_state where
  "fs_static = \<lparr>fs_usb_ready = False, fs_ssd_ready = False\<rparr>"

definition fs_init :: "fs_state \<Rightarrow> fs_state" where
  "fs_init s = s\<lparr>fs_usb_ready := True, fs_ssd_ready := True\<rparr>"

definition fs_stub :: "fs_state fs_ops" where
  "fs_stub = \<lparr>fs_read_file = (\<lambda>path buf_sz s. (-1, [], s)),
     fs_write_file_usb = (\<lambda>path data s. (-1, s)),
     fs_file_exists = (\<lambda>path s. False),
     fs_mkdir_usb = (\<lambda>path s. (0, s))\<rparr>"

record FsInfo =
  available :: bool
  total_bytes :: u64
  free_bytes :: u64
  aion_memory_file_count :: u32
  root_entry_count :: u32

definition fs_get_info_usb :: "fs_state \<Rightarrow> FsInfo" where
  "fs_get_info_usb s = \<lparr>available = fs_usb_ready s, total_bytes = 128 * 1024 * 1024 * 1024,
     free_bytes = 100 * 1024 * 1024 * 1024, aion_memory_file_count = 0, root_entry_count = 0\<rparr>"

definition fs_get_info_ssd :: "fs_state \<Rightarrow> FsInfo" where
  "fs_get_info_ssd s = \<lparr>available = fs_ssd_ready s, total_bytes = 500 * 1024 * 1024 * 1024,
     free_bytes = 300 * 1024 * 1024 * 1024, aion_memory_file_count = 0, root_entry_count = 16\<rparr>"

end
