(* ===== verification/Serial.thy ===== *)
theory Serial
  imports Ports CString
begin

section \<open>The serial line\<close>

text \<open>
  \<^verbatim>\<open>kernel/drivers/serial.c\<close>: the set-up of the UART, the transmission of a character, which
  polls the line status without a bound, and the formatting of \<open>serial_printf\<close>. What a
  format prints is the pure function \<open>serial_format\<close>; \<open>serial_printf\<close> sends it.
\<close>

definition COM1 :: u16 where "COM1 = 0x3F8"

definition serial_init :: "'d bus \<Rightarrow> 'd \<Rightarrow> 'd" where
  "serial_init b d =
     outs b [(COM1 + 1, 0x00), (COM1 + 3, 0x80), (COM1 + 0, 0x03), (COM1 + 1, 0x00), (COM1 + 3, 0x03),
       (COM1 + 2, 0xC7), (COM1 + 4, 0x0B)] d"

definition serial_tx_ready :: "'d bus \<Rightarrow> 'd \<Rightarrow> bool \<times> 'd" where
  "serial_tx_ready b d = (let (v, d) = inb b (COM1 + 5) d in (v AND 0x20 \<noteq> 0, d))"

text \<open>The polling loop, which may never return.\<close>

partial_function (option) wait_tx :: "'d bus \<Rightarrow> 'd \<Rightarrow> 'd option" where
  "wait_tx b d = (let (ready, d) = serial_tx_ready b d in if ready then Some d else wait_tx b d)"

definition char_byte :: "char \<Rightarrow> u8" where "char_byte c = of_nat (of_char c)"

definition serial_putc :: "'d bus \<Rightarrow> char \<Rightarrow> 'd \<Rightarrow> 'd option" where
  "serial_putc b c d =
     Option.bind (wait_tx b d) (\<lambda>d.
       let d = outb b COM1 (char_byte c) d in
       if c = CHR 0x0A
       then Option.bind (wait_tx b d) (\<lambda>d. Some (outb b COM1 (char_byte (CHR 0x0D)) d))
       else Some d)"

primrec serial_puts :: "'d bus \<Rightarrow> string \<Rightarrow> 'd \<Rightarrow> 'd option" where
  "serial_puts b [] d = Some d"
| "serial_puts b (c # cs) d = Option.bind (serial_putc b c d) (serial_puts b cs)"

subsection \<open>Formatting\<close>

definition base_digit :: "nat \<Rightarrow> char" where
  "base_digit n = ''0123456789abcdef'' ! n"

text \<open>The digits of the buffer, least significant first, as the loop fills it.\<close>

fun uint_digits :: "nat \<Rightarrow> nat \<Rightarrow> string" where
  "uint_digits base v = (if v = 0 \<or> base < 2 then [] else base_digit (v mod base) # uint_digits base (v div base))"

declare uint_digits.simps [simp del]

definition print_uint :: "u64 \<Rightarrow> nat \<Rightarrow> string" where
  "print_uint v base = (if v = 0 then ''0'' else rev (uint_digits base (unat v)))"

text \<open>The smallest number has no negation in C: printing it has no defined result.\<close>

definition print_int :: "u64 \<Rightarrow> string option" where
  "print_int v =
     (if v = 0x8000000000000000 then None
      else Some (if v <s 0 then CHR ''-'' # print_uint (- v) 10 else print_uint v 10))"

text \<open>The arguments of a call: a string, or a 64-bit number.\<close>

datatype printf_arg = AStr string | ANum u64

text \<open>
  One directive: the characters it prints, the rest of the format and the remaining arguments.
  A format that asks for a further argument or one of another kind, that prints the smallest number as signed,
  or that ends in a percent sign, has no defined result.
\<close>

fun directive :: "string \<Rightarrow> printf_arg list \<Rightarrow> (string \<times> string \<times> printf_arg list) option" where
  "directive [] args = None"
| "directive (c # fmt) args =
     (if c = CHR ''s'' then (case args of AStr s # rest \<Rightarrow> Some (s, fmt, rest) | _ \<Rightarrow> None)
      else if c = CHR ''d'' then (case args of ANum v # rest \<Rightarrow> map_option (\<lambda>s. (s, fmt, rest)) (print_int v) | _ \<Rightarrow> None)
      else if c = CHR ''u'' then (case args of ANum v # rest \<Rightarrow> Some (print_uint v 10, fmt, rest) | _ \<Rightarrow> None)
      else if c = CHR ''x'' \<or> c = CHR ''X'' then
        (case args of ANum v # rest \<Rightarrow> Some (print_uint v 16, fmt, rest) | _ \<Rightarrow> None)
      else if c = CHR ''l'' then
        (case (case fmt of CHR ''l'' # fmt' \<Rightarrow> fmt' | _ \<Rightarrow> fmt) of
           [] \<Rightarrow> None
         | c' # fmt' \<Rightarrow>
             if c' = CHR ''u'' then
               (case args of ANum v # rest \<Rightarrow> Some (print_uint v 10, fmt', rest) | _ \<Rightarrow> None)
             else if c' = CHR ''d'' then
               (case args of ANum v # rest \<Rightarrow> map_option (\<lambda>s. (s, fmt', rest)) (print_int v) | _ \<Rightarrow> None)
             else Some ([], fmt', args))
      else if c = CHR ''c'' then
        (case args of ANum v # rest \<Rightarrow> Some ([char_of (unat v mod 256)], fmt, rest) | _ \<Rightarrow> None)
      else if c = CHR ''%'' then Some (''%'', fmt, args)
      else Some ([], fmt, args))"

lemma directive_shorter: "directive fmt args = Some (out, fmt', args') \<Longrightarrow> length fmt' < length fmt"
  by (cases fmt) (auto split: if_splits list.splits printf_arg.splits char.splits bool.splits)

function serial_format :: "string \<Rightarrow> printf_arg list \<Rightarrow> string option" where
  "serial_format fmt args =
     (case fmt of
        [] \<Rightarrow> Some []
      | c # fmt' \<Rightarrow>
          if c \<noteq> CHR ''%'' then map_option ((#) c) (serial_format fmt' args)
          else (case directive fmt' args of
                  None \<Rightarrow> None
                | Some (out, fmt'', args') \<Rightarrow> map_option ((@) out) (serial_format fmt'' args')))"
  by pat_completeness auto
termination
  by (relation "measure (\<lambda>(fmt, args). length fmt)") (auto dest: directive_shorter)

declare serial_format.simps [simp del]

definition serial_printf :: "'d bus \<Rightarrow> string \<Rightarrow> printf_arg list \<Rightarrow> 'd \<Rightarrow> 'd option" where
  "serial_printf b fmt args d = Option.bind (serial_format fmt args) (\<lambda>s. serial_puts b s d)"

subsection \<open>Numbers\<close>

definition digit_of :: "char \<Rightarrow> nat" where
  "digit_of c = (let n = of_char c in if n < 58 then n - 48 else n - 87)"

definition digits_val :: "nat \<Rightarrow> string \<Rightarrow> nat" where
  "digits_val base s = foldl (\<lambda>a c. a * base + digit_of c) 0 s"

lemma digit_of_base_digit:
  assumes "n < 16"
  shows "digit_of (base_digit n) = n"
proof -
  have "\<forall>k \<in> set [0..<16]. digit_of (base_digit k) = k"
    by code_simp
  with assms show ?thesis
    by simp
qed

lemma digits_val_uint:
  assumes "2 \<le> base" and "base \<le> 16"
  shows "digits_val base (rev (uint_digits base v)) = v"
  using assms
proof (induction base v rule: uint_digits.induct)
  case (1 base v)
  show ?case
  proof (cases "v = 0")
    case True
    then show ?thesis
      by (simp add: uint_digits.simps digits_val_def)
  next
    case False
    then have "digits_val base (rev (uint_digits base v)) =
        digits_val base (rev (uint_digits base (v div base))) * base + digit_of (base_digit (v mod base))"
      using 1 by (subst uint_digits.simps) (simp add: digits_val_def)
    also have "\<dots> = v div base * base + v mod base"
    proof -
      have "v mod base < 16"
        using 1(2,3) by (meson less_le_trans mod_less_divisor zero_less_numeral order_less_le_trans)
      then show ?thesis
        using 1 False by (simp add: digit_of_base_digit)
    qed
    finally show ?thesis
      by simp
  qed
qed

lemma print_uint_val: "2 \<le> base \<Longrightarrow> base \<le> 16 \<Longrightarrow> digits_val base (print_uint v base) = unat v"
  using digits_val_uint [of base "unat v"]
  by (auto simp: print_uint_def digits_val_def digit_of_def)

subsection \<open>Formats\<close>

lemma serial_format_Nil [simp]: "serial_format [] args = Some []"
  by (simp add: serial_format.simps)

lemma serial_format_char:
  "c \<noteq> CHR ''%'' \<Longrightarrow> serial_format (c # fmt) args = map_option ((#) c) (serial_format fmt args)"
  by (simp add: serial_format.simps)

lemma serial_format_directive:
  "serial_format (CHR ''%'' # fmt) args = (case directive fmt args of None \<Rightarrow> None
    | Some (out, fmt', args') \<Rightarrow> map_option ((@) out) (serial_format fmt' args'))"
  by (simp add: serial_format.simps)

lemmas format_steps = serial_format_char serial_format_directive

text \<open>
  A format of the directives the implementation knows, and what it should print. A number is printed as a
  numeral, a text of digits of the base without leading zeros that reads as the number.
\<close>

datatype fmt_piece = Lit string | FStr | FUnsigned | FLong | FSigned | FHex | FChar | FPercent

primrec piece_fmt :: "fmt_piece \<Rightarrow> string" where
  "piece_fmt (Lit s) = s"
| "piece_fmt FStr = ''%s''"
| "piece_fmt FUnsigned = ''%u''"
| "piece_fmt FLong = ''%llu''"
| "piece_fmt FSigned = ''%d''"
| "piece_fmt FHex = ''%x''"
| "piece_fmt FChar = ''%c''"
| "piece_fmt FPercent = ''%%''"

definition numeral_text :: "nat \<Rightarrow> string \<Rightarrow> nat \<Rightarrow> bool" where
  "numeral_text base s n \<longleftrightarrow> s \<noteq> [] \<and> set s \<subseteq> set (take base ''0123456789abcdef'') \<and>
     (hd s = CHR ''0'' \<longrightarrow> s = ''0'') \<and> digits_val base s = n"

inductive printed :: "fmt_piece list \<Rightarrow> printf_arg list \<Rightarrow> string \<Rightarrow> bool" where
  pr_end: "printed [] args []"
| pr_lit: "printed ps args out \<Longrightarrow> printed (Lit s # ps) args (s @ out)"
| pr_str: "printed ps args out \<Longrightarrow> printed (FStr # ps) (AStr s # args) (s @ out)"
| pr_unsigned: "numeral_text 10 t (unat v) \<Longrightarrow> printed ps args out \<Longrightarrow>
    printed (FUnsigned # ps) (ANum v # args) (t @ out)"
| pr_long: "numeral_text 10 t (unat v) \<Longrightarrow> printed ps args out \<Longrightarrow> printed (FLong # ps) (ANum v # args) (t @ out)"
| pr_signed: "0 \<le> sint v \<Longrightarrow> numeral_text 10 t (nat (sint v)) \<Longrightarrow> printed ps args out \<Longrightarrow>
    printed (FSigned # ps) (ANum v # args) (t @ out)"
| pr_negative: "sint v < 0 \<Longrightarrow> numeral_text 10 t (nat (- sint v)) \<Longrightarrow> printed ps args out \<Longrightarrow>
    printed (FSigned # ps) (ANum v # args) (CHR ''-'' # t @ out)"
| pr_hex: "numeral_text 16 t (unat v) \<Longrightarrow> printed ps args out \<Longrightarrow> printed (FHex # ps) (ANum v # args) (t @ out)"
| pr_char: "of_char c = unat v mod 256 \<Longrightarrow> printed ps args out \<Longrightarrow> printed (FChar # ps) (ANum v # args) (c # out)"
| pr_percent: "printed ps args out \<Longrightarrow> printed (FPercent # ps) args (CHR ''%'' # out)"

text \<open>The arguments are of the kinds the pieces ask for, and no signed one is the smallest number.\<close>

fun fits :: "fmt_piece list \<Rightarrow> printf_arg list \<Rightarrow> bool" where
  "fits [] args = True"
| "fits (Lit s # ps) args = (CHR ''%'' \<notin> set s \<and> fits ps args)"
| "fits (FPercent # ps) args = fits ps args"
| "fits (FStr # ps) (AStr s # args) = fits ps args"
| "fits (FSigned # ps) (ANum v # args) = (v \<noteq> 0x8000000000000000 \<and> fits ps args)"
| "fits (p # ps) (ANum v # args) = (p \<noteq> FStr \<and> fits ps args)"
| "fits _ _ = False"

lemma base_digit_props:
  assumes "n < 16"
  shows "base_digit n = CHR ''0'' \<longleftrightarrow> n = 0" and "n < base \<Longrightarrow> base_digit n \<in> set (take base ''0123456789abcdef'')"
proof -
  have "\<forall>k \<in> set [0..<16]. (base_digit k = CHR ''0'') = (k = 0)"
    by code_simp
  with assms show "base_digit n = CHR ''0'' \<longleftrightarrow> n = 0"
    by simp
  show "base_digit n \<in> set (take base ''0123456789abcdef'')" if "n < base"
  proof -
    have "n < length (take base ''0123456789abcdef'')"
      using assms that by simp
    moreover have "take base ''0123456789abcdef'' ! n = base_digit n"
      using that unfolding base_digit_def by (rule nth_take)
    ultimately show ?thesis
      by (metis nth_mem)
  qed
qed

lemma uint_digits_props:
  assumes "2 \<le> base" and "base \<le> 16" and "v \<noteq> 0"
  shows "uint_digits base v \<noteq> [] \<and> last (uint_digits base v) \<noteq> CHR ''0'' \<and>
    set (uint_digits base v) \<subseteq> set (take base ''0123456789abcdef'')"
  using assms
proof (induction base v rule: uint_digits.induct)
  case (1 base v)
  have eq: "uint_digits base v = base_digit (v mod base) # uint_digits base (v div base)"
    using 1(2,4) by (subst uint_digits.simps) simp
  have m: "v mod base < base"
    using 1(2) by simp
  then have "v mod base < 16"
    using 1(3) by simp
  note d = base_digit_props [OF this]
  show ?case
  proof (cases "v div base = 0")
    case True
    then have "v < base"
      using 1(2) by (simp add: div_eq_0_iff)
    then show ?thesis
      using d(1) d(2) [OF m] 1(4) True unfolding eq by (simp add: uint_digits.simps [of base 0])
  next
    case False
    have "\<not> (v = 0 \<or> base < 2)"
      using 1(2,4) by simp
    from 1(1) [OF this 1(2,3) False] show ?thesis
      unfolding eq using d(2) [OF m] by simp
  qed
qed

lemma print_uint_numeral:
  assumes "2 \<le> base" and "base \<le> 16"
  shows "numeral_text base (print_uint v base) (unat v)"
proof (cases "v = 0")
  case True
  have "CHR ''0'' \<in> set (take base ''0123456789abcdef'')"
    using base_digit_props(2) [of 0 base] assms by (simp add: base_digit_def)
  then show ?thesis
    using True by (simp add: numeral_text_def print_uint_def digits_val_def digit_of_def)
next
  case False
  then have "unat v \<noteq> 0"
    by (simp add: unat_eq_0)
  from uint_digits_props [OF assms this] show ?thesis
    using False print_uint_val [OF assms, of v] by (simp add: numeral_text_def print_uint_def hd_rev)
qed

lemma print_int_printed:
  assumes "v \<noteq> 0x8000000000000000" and "printed ps args out"
  shows "\<exists>t. print_int v = Some t \<and> printed (FSigned # ps) (ANum v # args) (t @ out)"
proof (cases "v <s 0")
  case False
  then have "0 \<le> sint v"
    by (simp add: word_sless_alt)
  moreover have "unat v = nat (sint v)"
  proof -
    have "sint v < 2 ^ 63"
      using sint_lt [of v] by simp
    then have "uint v = sint v"
      using uint_sint [of v] \<open>0 \<le> sint v\<close> by (simp add: take_bit_int_eq_self)
    then show ?thesis
      by (simp flip: nat_uint_eq)
  qed
  then have "numeral_text 10 (print_uint v 10) (nat (sint v))"
    using print_uint_numeral [of 10 v] by simp
  ultimately show ?thesis
    using assms False by (intro exI [of _ "print_uint v 10"]) (simp add: print_int_def pr_signed)
next
  case True
  then have neg: "sint v < 0"
    by (simp add: word_sless_alt)
  have "sint v \<noteq> - (2 ^ 63)"
  proof
    assume "sint v = - (2 ^ 63)"
    then have "(of_int (sint v) :: u64) = of_int (- (2 ^ 63))"
      by (rule arg_cong)
    then show False
      using assms(1) by simp
  qed
  moreover have "- (2 ^ 63) \<le> sint v"
    using sint_ge [of v] by simp
  ultimately have range: "0 < - sint v" "- sint v < 2 ^ 63"
    using neg by simp_all
  have "- v = of_int (- sint v)"
    by simp
  then have "uint (- v) = - sint v mod 2 ^ 64"
    by (simp only: uint_word_of_int) simp
  then have "uint (- v) = - sint v"
    using range by simp
  then have "unat (- v) = nat (- sint v)"
    by (simp flip: nat_uint_eq)
  then have "numeral_text 10 (print_uint (- v) 10) (nat (- sint v))"
    using print_uint_numeral [of 10 "- v"] by simp
  then show ?thesis
    using assms True neg by (intro exI [of _ "CHR ''-'' # print_uint (- v) 10"]) (simp add: print_int_def pr_negative)
qed

lemma serial_format_literal:
  "CHR ''%'' \<notin> set s \<Longrightarrow> serial_format (s @ fmt) args = map_option ((@) s) (serial_format fmt args)"
  by (induction s; cases "serial_format fmt args") (auto simp: format_steps)

lemma serial_format_pieces:
  assumes "fits ps args"
  shows "\<exists>out. serial_format (concat (map piece_fmt ps)) args = Some out \<and> printed ps args out"
  using assms
proof (induction ps args rule: fits.induct)
  case (2 s ps args)
  then show ?case
    using serial_format_literal by (fastforce intro: pr_lit)
next
  case (5 ps v args)
  then obtain out where "serial_format (concat (map piece_fmt ps)) args = Some out" "printed ps args out"
    by auto
  then show ?case
    using print_int_printed [of v ps args out] 5(2) by (auto simp: serial_format_directive)
qed (use print_uint_numeral [of 10] print_uint_numeral [of 16] in
    \<open>auto simp: serial_format_directive intro: printed.intros intro!: pr_char\<close>)

subsection \<open>Sending\<close>

text \<open>
  What the driver relies on of the UART: whatever its state, it becomes ready to send after some
  number of polls, and a character written right after a poll that said so is appended to what has been sent.
  Nothing is said of a character written at another time: it may be lost.
\<close>

inductive becomes_ready :: "'d bus \<Rightarrow> 'd \<Rightarrow> 'd \<Rightarrow> bool" for b where
  now: "serial_tx_ready b d = (True, d') \<Longrightarrow> becomes_ready b d d'"
| later: "serial_tx_ready b d = (False, d1) \<Longrightarrow> becomes_ready b d1 d' \<Longrightarrow> becomes_ready b d d'"

definition uart_bus :: "'d bus \<Rightarrow> ('d \<Rightarrow> u8 list) \<Rightarrow> bool" where
  "uart_bus b sent \<longleftrightarrow>
     (\<forall>d. \<exists>d'. becomes_ready b d d' \<and> sent d' = sent d) \<and>
     (\<forall>d d' v. serial_tx_ready b d = (True, d') \<longrightarrow> sent (outb b COM1 v d') = sent d' @ [v])"

lemma becomes_ready_poll: "becomes_ready b d d' \<Longrightarrow> \<exists>d0. serial_tx_ready b d0 = (True, d')"
  by (induction rule: becomes_ready.induct) auto

lemma wait_tx_ready: "becomes_ready b d d' \<Longrightarrow> wait_tx b d = Some d'"
  by (induction rule: becomes_ready.induct) (subst wait_tx.simps, simp)+

text \<open>The bytes a text becomes on the line: a carriage return after each newline.\<close>

definition line_bytes :: "string \<Rightarrow> u8 list" where
  "line_bytes s = concat (map (\<lambda>c. if c = CHR 0x0A then [char_byte c, char_byte (CHR 0x0D)] else [char_byte c]) s)"

text \<open>Polling and then writing sends the byte.\<close>

lemma wait_and_send:
  assumes "uart_bus b sent"
  shows "\<exists>d'. wait_tx b d = Some d' \<and> sent (outb b COM1 v d') = sent d @ [v]"
proof -
  obtain d' where d': "becomes_ready b d d'" "sent d' = sent d"
    using assms unfolding uart_bus_def by blast
  moreover obtain d0 where "serial_tx_ready b d0 = (True, d')"
    using becomes_ready_poll [OF d'(1)] by blast
  ultimately show ?thesis
    using assms wait_tx_ready [OF d'(1)] unfolding uart_bus_def by metis
qed

lemma serial_putc_sends:
  assumes "uart_bus b sent"
  shows "\<exists>d'. serial_putc b c d = Some d' \<and> sent d' = sent d @ line_bytes [c]"
proof -
  obtain d1 where d1: "wait_tx b d = Some d1" "sent (outb b COM1 (char_byte c) d1) = sent d @ [char_byte c]"
    using wait_and_send [OF assms] by blast
  obtain d2 where d2: "wait_tx b (outb b COM1 (char_byte c) d1) = Some d2"
      "sent (outb b COM1 (char_byte (CHR 0x0D)) d2) = sent (outb b COM1 (char_byte c) d1) @ [char_byte (CHR 0x0D)]"
    using wait_and_send [OF assms] by blast
  show ?thesis
    using d1 d2 by (cases "c = CHR 0x0A") (auto simp: serial_putc_def line_bytes_def)
qed

lemma serial_puts_sends:
  assumes "uart_bus b sent"
  shows "\<exists>d'. serial_puts b s d = Some d' \<and> sent d' = sent d @ line_bytes s"
proof (induction s arbitrary: d)
  case (Cons c s)
  obtain d1 where d1: "serial_putc b c d = Some d1" "sent d1 = sent d @ line_bytes [c]"
    using serial_putc_sends [OF assms] by blast
  obtain d2 where "serial_puts b s d1 = Some d2" "sent d2 = sent d1 @ line_bytes s"
    using Cons by blast
  with d1 show ?case
    by (auto simp: line_bytes_def)
qed (simp add: line_bytes_def)

subsection \<open>Properties\<close>

text \<open>C40: \<open>serial_printf\<close> ends and prints what its format says, on a UART that becomes ready again after
  finitely many polls and sends a byte written right after a poll that found it ready; what becomes of a byte written at
  another time is not assumed. For a format of literal text without percent signs and of the directives \<open>%s\<close>, \<open>%u\<close>,
  \<open>%llu\<close>, \<open>%d\<close>, \<open>%x\<close>, \<open>%c\<close> and \<open>%%\<close>, with arguments of the kinds they ask for and no signed argument that is the
  smallest number, the call returns, and the line has carried, after what it had carried before, exactly the texts
  in order, with each number as a numeral of its value in base 10 or 16 without leading zeros, and a
  carriage return after each newline.\<close>

theorem printf_sends:
  assumes "uart_bus b sent" and "fits ps args"
  shows "\<exists>out d'. printed ps args out \<and> serial_printf b (concat (map piece_fmt ps)) args d = Some d' \<and>
    sent d' = sent d @ line_bytes out"
proof -
  obtain out where out: "serial_format (concat (map piece_fmt ps)) args = Some out" "printed ps args out"
    using serial_format_pieces [OF assms(2)] by blast
  then show ?thesis
    using serial_puts_sends [OF assms(1), of out d] by (auto simp: serial_printf_def)
qed

text \<open>A UART that is busy for two polls after each byte, and loses what is written meanwhile.\<close>

definition busy_uart :: "(nat \<times> u8 list) bus" where
  "busy_uart = \<lparr>in8 = (\<lambda>port (n, out). if n = 0 then (0x20, (0, out)) else (0, (n - 1, out))),
     out8 = (\<lambda>port v (n, out). if port = COM1 \<and> n = 0 then (2, out @ [v]) else (n, out)),
     in32 = (\<lambda>port d. (0, d)), out32 = (\<lambda>port v d. d)\<rparr>"

lemma busy_uart_poll: "serial_tx_ready busy_uart (n, out) = (n = 0, (n - 1, out))"
  by (simp add: serial_tx_ready_def inb_def busy_uart_def)

lemma busy_uart_ready: "becomes_ready busy_uart (n, out) (0, out)"
proof (induction n)
  case 0
  then show ?case
    by (intro becomes_ready.now) (simp add: busy_uart_poll)
next
  case (Suc n)
  have "serial_tx_ready busy_uart (Suc n, out) = (False, (n, out))"
    by (simp add: busy_uart_poll)
  then show ?case
    using Suc by (rule becomes_ready.later)
qed

lemma busy_uart_bus: "uart_bus busy_uart snd"
  unfolding uart_bus_def
proof (intro conjI allI impI)
  fix d :: "nat \<times> u8 list"
  show "\<exists>d'. becomes_ready busy_uart d d' \<and> snd d' = snd d"
    using busy_uart_ready [of "fst d" "snd d"] by (intro exI [of _ "(0, snd d)"]) simp
  fix d' v
  assume "serial_tx_ready busy_uart d = (True, d')"
  then have "d' = (0, snd d)"
    using busy_uart_poll [of "fst d" "snd d"] by auto
  then show "snd (outb busy_uart COM1 v d') = snd d' @ [v]"
    by (simp add: busy_uart_def outb_def)
qed

lemma sample_pieces:
  "fits [Lit ''n='', FSigned, FStr] [ANum (-42), AStr [CHR 0x0A]]"
  "concat (map piece_fmt [Lit ''n='', FSigned, FStr]) = ''n=%d%s''"
proof -
  have "(- 42 :: u64) \<noteq> 0x8000000000000000"
    by code_simp
  then show "fits [Lit ''n='', FSigned, FStr] [ANum (-42), AStr [CHR 0x0A]]"
    by simp
qed simp

theorem printf_sends_witness:
  "\<exists>out d'. printed [Lit ''n='', FSigned, FStr] [ANum (-42), AStr [CHR 0x0A]] out \<and>
    serial_printf busy_uart ''n=%d%s'' [ANum (-42), AStr [CHR 0x0A]] (1, []) = Some d' \<and>
    snd d' = snd (1::nat, []) @ line_bytes out"
  using printf_sends [OF busy_uart_bus sample_pieces(1), of "(1, [])"]
  unfolding sample_pieces(2) .

text \<open>The padded and the long hexadecimal directives the kernel uses are not known to the
  formatter. The boot log prints the characters \<open>20s\<close> and the name of the stage where its message
  should be; a two-digit hexadecimal number prints \<open>2x\<close> and leaves its argument to the next
  directive; a long hexadecimal number prints nothing.\<close>

theorem printf_unknown_directives:
  "serial_format ''[boot] %-20s %s|'' [AStr stage, AStr msg] = Some (''[boot] 20s '' @ stage @ ''|'') \<and>
   serial_format ''%02x:%u'' [ANum a, ANum v] = Some (''2x:'' @ print_uint a 10) \<and>
   serial_format ''0x%llx'' [ANum a] = Some ''0x''"
  by (simp add: format_steps)

end
