(* ===== verification/Display.thy ===== *)
theory Display
  imports CString
begin

section \<open>The frame buffer\<close>

text \<open>
  \<^verbatim>\<open>kernel/drivers/display/display.c\<close>: the pixels, the glyphs and the cursor. Memory is a map
  from addresses to bytes, so that what a drawing operation leaves alone can be stated.
\<close>

record display =
  fb_base :: u64
  fb_w :: u32
  fb_h :: u32
  fb_pitch :: u32
  cursor_x :: u32
  cursor_y :: u32
  fbmem :: byte_mem

definition display_static :: "byte_mem \<Rightarrow> display" where
  "display_static m = \<lparr>fb_base = 0, fb_w = 0, fb_h = 0, fb_pitch = 0, cursor_x = 0, cursor_y = 0, fbmem = m\<rparr>"

text \<open>The four glyphs the font table gives; the rest of the table is not read.\<close>

definition font8x8 :: "u8 list list" where
  "font8x8 = [[0, 0, 0, 0, 0, 0, 0, 0],
     [0x18, 0x3C, 0x3C, 0x18, 0x18, 0, 0x18, 0],
     [0x36, 0x36, 0, 0, 0, 0, 0, 0],
     [0x36, 0x36, 0x7F, 0x36, 0x7F, 0x36, 0x36, 0]]"

definition pixel_addr :: "display \<Rightarrow> u32 \<Rightarrow> u32 \<Rightarrow> u64" where
  "pixel_addr d x y = fb_base d + ucast (y * fb_pitch d) + ucast (x * 4)"

definition display_set_pixel :: "u32 \<Rightarrow> u32 \<Rightarrow> u32 \<Rightarrow> display \<Rightarrow> display" where
  "display_set_pixel x y color d =
     (if fb_w d \<le> x \<or> fb_h d \<le> y then d
      else d\<lparr>fbmem := store32 (pixel_addr d x y) color (fbmem d)\<rparr>)"

definition display_clear :: "display \<Rightarrow> display" where
  "display_clear d =
     (fold (\<lambda>y d. fold (\<lambda>x d. display_set_pixel (of_nat x) (of_nat y) 0x00101010 d) [0..<unat (fb_w d)] d)
        [0..<unat (fb_h d)] d)\<lparr>cursor_x := 8, cursor_y := 8\<rparr>"

definition display_init :: "u64 \<Rightarrow> u32 \<Rightarrow> u32 \<Rightarrow> u32 \<Rightarrow> u32 \<Rightarrow> display \<Rightarrow> display" where
  "display_init fb w h pitch fmt d =
     display_clear (d\<lparr>fb_base := fb, fb_w := w, fb_h := h, fb_pitch := pitch\<rparr>)"

definition glyph_row :: "char \<Rightarrow> nat \<Rightarrow> u8" where
  "glyph_row c row =
     (let idx = schar c - 32;
          idx = (if idx < 0 \<or> 96 \<le> idx then 0 else idx)
      in if idx < 4 then font8x8 ! nat idx ! row else 0x3C)"

definition draw_char :: "char \<Rightarrow> u32 \<Rightarrow> u32 \<Rightarrow> u32 \<Rightarrow> display \<Rightarrow> display" where
  "draw_char c x y color d =
     fold (\<lambda>row d. fold (\<lambda>col d.
         if glyph_row c row AND drop_bit col 0x80 \<noteq> 0
         then display_set_pixel (x + of_nat col) (y + of_nat row) color d else d) [0..<8] d)
       [0..<8] d"

definition print_char :: "u32 \<Rightarrow> char \<Rightarrow> display \<Rightarrow> display" where
  "print_char color c d =
     (let d = (if c = CHR 0x0A then d\<lparr>cursor_x := 8, cursor_y := cursor_y d + 12\<rparr>
               else
                 let d = draw_char c (cursor_x d) (cursor_y d) color d;
                     d = d\<lparr>cursor_x := cursor_x d + 9\<rparr>
                 in if fb_w d < cursor_x d + 9 then d\<lparr>cursor_x := 8, cursor_y := cursor_y d + 12\<rparr> else d)
      in if fb_h d < cursor_y d + 12 then d\<lparr>cursor_y := 8\<rparr> else d)"

definition display_print_string :: "string \<Rightarrow> u32 \<Rightarrow> display \<Rightarrow> display" where
  "display_print_string s color d = fold (print_char color) s d"

definition display_print_boot_line :: "string \<Rightarrow> string \<Rightarrow> display \<Rightarrow> display" where
  "display_print_boot_line stage msg d =
     (let d = display_print_string ''  ['' 0xAAAAAAAA d;
          d = display_print_string stage 0x88CCFF d;
          d = display_print_string ''] '' 0xAAAAAAAA d;
          d = display_print_string msg 0xFFFFFF d
      in display_print_string [CHR 0x0A] 0xFFFFFF d)"

definition display_get_width :: "display \<Rightarrow> u32" where "display_get_width d = fb_w d"
definition display_get_height :: "display \<Rightarrow> u32" where "display_get_height d = fb_h d"

subsection \<open>Addresses of pixels\<close>

text \<open>A geometry a boot loader may report: rows fit the pitch, and the buffer the address space.\<close>

definition geometry_ok :: "display \<Rightarrow> bool" where
  "geometry_ok d \<longleftrightarrow> 4 * unat (fb_w d) \<le> unat (fb_pitch d) \<and> unat (fb_h d) * unat (fb_pitch d) < 2 ^ 32 \<and>
     unat (fb_base d) + unat (fb_h d) * unat (fb_pitch d) \<le> 2 ^ 64"

definition frame_bytes :: "display \<Rightarrow> nat set" where
  "frame_bytes d = {unat (fb_base d) ..< unat (fb_base d) + unat (fb_h d) * unat (fb_pitch d)}"

definition pixel :: "display \<Rightarrow> u32 \<Rightarrow> u32 \<Rightarrow> u32" where
  "pixel d x y = load32 (fbmem d) (pixel_addr d x y)"

lemma pixel_offset:
  assumes "geometry_ok d" and "x < fb_w d" and "y < fb_h d"
  shows "unat (pixel_addr d x y) = unat (fb_base d) + unat y * unat (fb_pitch d) + unat x * 4"
    and "unat y * unat (fb_pitch d) + unat x * 4 + 4 \<le> unat (fb_h d) * unat (fb_pitch d)"
proof -
  let ?p = "unat (fb_pitch d)"
  have x: "unat x * 4 + 4 \<le> ?p" and y: "unat y + 1 \<le> unat (fb_h d)"
    using assms by (simp_all add: geometry_ok_def word_less_nat_alt)
  have "(unat y + 1) * ?p \<le> unat (fb_h d) * ?p"
    by (rule mult_le_mono1 [OF y])
  with x show fit: "unat y * ?p + unat x * 4 + 4 \<le> unat (fb_h d) * ?p"
    by simp
  have g: "unat (fb_h d) * ?p < 2 ^ 32" "unat (fb_base d) + unat (fb_h d) * ?p \<le> 2 ^ 64"
    using assms(1) by (simp_all add: geometry_ok_def)
  have a: "unat (ucast (y * fb_pitch d) :: u64) = unat y * ?p"
    using fit g by (simp add: unsigned_ucast_eq unat_word_ariths take_bit_nat_eq_self)
  have b: "unat (ucast (x * 4) :: u64) = unat x * 4"
    using fit g by (simp add: unsigned_ucast_eq unat_word_ariths take_bit_nat_eq_self)
  show "unat (pixel_addr d x y) = unat (fb_base d) + unat y * ?p + unat x * 4"
    using fit g unfolding pixel_addr_def
    by (subst unat_add_small; (subst unat_add_small)?) (simp_all add: a b)
qed

lemma pixel_bytes:
  assumes "geometry_ok d" and "x < fb_w d" and "y < fb_h d"
  shows "a \<in> {pixel_addr d x y, pixel_addr d x y + 1, pixel_addr d x y + 2, pixel_addr d x y + 3} \<longleftrightarrow>
    unat a \<in> {unat (pixel_addr d x y) ..< unat (pixel_addr d x y) + 4}"
proof -
  let ?a = "pixel_addr d x y"
  have fit: "unat ?a + 4 \<le> 2 ^ 64"
    using pixel_offset [OF assms] assms(1) by (simp add: geometry_ok_def)
  have u: "unat (?a + 1) = unat ?a + 1" "unat (?a + 2) = unat ?a + 2" "unat (?a + 3) = unat ?a + 3"
    using fit by (subst unat_add_small; simp)+
  have "unat a \<in> {unat ?a ..< unat ?a + 4} \<longleftrightarrow>
      unat a = unat ?a \<or> unat a = unat (?a + 1) \<or> unat a = unat (?a + 2) \<or> unat a = unat (?a + 3)"
    unfolding u by auto
  then show ?thesis
    unfolding unat_eq_iff by simp
qed

lemma pixel_in_frame:
  assumes "geometry_ok d" and "x < fb_w d" and "y < fb_h d"
  shows "{unat (pixel_addr d x y) ..< unat (pixel_addr d x y) + 4} \<subseteq> frame_bytes d"
  using pixel_offset [OF assms] by (auto simp: frame_bytes_def)

lemma pixels_apart:
  assumes "geometry_ok d" and "x < fb_w d" "y < fb_h d" and "x' < fb_w d" "y' < fb_h d"
    and "(x, y) \<noteq> (x', y')"
  shows "{unat (pixel_addr d x y) ..< unat (pixel_addr d x y) + 4} \<inter>
    {unat (pixel_addr d x' y') ..< unat (pixel_addr d x' y') + 4} = {}"
proof -
  let ?p = "unat (fb_pitch d)"
  have x: "unat x * 4 + 4 \<le> ?p" "unat x' * 4 + 4 \<le> ?p"
    using assms(1,2,4) by (simp_all add: geometry_ok_def word_less_nat_alt)
  have row: "(m + 1) * ?p \<le> n * ?p" if "m < n" for m n
    using that by (intro mult_le_mono1) simp
  have ne: "unat x \<noteq> unat x' \<or> unat y \<noteq> unat y'"
    using assms(6) unfolding unat_eq_iff by simp
  consider "unat y < unat y'" | "unat y' < unat y" | "unat y = unat y'" "unat x \<noteq> unat x'"
    using ne by linarith
  then have "unat y * ?p + unat x * 4 + 4 \<le> unat y' * ?p + unat x' * 4 \<or>
      unat y' * ?p + unat x' * 4 + 4 \<le> unat y * ?p + unat x * 4"
  proof cases
    case 1
    from row [OF this] x show ?thesis by simp
  next
    case 2
    from row [OF this] x show ?thesis by simp
  next
    case 3
    then show ?thesis by simp linarith
  qed
  then show ?thesis
    unfolding pixel_offset(1) [OF assms(1-3)] pixel_offset(1) [OF assms(1,4,5)] by auto
qed

text \<open>Drawing keeps the geometry and touches no byte outside the frame buffer.\<close>

definition draws :: "display \<Rightarrow> display \<Rightarrow> bool" where
  "draws d d' \<longleftrightarrow> fb_base d' = fb_base d \<and> fb_w d' = fb_w d \<and> fb_h d' = fb_h d \<and> fb_pitch d' = fb_pitch d \<and>
     (\<forall>a. unat a \<notin> frame_bytes d \<longrightarrow> fbmem d' a = fbmem d a)"

lemma draws_refl [simp]: "draws d d"
  by (simp add: draws_def)

lemma draws_cursor [simp]: "draws d (d\<lparr>cursor_x := x\<rparr>)" "draws d (d\<lparr>cursor_y := y\<rparr>)"
  by (simp_all add: draws_def)

lemma draws_frame: "draws d d' \<Longrightarrow> frame_bytes d' = frame_bytes d"
  by (simp add: draws_def frame_bytes_def)

lemma draws_geometry: "draws d d' \<Longrightarrow> geometry_ok d' = geometry_ok d"
  by (simp add: draws_def geometry_ok_def)

lemma draws_addr: "draws d d' \<Longrightarrow> pixel_addr d' x y = pixel_addr d x y"
  by (simp add: draws_def pixel_addr_def)

lemma draws_trans: "draws d d' \<Longrightarrow> draws d' d'' \<Longrightarrow> draws d d''"
  using draws_frame [of d d'] by (simp add: draws_def)

lemma set_pixel_draws: "geometry_ok d \<Longrightarrow> draws d (display_set_pixel x y color d)"
proof (cases "fb_w d \<le> x \<or> fb_h d \<le> y")
  case False
  then have lt: "x < fb_w d" "y < fb_h d"
    by (simp_all add: not_le)
  assume g: "geometry_ok d"
  have "store32 (pixel_addr d x y) color (fbmem d) a = fbmem d a" if "unat a \<notin> frame_bytes d" for a
    using that pixel_in_frame [OF g lt] pixel_bytes [OF g lt, of a] by (intro store32_other) blast
  with False show ?thesis
    by (auto simp: display_set_pixel_def draws_def)
qed (simp add: display_set_pixel_def)

lemma fold_draws:
  assumes "geometry_ok d" and "\<And>x d. geometry_ok d \<Longrightarrow> draws d (f x d)"
  shows "draws d (fold f xs d)"
  using assms(1)
proof (induction xs arbitrary: d)
  case (Cons x xs)
  have "draws d (f x d)"
    by (rule assms(2) [OF Cons.prems])
  then show ?case
    using Cons draws_geometry draws_trans by fastforce
qed simp

lemma draw_char_draws: "geometry_ok d \<Longrightarrow> draws d (draw_char c x y color d)"
  unfolding draw_char_def by (intro fold_draws) (auto intro: set_pixel_draws)

lemma display_clear_draws: "geometry_ok d \<Longrightarrow> draws d (display_clear d)"
  unfolding display_clear_def
  by (rule draws_trans [OF _ draws_trans [OF draws_cursor(1) draws_cursor(2)]])
    (intro fold_draws set_pixel_draws)

lemma print_char_draws: "geometry_ok d \<Longrightarrow> draws d (print_char color c d)"
  using draw_char_draws [of d c "cursor_x d" "cursor_y d" color]
  by (auto simp: print_char_def Let_def draws_def frame_bytes_def)

lemma print_string_draws: "geometry_ok d \<Longrightarrow> draws d (display_print_string s color d)"
  unfolding display_print_string_def by (intro fold_draws print_char_draws)

subsection \<open>Pixels read back\<close>

lemma pixel_set_pixel:
  assumes g: "geometry_ok d" and "x < fb_w d" "y < fb_h d" and "x' < fb_w d" "y' < fb_h d"
  shows "pixel (display_set_pixel x y color d) x' y' = (if (x', y') = (x, y) then color else pixel d x' y')"
proof -
  have addr: "pixel_addr (display_set_pixel x y color d) u v = pixel_addr d u v" for u v
    by (rule draws_addr [OF set_pixel_draws [OF g]])
  have mem: "fbmem (display_set_pixel x y color d) = store32 (pixel_addr d x y) color (fbmem d)"
    using assms(2,3) by (simp add: display_set_pixel_def not_le [symmetric])
  show ?thesis
  proof (cases "(x', y') = (x, y)")
    case True
    then show ?thesis
      by (simp add: pixel_def addr mem load_store32)
  next
    case False
    have "load32 (store32 (pixel_addr d x y) color (fbmem d)) (pixel_addr d x' y') =
        load32 (fbmem d) (pixel_addr d x' y')"
      using pixels_apart [OF g assms(4,5,2,3) False] pixel_bytes [OF g assms(2,3)] pixel_bytes [OF g assms(4,5)]
      by (intro load_store32_other) blast
    then show ?thesis
      using False by (auto simp: pixel_def addr mem)
  qed
qed

subsection \<open>Clearing and the cursor\<close>

lemma fold_set_row:
  assumes "geometry_ok d" and "y < fb_h d" and "n \<le> unat (fb_w d)" and "x' < fb_w d" and "y' < fb_h d"
  shows "pixel (fold (\<lambda>x d. display_set_pixel (of_nat x) y color d) [0..<n] d) x' y' =
    (if y' = y \<and> unat x' < n then color else pixel d x' y')"
  using assms(3)
proof (induction n)
  case (Suc n)
  let ?d = "fold (\<lambda>x d. display_set_pixel (of_nat x) y color d) [0..<n] d"
  have dr: "draws d ?d"
    by (rule fold_draws [OF assms(1) set_pixel_draws])
  have g: "geometry_ok ?d" and eq: "fb_w ?d = fb_w d" "fb_h ?d = fb_h d"
    using dr assms(1) draws_geometry [OF dr] by (auto simp: draws_def)
  have n: "unat (of_nat n :: u32) = n"
    using Suc.prems unat_lt_2p32 [of "fb_w d"] by (intro unat_of_nat_u32) simp
  then have lt: "of_nat n < fb_w ?d"
    using Suc.prems by (simp add: eq word_less_nat_alt)
  have same: "x' = of_nat n \<longleftrightarrow> unat x' = n"
    using n unat_eq_iff [of x' "of_nat n"] by auto
  have "pixel (display_set_pixel (of_nat n) y color ?d) x' y' =
      (if (x', y') = (of_nat n, y) then color else pixel ?d x' y')"
    using assms(2,4,5) lt by (intro pixel_set_pixel [OF g]) (simp_all add: eq)
  then show ?case
    using Suc by (auto simp: same less_Suc_eq)
qed simp

lemma fold_clear_rows:
  assumes "geometry_ok d" and "n \<le> unat (fb_h d)" and "x' < fb_w d" and "y' < fb_h d"
  shows "pixel (fold (\<lambda>y d. fold (\<lambda>x d. display_set_pixel (of_nat x) (of_nat y) color d)
      [0..<unat (fb_w d)] d) [0..<n] d) x' y' = (if unat y' < n then color else pixel d x' y')"
    (is "pixel (fold ?row _ _) _ _ = _")
proof -
  have row: "draws e (?row y e)" if "geometry_ok e" for y e
    by (rule fold_draws [OF that set_pixel_draws])
  have "pixel (fold (\<lambda>y e. fold (\<lambda>x e. display_set_pixel (of_nat x) (of_nat y) color e)
      [0..<unat (fb_w e)] e) [0..<n] d) x' y' = (if unat y' < n then color else pixel d x' y') \<and>
      draws d (fold (\<lambda>y e. fold (\<lambda>x e. display_set_pixel (of_nat x) (of_nat y) color e)
        [0..<unat (fb_w e)] e) [0..<n] d)"
    using assms(2)
  proof (induction n)
    case (Suc n)
    let ?d = "fold (\<lambda>y e. fold (\<lambda>x e. display_set_pixel (of_nat x) (of_nat y) color e)
        [0..<unat (fb_w e)] e) [0..<n] d"
    have dr: "draws d ?d"
      using Suc by simp
    have g: "geometry_ok ?d" and eq: "fb_w ?d = fb_w d" "fb_h ?d = fb_h d"
      using dr assms(1) draws_geometry [OF dr] by (auto simp: draws_def)
    have n: "unat (of_nat n :: u32) = n"
      using Suc.prems unat_lt_2p32 [of "fb_h d"] by (intro unat_of_nat_u32) simp
    then have lt: "of_nat n < fb_h ?d"
      using Suc.prems by (simp add: eq word_less_nat_alt)
    have same: "y' = of_nat n \<longleftrightarrow> unat y' = n"
      using n unat_eq_iff [of y' "of_nat n"] by auto
    have "pixel (?row n ?d) x' y' = (if y' = of_nat n \<and> unat x' < unat (fb_w d) then color else pixel ?d x' y')"
      using fold_set_row [OF g lt, of "unat (fb_w d)" x' y' color] assms(3,4) by (simp add: eq)
    moreover have "unat x' < unat (fb_w d)"
      using assms(3) by (simp add: word_less_nat_alt)
    moreover have "draws d (?row n ?d)"
      by (rule draws_trans [OF dr row [OF g]])
    ultimately show ?case
      using Suc by (auto simp: same less_Suc_eq eq)
  qed simp
  then show ?thesis by simp
qed

lemma display_clear_pixel:
  assumes "geometry_ok d" and "x < fb_w d" and "y < fb_h d"
  shows "pixel (display_clear d) x y = 0x00101010"
proof -
  have "pixel (display_clear d) x y = pixel (fold (\<lambda>y d. fold (\<lambda>x d. display_set_pixel (of_nat x) (of_nat y)
      0x00101010 d) [0..<unat (fb_w d)] d) [0..<unat (fb_h d)] d) x y"
    by (simp add: display_clear_def pixel_def pixel_addr_def)
  also have "\<dots> = 0x00101010"
    using fold_clear_rows [OF assms(1) order_refl assms(2,3), of "0x00101010"] assms(3)
    by (simp add: word_less_nat_alt)
  finally show ?thesis .
qed

text \<open>
  On a screen with room for one glyph and its margins, the next glyph always lies on the screen.
\<close>

definition cursor_ok :: "display \<Rightarrow> bool" where
  "cursor_ok d \<longleftrightarrow> unat (cursor_x d) + 9 \<le> unat (fb_w d) \<and> unat (cursor_y d) + 12 \<le> unat (fb_h d)"

definition screen_ok :: "display \<Rightarrow> bool" where
  "screen_ok d \<longleftrightarrow> geometry_ok d \<and> 17 \<le> unat (fb_w d) \<and> 20 \<le> unat (fb_h d) \<and>
     unat (fb_w d) < 2 ^ 31 \<and> unat (fb_h d) < 2 ^ 31"

lemma unat_add_small32: "unat (a :: u32) + unat b < 2 ^ 32 \<Longrightarrow> unat (a + b) = unat a + unat b"
  by (simp add: unat_word_ariths)

lemma draw_char_cursor:
  "cursor_x (draw_char c x y color d) = cursor_x d" "cursor_y (draw_char c x y color d) = cursor_y d"
  unfolding draw_char_def by (intro fold_keeps; simp add: display_set_pixel_def)+

lemma print_char_cursor:
  assumes s: "screen_ok d" and c: "cursor_ok d"
  shows "cursor_ok (print_char color c d)" and "screen_ok (print_char color c d)"
proof -
  let ?e = "draw_char c (cursor_x d) (cursor_y d) color d"
  have g: "geometry_ok d"
    using s by (simp add: screen_ok_def)
  have dr: "draws d (print_char color c d)"
    by (rule print_char_draws [OF g])
  then show "screen_ok (print_char color c d)"
    using s draws_geometry [OF dr] by (simp add: screen_ok_def draws_def)
  have e: "draws d ?e"
    by (rule draw_char_draws [OF g])
  note cur = draw_char_cursor [of c "cursor_x d" "cursor_y d" color d]
  have wh: "fb_w ?e = fb_w d" "fb_h ?e = fb_h d"
    using e by (simp_all add: draws_def)
  have bounds: "unat (cursor_x d) + 9 \<le> unat (fb_w d)" "unat (cursor_y d) + 12 \<le> unat (fb_h d)"
      "17 \<le> unat (fb_w d)" "20 \<le> unat (fb_h d)" "unat (fb_w d) < 2147483648" "unat (fb_h d) < 2147483648"
    using s c by (simp_all add: screen_ok_def cursor_ok_def)
  have u: "unat (cursor_x d + 9) = unat (cursor_x d) + 9" "unat (cursor_x d + 9 + 9) = unat (cursor_x d) + 18"
      "unat (cursor_y d + 12) = unat (cursor_y d) + 12" "unat (cursor_y d + 12 + 12) = unat (cursor_y d) + 24"
    using bounds by (simp_all add: unat_add_small32)
  show "cursor_ok (print_char color c d)"
  proof (cases "c = CHR 0x0A")
    case True
    then show ?thesis
      using bounds u by (auto simp: cursor_ok_def print_char_def Let_def word_less_nat_alt)
  next
    case False
    then show ?thesis
      using bounds u by (auto simp: cursor_ok_def print_char_def Let_def word_less_nat_alt cur wh not_less)
  qed
qed

lemma print_string_cursor:
  "screen_ok d \<Longrightarrow> cursor_ok d \<Longrightarrow> cursor_ok (display_print_string s color d)"
  unfolding display_print_string_def
  by (induction s arbitrary: d) (simp_all add: print_char_cursor)

subsection \<open>The pixels of a glyph\<close>

lemma draw_row_pixels:
  assumes "geometry_ok d" and "unat x + 8 \<le> unat (fb_w d)" and "y < fb_h d" and "x' < fb_w d" and "y' < fb_h d" and "n \<le> 8"
  shows "pixel (fold (\<lambda>col d. if b col then display_set_pixel (x + of_nat col) y color d else d) [0..<n] d) x' y' =
    (if y' = y \<and> (\<exists>col < n. b col \<and> unat x' = unat x + col) then color else pixel d x' y')"
  using assms(6)
proof (induction n)
  case (Suc n)
  let ?d = "fold (\<lambda>col d. if b col then display_set_pixel (x + of_nat col) y color d else d) [0..<n] d"
  have dr: "draws d ?d"
    by (rule fold_draws [OF assms(1)]) (simp add: set_pixel_draws)
  have g: "geometry_ok ?d" and eq: "fb_w ?d = fb_w d" "fb_h ?d = fb_h d"
    using dr assms(1) draws_geometry [OF dr] by (auto simp: draws_def)
  have "unat (x + of_nat n) = unat x + unat (of_nat n :: u32)"
    using Suc.prems assms(2) unat_lt_2p32 [of "fb_w d"] by (intro unat_add_small32) (simp add: unat_of_nat_u32)
  then have n: "unat (x + of_nat n) = unat x + n"
    using Suc.prems by (simp add: unat_of_nat_u32)
  then have lt: "x + of_nat n < fb_w ?d" "y < fb_h ?d"
    using Suc.prems assms(2,3) by (simp_all add: eq word_less_nat_alt)
  have "x' = x + of_nat n \<longleftrightarrow> unat x' = unat x + n"
    using n unat_eq_iff [of x' "x + of_nat n"] by simp
  moreover have "pixel (display_set_pixel (x + of_nat n) y color ?d) x' y' =
      (if (x', y') = (x + of_nat n, y) then color else pixel ?d x' y')"
    using assms(4,5) by (intro pixel_set_pixel [OF g lt]) (simp_all add: eq)
  ultimately show ?case
    using Suc by (auto simp: less_Suc_eq)
qed simp

definition glyph_dot :: "char \<Rightarrow> nat \<Rightarrow> nat \<Rightarrow> bool" where
  "glyph_dot c row col \<longleftrightarrow> row < 8 \<and> col < 8 \<and> bit (glyph_row c row) (7 - col)"

lemma column_bit: "col < 8 \<Longrightarrow> w AND drop_bit col (0x80 :: u8) \<noteq> 0 \<longleftrightarrow> bit w (7 - col)"
proof -
  assume col: "col < 8"
  have top: "bit (0x80 :: u8) n \<longleftrightarrow> n = 7" for n
  proof -
    have "(0x80 :: u8) = 2 ^ 7"
      by simp
    then show ?thesis
      by (simp only: bit_exp_iff) auto
  qed
  have hit: "bit (w AND drop_bit col 0x80) n \<longleftrightarrow> n = 7 - col \<and> bit w n" for n
    unfolding bit_and_iff bit_drop_bit_eq comp_def top using col by auto
  have "v = 0 \<longleftrightarrow> (\<forall>n. \<not> bit v n)" for v :: u8
  proof
    assume "\<forall>n. \<not> bit v n"
    then show "v = 0"
      by (intro bit_word_eqI) simp
  qed simp
  from this [of "w AND drop_bit col 0x80"] show ?thesis
    unfolding hit by blast
qed

lemma draw_char_pixels:
  assumes "geometry_ok d" and "unat x + 8 \<le> unat (fb_w d)" and "unat y + 8 \<le> unat (fb_h d)"
    and "x' < fb_w d" and "y' < fb_h d"
  shows "pixel (draw_char c x y color d) x' y' =
    (if \<exists>row col. glyph_dot c row col \<and> unat x' = unat x + col \<and> unat y' = unat y + row then color else pixel d x' y')"
proof -
  let ?row = "\<lambda>row d. fold (\<lambda>col d. if glyph_row c row AND drop_bit col 0x80 \<noteq> 0
         then display_set_pixel (x + of_nat col) (y + of_nat row) color d else d) [0..<8] d"
  have row: "draws e (?row r e)" if "geometry_ok e" for r e
    by (rule fold_draws [OF that]) (simp add: set_pixel_draws)
  have "pixel (fold ?row [0..<n] d) x' y' =
      (if \<exists>r < n. \<exists>col. glyph_dot c r col \<and> unat x' = unat x + col \<and> unat y' = unat y + r then color else pixel d x' y') \<and>
      draws d (fold ?row [0..<n] d)" if "n \<le> 8" for n
    using that
  proof (induction n)
    case (Suc n)
    let ?d = "fold ?row [0..<n] d"
    have dr: "draws d ?d"
      using Suc by simp
    have g: "geometry_ok ?d" and eq: "fb_w ?d = fb_w d" "fb_h ?d = fb_h d"
      using dr assms(1) draws_geometry [OF dr] by (auto simp: draws_def)
    have "unat (y + of_nat n) = unat y + unat (of_nat n :: u32)"
      using Suc.prems assms(3) unat_lt_2p32 [of "fb_h d"] by (intro unat_add_small32) (simp add: unat_of_nat_u32)
    then have n: "unat (y + of_nat n) = unat y + n"
      using Suc.prems by (simp add: unat_of_nat_u32)
    then have lt: "y + of_nat n < fb_h ?d" "unat x + 8 \<le> unat (fb_w ?d)"
      using Suc.prems assms(2,3) by (simp_all add: eq word_less_nat_alt)
    have same: "y' = y + of_nat n \<longleftrightarrow> unat y' = unat y + n"
      using n unat_eq_iff [of y' "y + of_nat n"] by simp
    have dots: "(\<exists>col < 8. glyph_row c n AND drop_bit col 0x80 \<noteq> 0 \<and> unat x' = unat x + col) \<longleftrightarrow>
        (\<exists>col. glyph_dot c n col \<and> unat x' = unat x + col)"
      using Suc.prems by (auto simp: glyph_dot_def column_bit)
    have "pixel (?row n ?d) x' y' = (if y' = y + of_nat n \<and>
        (\<exists>col < 8. glyph_row c n AND drop_bit col 0x80 \<noteq> 0 \<and> unat x' = unat x + col) then color else pixel ?d x' y')"
      using assms(4,5) by (intro draw_row_pixels [OF g lt(2,1)]) (simp_all add: eq)
    also have "\<dots> = (if unat y' = unat y + n \<and> (\<exists>col. glyph_dot c n col \<and> unat x' = unat x + col) then color
        else pixel ?d x' y')"
      by (simp only: same dots)
    finally have "pixel (?row n ?d) x' y' = \<dots>" .
    moreover have "draws d (?row n ?d)"
      by (rule draws_trans [OF dr row [OF g]])
    ultimately show ?case
      using Suc by (auto simp: less_Suc_eq)
  qed simp
  from this [of 8] show ?thesis
    unfolding draw_char_def by (auto simp: glyph_dot_def)
qed

lemma print_char_pixel: "pixel (print_char color c d) x y =
    (if c = CHR 0x0A then pixel d x y else pixel (draw_char c (cursor_x d) (cursor_y d) color d) x y)"
  by (simp add: print_char_def Let_def pixel_def pixel_addr_def)

lemma printed_screen_ok:
  assumes "screen_ok d" and "cursor_ok d"
  shows "screen_ok (display_print_string s color d)"
  using assms unfolding display_print_string_def
  by (induction s arbitrary: d) (simp_all add: print_char_cursor)

subsection \<open>Properties\<close>


text \<open>Printing a string changes no byte outside the frame buffer, whatever the text, the cursor
  and the colour, on any geometry whose rows fit the pitch and whose buffer fits the address
  space.\<close>

theorem print_stays_in_frame:
  assumes "geometry_ok d" and "unat a \<notin> frame_bytes d"
  shows "fbmem (display_print_string s color d) a = fbmem d a"
  using print_string_draws [OF assms(1)] assms(2) by (simp add: draws_def)

definition small_screen :: display where
  "small_screen = \<lparr>fb_base = 4096, fb_w = 20, fb_h = 24, fb_pitch = 80, cursor_x = 8, cursor_y = 8,
     fbmem = (\<lambda>_. 0)\<rparr>"

lemma small_screen_ok: "screen_ok small_screen" "cursor_ok small_screen"
  by (simp_all add: screen_ok_def cursor_ok_def geometry_ok_def small_screen_def)


theorem print_stays_in_frame_witness:
  "fbmem (display_print_string ''ab!'' 0xFFFFFF small_screen) 0 = 0"
  by (subst print_stays_in_frame) (simp_all add: geometry_ok_def frame_bytes_def small_screen_def)

text \<open>A pixel set inside the screen reads back as its colour and no other pixel changes; one set
  outside changes nothing; and a cleared screen is the background colour everywhere, with the
  cursor at the top left.\<close>

theorem pixels_read_back:
  assumes "geometry_ok d" and "x < fb_w d" and "y < fb_h d"
  shows "pixel (display_set_pixel px py color d) x y = (if (x, y) = (px, py) then color else pixel d x y) \<and>
    pixel (display_clear d) x y = 0x00101010 \<and> cursor_x (display_clear d) = 8 \<and> cursor_y (display_clear d) = 8"
proof -
  have "pixel (display_set_pixel px py color d) x y = (if (x, y) = (px, py) then color else pixel d x y)"
  proof (cases "px < fb_w d \<and> py < fb_h d")
    case True
    then show ?thesis
      using pixel_set_pixel [OF assms(1) _ _ assms(2,3)] by simp
  next
    case False
    then show ?thesis
      using assms(2,3) by (auto simp: display_set_pixel_def not_le)
  qed
  then show ?thesis
    using display_clear_pixel [OF assms] by (simp add: display_clear_def)
qed

theorem pixels_read_back_witness:
  "pixel (display_set_pixel 3 4 7 small_screen) 3 4 = 7 \<and> pixel (display_clear small_screen) 3 4 = 0x00101010"
  using pixels_read_back [of small_screen 3 4 3 4 7] by (simp add: small_screen_def geometry_ok_def)

text \<open>On a screen of at least 17 by 20 pixels the cursor never leaves it: after any text, the
  next glyph and its margin still lie wholly on the screen.\<close>

theorem cursor_stays_on_screen:
  assumes "screen_ok d" and "cursor_ok d"
  shows "cursor_ok (display_print_string s color d)"
  using assms by (rule print_string_cursor)

theorem cursor_stays_on_screen_witness:
  "cursor_ok (display_print_string ''hello, world'' 1 small_screen)"
  by (rule cursor_stays_on_screen)
    (simp_all add: screen_ok_def cursor_ok_def geometry_ok_def small_screen_def)

end
