(* ===== verification/Pci.thy ===== *)
theory Pci
  imports Ports
begin

section \<open>The PCI configuration space\<close>

text \<open>
  \<^verbatim>\<open>kernel/drivers/pci/pci.c\<close>: configuration reads and writes through the two ports, the scan
  of the buses for a class or a device, and the decoding of base addresses. What the serial
  line prints during the scan is left out.
\<close>

definition PCI_CONFIG_ADDR :: u16 where "PCI_CONFIG_ADDR = 0xCF8"
definition PCI_CONFIG_DATA :: u16 where "PCI_CONFIG_DATA = 0xCFC"

record PciDevice =
  vendor :: u16
  device :: u16
  pci_class :: u8
  pci_subclass :: u8
  pci_bus_no :: u8
  slot_no :: u8
  func_no :: u8
  bar :: "nat \<Rightarrow> u32"
  pci_irq :: u8

definition pci_addr :: "u8 \<Rightarrow> u8 \<Rightarrow> u8 \<Rightarrow> u8 \<Rightarrow> u32" where
  "pci_addr bus_no slot func off =
     0x80000000 OR push_bit 16 (ucast bus_no) OR push_bit 11 (ucast slot) OR push_bit 8 (ucast func)
     OR ucast (off AND 0xFC)"

definition pci_read32 :: "'d bus \<Rightarrow> u8 \<Rightarrow> u8 \<Rightarrow> u8 \<Rightarrow> u8 \<Rightarrow> 'd \<Rightarrow> u32 \<times> 'd" where
  "pci_read32 b bus_no slot func off d =
     inl b PCI_CONFIG_DATA (outl b PCI_CONFIG_ADDR (pci_addr bus_no slot func off) d)"

definition pci_write32 :: "'d bus \<Rightarrow> u8 \<Rightarrow> u8 \<Rightarrow> u8 \<Rightarrow> u8 \<Rightarrow> u32 \<Rightarrow> 'd \<Rightarrow> 'd" where
  "pci_write32 b bus_no slot func off v d =
     outl b PCI_CONFIG_DATA v (outl b PCI_CONFIG_ADDR (pci_addr bus_no slot func off) d)"

definition probe_device :: "'d bus \<Rightarrow> u8 \<Rightarrow> u8 \<Rightarrow> u8 \<Rightarrow> 'd \<Rightarrow> 'd" where
  "probe_device b bus_no slot func d =
     (let (ident, d) = pci_read32 b bus_no slot func 0 d
      in if ident = 0xFFFFFFFF then d else snd (pci_read32 b bus_no slot func 8 d))"

text \<open>The slots in the order of the two nested loops.\<close>

definition pci_slots :: "(u8 \<times> u8) list" where
  "pci_slots = map (\<lambda>(i, j). (of_nat i, of_nat j)) (List.product [0..<256] [0..<32])"

definition pci_init :: "'d bus \<Rightarrow> 'd \<Rightarrow> 'd" where
  "pci_init b d = fold (\<lambda>(bus_no, slot) d. probe_device b bus_no slot 0 d) pci_slots d"

definition read_bar :: "'d bus \<Rightarrow> u8 \<Rightarrow> u8 \<Rightarrow> nat \<Rightarrow> PciDevice \<times> 'd \<Rightarrow> PciDevice \<times> 'd" where
  "read_bar b bus_no slot i = (\<lambda>(dev, d).
     let (v, d) = pci_read32 b bus_no slot 0 (0x10 + of_nat i * 4) d
     in (dev\<lparr>bar := (bar dev)(i := v)\<rparr>, d))"

definition read_bars :: "'d bus \<Rightarrow> u8 \<Rightarrow> u8 \<Rightarrow> PciDevice \<times> 'd \<Rightarrow> PciDevice \<times> 'd" where
  "read_bars b bus_no slot s = fold (read_bar b bus_no slot) [0..<6] s"

definition class_matches :: "u32 \<Rightarrow> u8 \<Rightarrow> u8 \<Rightarrow> bool" where
  "class_matches cc cls sub \<longleftrightarrow>
     drop_bit 24 cc AND 0xFF = ucast cls \<and> drop_bit 16 cc AND 0xFF = ucast sub"

fun find_class_in ::
  "'d bus \<Rightarrow> u8 \<Rightarrow> u8 \<Rightarrow> (u8 \<times> u8) list \<Rightarrow> PciDevice \<Rightarrow> 'd \<Rightarrow> int \<times> PciDevice \<times> 'd" where
  "find_class_in b cls sub [] dev d = (-1, dev, d)"
| "find_class_in b cls sub ((bus_no, slot) # rest) dev d =
     (let (ident, d) = pci_read32 b bus_no slot 0 0 d
      in if ident = 0xFFFFFFFF then find_class_in b cls sub rest dev d
         else
           let (cc, d) = pci_read32 b bus_no slot 0 8 d
           in if class_matches cc cls sub
              then
                let dev = dev\<lparr>vendor := ucast (ident AND 0xFFFF), device := ucast (drop_bit 16 ident),
                              pci_bus_no := bus_no, slot_no := slot, func_no := 0\<rparr>;
                    (dev, d) = read_bars b bus_no slot (dev, d);
                    (v, d) = pci_read32 b bus_no slot 0 0x3C d
                in (0, dev\<lparr>pci_irq := ucast (v AND 0xFF)\<rparr>, d)
              else find_class_in b cls sub rest dev d)"

definition pci_find_class :: "'d bus \<Rightarrow> u8 \<Rightarrow> u8 \<Rightarrow> PciDevice \<Rightarrow> 'd \<Rightarrow> int \<times> PciDevice \<times> 'd" where
  "pci_find_class b cls sub dev d = find_class_in b cls sub pci_slots dev d"

fun find_device_in ::
  "'d bus \<Rightarrow> u16 \<Rightarrow> u16 \<Rightarrow> (u8 \<times> u8) list \<Rightarrow> PciDevice \<Rightarrow> 'd \<Rightarrow> int \<times> PciDevice \<times> 'd" where
  "find_device_in b ven dv [] dev d = (-1, dev, d)"
| "find_device_in b ven dv ((bus_no, slot) # rest) dev d =
     (let (ident, d) = pci_read32 b bus_no slot 0 0 d
      in if ucast (ident AND 0xFFFF) = ven \<and> ucast (drop_bit 16 ident) = dv
         then
           let dev = dev\<lparr>vendor := ven, device := dv, pci_bus_no := bus_no, slot_no := slot, func_no := 0\<rparr>;
               (dev, d) = read_bars b bus_no slot (dev, d)
           in (0, dev, d)
         else find_device_in b ven dv rest dev d)"

definition pci_find_device :: "'d bus \<Rightarrow> u16 \<Rightarrow> u16 \<Rightarrow> PciDevice \<Rightarrow> 'd \<Rightarrow> int \<times> PciDevice \<times> 'd" where
  "pci_find_device b ven dv dev d = find_device_in b ven dv pci_slots dev d"

definition pci_enable_bus_master :: "'d bus \<Rightarrow> PciDevice \<Rightarrow> 'd \<Rightarrow> 'd" where
  "pci_enable_bus_master b dev d =
     (let (cmd, d) = pci_read32 b (pci_bus_no dev) (slot_no dev) (func_no dev) 4 d
      in pci_write32 b (pci_bus_no dev) (slot_no dev) (func_no dev) 4 (cmd OR 0x07) d)"

text \<open>The upper half of a 64-bit base address is read from the next slot, of which there are six.\<close>

definition pci_get_bar :: "PciDevice \<Rightarrow> nat \<Rightarrow> u64 checked" where
  "pci_get_bar dev idx =
     (if 6 \<le> idx then Inl BufferOverflow
      else
        let lo = bar dev idx
        in if lo AND 1 \<noteq> 0 then Inr (ucast lo AND NOT 3)
           else if drop_bit 1 lo AND 3 = 2 then
             (if 6 \<le> idx + 1 then Inl BufferOverflow
              else Inr ((ucast lo AND NOT 0xF) OR push_bit 32 (ucast (bar dev (idx + 1)))))
           else Inr (ucast lo AND NOT 0xF))"

subsection \<open>Configuration reads\<close>

text \<open>
  What the scan relies on of the configuration mechanism: a read through the two ports returns
  the register of the address and leaves the registers as they are.
\<close>

definition config_space :: "'d bus \<Rightarrow> ('d \<Rightarrow> u32 \<Rightarrow> u32) \<Rightarrow> bool" where
  "config_space b cfg \<longleftrightarrow>
     (\<forall>d a. fst (inl b PCI_CONFIG_DATA (outl b PCI_CONFIG_ADDR a d)) = cfg d a \<and>
        cfg (snd (inl b PCI_CONFIG_DATA (outl b PCI_CONFIG_ADDR a d))) = cfg d)"

definition pci_reg :: "(u32 \<Rightarrow> u32) \<Rightarrow> u8 \<times> u8 \<Rightarrow> u8 \<Rightarrow> u32" where
  "pci_reg c = (\<lambda>(bus_no, slot) off. c (pci_addr bus_no slot 0 off))"

definition has_class :: "(u32 \<Rightarrow> u32) \<Rightarrow> u8 \<Rightarrow> u8 \<Rightarrow> u8 \<times> u8 \<Rightarrow> bool" where
  "has_class c cls sub s \<longleftrightarrow> pci_reg c s 0 \<noteq> 0xFFFFFFFF \<and> class_matches (pci_reg c s 8) cls sub"

lemma pci_read32_config:
  assumes "config_space b cfg"
  shows "\<exists>d'. pci_read32 b bus_no slot 0 off d = (pci_reg (cfg d) (bus_no, slot) off, d') \<and> cfg d' = cfg d"
proof -
  obtain v d' where r: "pci_read32 b bus_no slot 0 off d = (v, d')"
    by fastforce
  then have "v = cfg d (pci_addr bus_no slot 0 off)" "cfg d' = cfg d"
    using assms unfolding config_space_def pci_read32_def by (metis fst_conv, metis snd_conv)
  with r show ?thesis
    by (auto simp: pci_reg_def)
qed

definition bars_read :: "(u32 \<Rightarrow> u32) \<Rightarrow> u8 \<times> u8 \<Rightarrow> nat \<Rightarrow> (nat \<Rightarrow> u32) \<Rightarrow> nat \<Rightarrow> u32" where
  "bars_read c s n old = (\<lambda>i. if i < n then pci_reg c s (0x10 + of_nat i * 4) else old i)"

lemma bars_read_Suc:
  "(bars_read c s n old)(n := pci_reg c s (0x10 + of_nat n * 4)) = bars_read c s (Suc n) old"
  by (auto simp: bars_read_def less_Suc_eq)

lemma read_bars_config:
  assumes "config_space b cfg"
  shows "\<exists>d'. read_bars b bus_no slot (dev, d) =
    (dev\<lparr>bar := bars_read (cfg d) (bus_no, slot) 6 (bar dev)\<rparr>, d') \<and> cfg d' = cfg d"
proof -
  have "\<exists>d'. fold (read_bar b bus_no slot) [0..<n] (dev, d) =
      (dev\<lparr>bar := bars_read (cfg d) (bus_no, slot) n (bar dev)\<rparr>, d') \<and> cfg d' = cfg d" for n
  proof (induction n)
    case 0
    then show ?case
      by (simp add: bars_read_def)
  next
    case (Suc n)
    then obtain d1 where d1: "fold (read_bar b bus_no slot) [0..<n] (dev, d) =
        (dev\<lparr>bar := bars_read (cfg d) (bus_no, slot) n (bar dev)\<rparr>, d1)" "cfg d1 = cfg d"
      by blast
    obtain d2 where "pci_read32 b bus_no slot 0 (0x10 + of_nat n * 4) d1 =
        (pci_reg (cfg d) (bus_no, slot) (0x10 + of_nat n * 4), d2)" "cfg d2 = cfg d"
      using pci_read32_config [OF assms, of bus_no slot "0x10 + of_nat n * 4" d1] unfolding d1(2) by blast
    then have "read_bar b bus_no slot n (dev\<lparr>bar := bars_read (cfg d) (bus_no, slot) n (bar dev)\<rparr>, d1) =
        (dev\<lparr>bar := bars_read (cfg d) (bus_no, slot) (Suc n) (bar dev)\<rparr>, d2)" "cfg d2 = cfg d"
      by (simp_all add: read_bar_def bars_read_Suc)
    then show ?case
      using d1(1) by (intro exI [of _ d2]) simp
  qed
  then show ?thesis
    unfolding read_bars_def .
qed

text \<open>What a successful search leaves in the caller's record.\<close>

definition found_device :: "(u32 \<Rightarrow> u32) \<Rightarrow> u8 \<times> u8 \<Rightarrow> PciDevice \<Rightarrow> PciDevice" where
  "found_device c s dev = dev\<lparr>vendor := ucast (pci_reg c s 0 AND 0xFFFF),
     device := ucast (drop_bit 16 (pci_reg c s 0)), pci_bus_no := fst s, slot_no := snd s, func_no := 0,
     bar := bars_read c s 6 (bar dev),
     pci_irq := ucast (pci_reg c s 0x3C AND 0xFF)\<rparr>"

lemma find_class_in_config:
  assumes "config_space b cfg"
  shows "\<exists>d'. cfg d' = cfg d \<and> find_class_in b cls sub slots dev d =
    (case find (has_class (cfg d) cls sub) slots of
       None \<Rightarrow> (-1, dev, d') | Some s \<Rightarrow> (0, found_device (cfg d) s dev, d'))"
proof (induction slots arbitrary: d)
  case (Cons s slots)
  obtain bus_no slot where s: "s = (bus_no, slot)"
    by fastforce
  obtain d1 where d1: "pci_read32 b bus_no slot 0 0 d = (pci_reg (cfg d) s 0, d1)" "cfg d1 = cfg d"
    using pci_read32_config [OF assms] unfolding s by blast
  show ?case
  proof (cases "pci_reg (cfg d) s 0 = 0xFFFFFFFF")
    case True
    then show ?thesis
      using Cons [of d1, unfolded d1(2)] d1 by (simp add: s has_class_def)
  next
    case False
    obtain d2 where d2: "pci_read32 b bus_no slot 0 8 d1 = (pci_reg (cfg d) s 8, d2)" "cfg d2 = cfg d"
      using pci_read32_config [OF assms, of bus_no slot 8 d1] d1(2) unfolding s by auto
    show ?thesis
    proof (cases "class_matches (pci_reg (cfg d) s 8) cls sub")
      case no: False
      then show ?thesis
        using Cons [of d2, unfolded d2(2)] d1 d2 False by (simp add: s has_class_def)
    next
      case True
      let ?dev = "dev\<lparr>vendor := ucast (pci_reg (cfg d) s 0 AND 0xFFFF),
         device := ucast (drop_bit 16 (pci_reg (cfg d) s 0)), pci_bus_no := bus_no, slot_no := slot, func_no := 0\<rparr>"
      obtain d3 where d3: "read_bars b bus_no slot (?dev, d2) =
          (?dev\<lparr>bar := bars_read (cfg d) s 6 (bar ?dev)\<rparr>, d3)" "cfg d3 = cfg d"
        using read_bars_config [OF assms, of bus_no slot ?dev d2] unfolding s d2(2) by blast
      obtain d4 where d4: "pci_read32 b bus_no slot 0 0x3C d3 = (pci_reg (cfg d) s 0x3C, d4)" "cfg d4 = cfg d"
        using pci_read32_config [OF assms, of bus_no slot "0x3C" d3] d3(2) unfolding s by auto
      show ?thesis
        using True False d1 d2 d3 d4
        by (intro exI [of _ d4]) (simp add: s has_class_def found_device_def)
    qed
  qed
qed auto

subsection \<open>The fields of a configuration address\<close>

definition cfg_bus :: "u32 \<Rightarrow> u8" where "cfg_bus a = ucast (drop_bit 16 a)"
definition cfg_slot :: "u32 \<Rightarrow> u8" where "cfg_slot a = ucast (drop_bit 11 a AND mask 5)"
definition cfg_func :: "u32 \<Rightarrow> u8" where "cfg_func a = ucast (drop_bit 8 a AND mask 3)"
definition cfg_reg :: "u32 \<Rightarrow> u8" where "cfg_reg a = ucast a AND 0xFC"

lemma bit_FC8: "bit (w AND 0xFC) n \<longleftrightarrow> 2 \<le> n \<and> n < 8 \<and> bit (w :: u8) n"
proof -
  have eq: "(0xFC :: u8) = push_bit 2 (mask 6)"
    by (simp add: mask_eq_exp_minus_1)
  show ?thesis
    unfolding eq bit_and_iff bit_push_bit_iff bit_mask_iff
    using bit_imp_le_length [of w n] by auto
qed

lemma bit_FC: "bit (ucast (w AND 0xFC) :: u32) n \<longleftrightarrow> 2 \<le> n \<and> n < 8 \<and> bit (w :: u8) n"
  by (auto simp: bit_ucast_iff bit_FC8)

lemma bit_pci_addr:
  "bit (pci_addr bus_no slot func off) n \<longleftrightarrow> n = 31 \<or> 16 \<le> n \<and> bit bus_no (n - 16) \<or>
    11 \<le> n \<and> bit slot (n - 11) \<or> 8 \<le> n \<and> bit func (n - 8) \<or> 2 \<le> n \<and> n < 8 \<and> bit off n"
proof -
  have "bit (0x80000000 :: u32) n \<longleftrightarrow> n = 31"
    using bit_exp_iff [of 31 n, where ?'a = u32] by auto
  then show ?thesis
    by (simp add: pci_addr_def bit_or_iff bit_push_ucast bit_FC)
qed

lemma pci_addr_fields:
  assumes "unat slot < 32" and "unat func < 8"
  shows "cfg_bus (pci_addr bus_no slot func off) = bus_no"
    and "cfg_slot (pci_addr bus_no slot func off) = slot"
    and "cfg_func (pci_addr bus_no slot func off) = func"
    and "cfg_reg (pci_addr bus_no slot func off) = off AND 0xFC"
proof -
  have s: "bit slot n \<Longrightarrow> n < 5" and f: "bit func n \<Longrightarrow> n < 3" and b8: "bit (w :: u8) n \<Longrightarrow> n < 8" for n w
    using bit_small_word [of slot 5 n] bit_small_word [of func 3 n] assms bit_imp_le_length [of w n] by simp_all
  show "cfg_bus (pci_addr bus_no slot func off) = bus_no"
    unfolding word_bit_eq_iff
    by (auto simp: cfg_bus_def bit_ucast_iff bit_drop_bit_eq bit_pci_addr dest: s f b8)
  show "cfg_slot (pci_addr bus_no slot func off) = slot"
    unfolding word_bit_eq_iff
    by (auto simp: cfg_slot_def bit_ucast_iff bit_drop_bit_eq bit_and_iff bit_mask_iff bit_pci_addr dest: s f b8)
  show "cfg_func (pci_addr bus_no slot func off) = func"
    unfolding word_bit_eq_iff
    by (auto simp: cfg_func_def bit_ucast_iff bit_drop_bit_eq bit_and_iff bit_mask_iff bit_pci_addr dest: s f b8)
  show "cfg_reg (pci_addr bus_no slot func off) = off AND 0xFC"
    unfolding word_bit_eq_iff cfg_reg_def bit_FC8 by (auto simp: bit_ucast_iff bit_pci_addr)
qed

subsection \<open>Properties\<close>

text \<open>The address of a configuration access takes apart again into bus, slot, function and
  aligned register, for slots below 32 and functions below 8: no field runs into another.\<close>

theorem config_address_roundtrip:
  assumes "unat slot < 32" and "unat func < 8"
  shows "cfg_bus (pci_addr bus_no slot func off) = bus_no \<and> cfg_slot (pci_addr bus_no slot func off) = slot \<and>
    cfg_func (pci_addr bus_no slot func off) = func \<and> cfg_reg (pci_addr bus_no slot func off) = off AND 0xFC"
  using pci_addr_fields [OF assms] by simp

theorem config_address_roundtrip_witness:
  "cfg_bus (pci_addr 3 31 7 0x3E) = 3 \<and> cfg_slot (pci_addr 3 31 7 0x3E) = 31 \<and>
    cfg_func (pci_addr 3 31 7 0x3E) = 7 \<and> cfg_reg (pci_addr 3 31 7 0x3E) = 0x3C"
  using config_address_roundtrip [of 31 7 3 "0x3E"] by simp

text \<open>The search for a class returns the first function 0, in the order of buses and slots, that
  answers and has the class and subclass, and fills in its identity, location, six base
  addresses and interrupt line; if there is none it returns -1 and leaves the caller's
  record as it was. The device registers are not changed.\<close>

theorem find_class_first:
  assumes "config_space b cfg"
  shows "\<exists>d'. cfg d' = cfg d \<and> pci_find_class b cls sub dev d =
    (case find (has_class (cfg d) cls sub) pci_slots of
       None \<Rightarrow> (-1, dev, d') | Some s \<Rightarrow> (0, found_device (cfg d) s dev, d'))"
  unfolding pci_find_class_def by (rule find_class_in_config [OF assms])

text \<open>A bus with the configuration mechanism, on a latched address and a fixed register file.\<close>

definition latch_bus :: "(u32 \<Rightarrow> u32) \<Rightarrow> u32 bus" where
  "latch_bus regs = \<lparr>in8 = (\<lambda>port d. (0, d)), out8 = (\<lambda>port v d. d),
     in32 = (\<lambda>port d. (if port = PCI_CONFIG_DATA then regs d else 0, d)),
     out32 = (\<lambda>port v d. if port = PCI_CONFIG_ADDR then v else d)\<rparr>"

lemma latch_bus_config: "config_space (latch_bus regs) (\<lambda>_. regs)"
  by (simp add: config_space_def latch_bus_def inl_def outl_def PCI_CONFIG_ADDR_def PCI_CONFIG_DATA_def)

definition no_device :: PciDevice where
  "no_device = \<lparr>vendor = 0, device = 0, pci_class = 0, pci_subclass = 0, pci_bus_no = 0, slot_no = 0,
     func_no = 0, bar = (\<lambda>_. 0), pci_irq = 0\<rparr>"

definition one_device :: "u32 \<Rightarrow> u32" where
  "one_device a = (if a = pci_addr 0 2 0 0 then 0x12348086 else if a = pci_addr 0 2 0 8 then 0x04030000
     else if a = pci_addr 0 2 0 0x3C then 11 else 0xFFFFFFFF)"

theorem find_class_first_witness:
  "\<exists>d'. pci_find_class (latch_bus one_device) 4 3 no_device 0 =
    (case find (has_class one_device 4 3) pci_slots of
       None \<Rightarrow> (-1, no_device, d') | Some s \<Rightarrow> (0, found_device one_device s no_device, d'))"
  using find_class_first [OF latch_bus_config, where d = 0 and cls = 4 and sub = 3 and dev = no_device]
  by blast

end
