(* ===== verification/Drivers.thy ===== *)
theory Drivers
  imports Pci KernelHeap
begin

section \<open>The other device drivers\<close>

text \<open>
  \<^verbatim>\<open>kernel/drivers/\<close>: audio, network, nvme, usb, cam and mic. The record a driver hands
  to the PCI search is uninitialised on its stack, the argument \<open>stack\<close>. Writes to device
  registers in memory are kept as a list, the busy loops between them have no effect, and
  \<open>played\<close> lists the byte counts the audio driver announces on the serial line.
\<close>

subsection \<open>Audio\<close>

definition HDA_CLASS :: u8 where "HDA_CLASS = 0x04"
definition HDA_SUBCLASS :: u8 where "HDA_SUBCLASS = 0x03"
definition HDA_GCTL :: u32 where "HDA_GCTL = 0x08"

record hda =
  hda_base :: u64
  hda_ready :: bool
  hda_writes :: "(u64 \<times> u32) list"
  pcm_buf :: "nat \<Rightarrow> int"
  played :: "u32 list"

definition hda_static :: hda where
  "hda_static = \<lparr>hda_base = 0, hda_ready = False, hda_writes = [], pcm_buf = (\<lambda>_. 0), played = []\<rparr>"

definition hda_write32 :: "u32 \<Rightarrow> u32 \<Rightarrow> hda \<Rightarrow> hda" where
  "hda_write32 reg val s = s\<lparr>hda_writes := hda_writes s @ [(hda_base s + ucast reg, val)]\<rparr>"

text \<open>A register as it is read, on the bytes behind the controller's address.\<close>

definition hda_read32 :: "byte_mem \<Rightarrow> u32 \<Rightarrow> hda \<Rightarrow> u32" where
  "hda_read32 bs reg s = load32 bs (hda_base s + ucast reg)"

definition audio_init :: "'d bus \<Rightarrow> PciDevice \<Rightarrow> hda \<times> 'd \<Rightarrow> (hda \<times> 'd) checked" where
  "audio_init b stack = (\<lambda>(s, d).
     let (r, dev, d) = pci_find_class b HDA_CLASS HDA_SUBCLASS stack d
     in if r \<noteq> 0 then Inr (s, d)
        else
          let d = pci_enable_bus_master b dev d
          in rbind (pci_get_bar dev 0) (\<lambda>base.
               let s = s\<lparr>hda_base := base\<rparr>;
                   s = hda_write32 HDA_GCTL 0 s;
                   s = hda_write32 HDA_GCTL 1 s
               in Inr (s\<lparr>hda_ready := True\<rparr>, d)))"

definition audio_play_pcm :: "u32 \<Rightarrow> hda \<Rightarrow> hda" where
  "audio_play_pcm len s = (if hda_ready s then s\<lparr>played := played s @ [len]\<rparr> else s)"

definition tone_samples :: "u32 \<Rightarrow> u32" where
  "tone_samples ms = (let samples = 44100 * ms div 1000 in if 44100 < samples then 44100 else samples)"

definition tone_sample :: "u32 \<Rightarrow> u8 \<Rightarrow> nat \<Rightarrow> int" where
  "tone_sample period volume i =
     (if (of_nat i :: u32) mod period < period div 2 then int (unat volume) * 128
      else - (int (unat volume) * 128))"

definition audio_play_tone :: "u32 \<Rightarrow> u32 \<Rightarrow> u8 \<Rightarrow> hda \<Rightarrow> hda checked" where
  "audio_play_tone hz ms volume s =
     (if \<not> hda_ready s then Inr s
      else if hz = 0 then Inl DivideByZero
      else
        let samples = tone_samples ms;
            period = 44100 div hz
        in rbind (for_loop 0 (unat samples) (\<lambda>i s.
                    if period = 0 then Inl DivideByZero
                    else if 44100 \<le> i then Inl BufferOverflow
                    else Inr (s\<lparr>pcm_buf := (pcm_buf s)(i := tone_sample period volume i)\<rparr>)) s)
             (\<lambda>s. Inr (audio_play_pcm (samples * 2) s)))"

definition audio_stop :: "hda \<Rightarrow> hda" where "audio_stop s = s"

definition audio_is_playing :: "hda \<Rightarrow> bool" where "audio_is_playing s = False"

subsection \<open>Network, disk and USB\<close>

record NetworkStatus =
  initialised :: bool
  link_up :: bool
  rx_bytes :: u64
  tx_bytes :: u64

definition net_static :: NetworkStatus where
  "net_static = \<lparr>initialised = False, link_up = False, rx_bytes = 0, tx_bytes = 0\<rparr>"

definition network_init :: "'d bus \<Rightarrow> PciDevice \<Rightarrow> NetworkStatus \<times> 'd \<Rightarrow> NetworkStatus \<times> 'd" where
  "network_init b stack = (\<lambda>(s, d).
     let (r, dev, d) = pci_find_class b 0x02 0x00 stack d
     in if r \<noteq> 0 then (s, d)
        else (s\<lparr>initialised := True, link_up := True\<rparr>, pci_enable_bus_master b dev d))"

definition network_get_status :: "NetworkStatus \<Rightarrow> NetworkStatus" where "network_get_status s = s"

definition network_http_get :: "string \<Rightarrow> nat \<Rightarrow> int \<times> string" where
  "network_http_get url buf_sz = (-1, [])"

record nvme =
  nvme_base :: u64
  total_sectors_val :: u64

definition nvme_static :: nvme where "nvme_static = \<lparr>nvme_base = 0, total_sectors_val = 0\<rparr>"

definition nvme_init :: "'d bus \<Rightarrow> PciDevice \<Rightarrow> nvme \<times> 'd \<Rightarrow> (nvme \<times> 'd) checked" where
  "nvme_init b stack = (\<lambda>(s, d).
     let (r, dev, d) = pci_find_class b 0x01 0x08 stack d
     in if r \<noteq> 0 then Inr (s, d)
        else rbind (pci_get_bar dev 0) (\<lambda>base.
          Inr (s\<lparr>nvme_base := base, total_sectors_val := 1024 * 1024 * 1024 * 500 div 512\<rparr>,
               pci_enable_bus_master b dev d)))"

definition nvme_read :: "u64 \<Rightarrow> u32 \<Rightarrow> int" where "nvme_read lba cnt = -1"
definition nvme_write :: "u64 \<Rightarrow> u32 \<Rightarrow> string \<Rightarrow> int" where "nvme_write lba cnt buf = -1"
definition nvme_total_sectors :: "nvme \<Rightarrow> u64" where "nvme_total_sectors s = total_sectors_val s"

definition usb_init :: "'d bus \<Rightarrow> PciDevice \<Rightarrow> 'd \<Rightarrow> 'd" where
  "usb_init b stack d =
     (let (r, dev, d) = pci_find_class b 0x0C 0x03 stack d
      in if r \<noteq> 0 then d else pci_enable_bus_master b dev d)"

definition usb_device_connected :: "u8 \<Rightarrow> bool" where "usb_device_connected port = False"

subsection \<open>Camera and microphone\<close>

definition memset :: "u64 \<Rightarrow> u8 \<Rightarrow> nat \<Rightarrow> byte_mem \<Rightarrow> byte_mem" where
  "memset p v n m = (\<lambda>a. if unat p \<le> unat a \<and> unat a < unat p + n then v else m a)"

definition CAM_WIDTH :: u32 where "CAM_WIDTH = 320"
definition CAM_HEIGHT :: u32 where "CAM_HEIGHT = 240"
definition CAM_FRAME_SIZE :: u32 where "CAM_FRAME_SIZE = CAM_WIDTH * CAM_HEIGHT * 2"

record CamFrame =
  cam_width :: u32
  cam_height :: u32
  cam_data :: u64
  cam_data_len :: u32

record cam =
  cam_frame :: CamFrame
  frame_buf :: u64
  cam_ready :: bool

definition cam_static :: cam where
  "cam_static = \<lparr>cam_frame = \<lparr>cam_width = 0, cam_height = 0, cam_data = 0, cam_data_len = 0\<rparr>,
     frame_buf = 0, cam_ready = False\<rparr>"

definition cam_init ::
  "(u64 \<Rightarrow> 'h \<Rightarrow> u64 \<times> 'h) \<Rightarrow> cam \<times> 'h \<times> byte_mem \<Rightarrow> cam \<times> 'h \<times> byte_mem" where
  "cam_init malloc = (\<lambda>(s, h, m).
     let (p, h) = malloc (ucast CAM_FRAME_SIZE) h
     in if p = 0 then (s\<lparr>frame_buf := 0\<rparr>, h, m)
        else (s\<lparr>frame_buf := p,
                cam_frame := \<lparr>cam_width = CAM_WIDTH, cam_height = CAM_HEIGHT, cam_data = p,
                  cam_data_len = CAM_FRAME_SIZE\<rparr>, cam_ready := True\<rparr>,
              h, memset p 128 (unat CAM_FRAME_SIZE) m))"

definition cam_get_latest_frame :: "cam \<Rightarrow> CamFrame option" where
  "cam_get_latest_frame s = (if cam_ready s then Some (cam_frame s) else None)"

definition cam_is_available :: "cam \<Rightarrow> bool" where "cam_is_available s = cam_ready s"

definition MIC_SAMPLE_RATE :: u32 where "MIC_SAMPLE_RATE = 16000"
definition MIC_CHANNELS :: u32 where "MIC_CHANNELS = 1"
definition MIC_BUF_SAMPLES :: u32 where "MIC_BUF_SAMPLES = 4096"
definition MIC_BUF_BYTES :: u32 where "MIC_BUF_BYTES = MIC_BUF_SAMPLES * 2"

record MicFrame =
  mic_rate :: u32
  mic_channels :: u32
  mic_samples :: u32
  mic_data :: u64

record mic =
  mic_frame :: MicFrame
  mic_buf :: u64
  mic_ready :: bool

definition mic_static :: mic where
  "mic_static = \<lparr>mic_frame = \<lparr>mic_rate = 0, mic_channels = 0, mic_samples = 0, mic_data = 0\<rparr>,
     mic_buf = 0, mic_ready = False\<rparr>"

definition mic_init ::
  "(u64 \<Rightarrow> 'h \<Rightarrow> u64 \<times> 'h) \<Rightarrow> mic \<times> 'h \<times> byte_mem \<Rightarrow> mic \<times> 'h \<times> byte_mem" where
  "mic_init malloc = (\<lambda>(s, h, m).
     let (p, h) = malloc (ucast MIC_BUF_BYTES) h
     in if p = 0 then (s\<lparr>mic_buf := 0\<rparr>, h, m)
        else (s\<lparr>mic_buf := p,
                mic_frame := \<lparr>mic_rate = MIC_SAMPLE_RATE, mic_channels = MIC_CHANNELS,
                  mic_samples = MIC_BUF_SAMPLES, mic_data = p\<rparr>, mic_ready := True\<rparr>,
              h, memset p 0 (unat MIC_BUF_BYTES) m))"

definition mic_get_latest_frame :: "mic \<Rightarrow> MicFrame option" where
  "mic_get_latest_frame s = (if mic_ready s then Some (mic_frame s) else None)"

definition mic_is_available :: "mic \<Rightarrow> bool" where "mic_is_available s = mic_ready s"

subsection \<open>Tones\<close>

lemma tone_samples_bound: "unat (tone_samples ms) \<le> 44100"
  by (simp add: tone_samples_def Let_def word_less_nat_alt)

definition tone_written :: "u32 \<Rightarrow> u8 \<Rightarrow> hda \<Rightarrow> nat \<Rightarrow> hda \<Rightarrow> bool" where
  "tone_written period volume s i s' \<longleftrightarrow>
     s' = s\<lparr>pcm_buf := (\<lambda>j. if j < i then tone_sample period volume j else pcm_buf s j)\<rparr>"

lemma audio_play_tone_ok:
  assumes "hda_ready s" and "hz \<noteq> 0" and "44100 div hz \<noteq> 0"
  shows "audio_play_tone hz ms volume s = Inr (s\<lparr>pcm_buf := (\<lambda>i. if i < unat (tone_samples ms)
      then tone_sample (44100 div hz) volume i else pcm_buf s i),
    played := played s @ [tone_samples ms * 2]\<rparr>)"
proof -
  let ?p = "44100 div hz" and ?n = "unat (tone_samples ms)"
  let ?body = "\<lambda>i s. if ?p = 0 then Inl DivideByZero else if 44100 \<le> i then Inl BufferOverflow
      else Inr (s\<lparr>pcm_buf := (pcm_buf s)(i := tone_sample ?p volume i)\<rparr>)"
  have "\<exists>s'. for_loop 0 ?n ?body s = Inr s' \<and> tone_written ?p volume s ?n s'"
  proof (rule for_loop_rule [where P = "tone_written ?p volume s"])
    show "tone_written ?p volume s 0 s"
      by (simp add: tone_written_def)
    fix i s'
    assume "i < ?n" "tone_written ?p volume s i s'"
    then show "\<exists>s''. ?body i s' = Inr s'' \<and> tone_written ?p volume s (Suc i) s''"
      using assms(3) tone_samples_bound [of ms] by (auto simp: tone_written_def fun_eq_iff less_Suc_eq)
  qed simp
  then show ?thesis
    using assms by (auto simp: audio_play_tone_def Let_def tone_written_def audio_play_pcm_def)
qed

lemma audio_play_tone_fault:
  assumes "hda_ready s" and "hz = 0 \<or> 44100 div hz = 0 \<and> tone_samples ms \<noteq> 0"
  shows "audio_play_tone hz ms volume s = Inl DivideByZero"
proof (cases "hz = 0")
  case False
  then have "44100 div hz = 0" "0 < unat (tone_samples ms)"
    using assms(2) by (auto simp: unat_gt_0)
  then show ?thesis
    using assms(1) False by (simp add: audio_play_tone_def Let_def for_loop_step)
qed (use assms in \<open>simp add: audio_play_tone_def\<close>)

lemma period_zero_iff: "hz \<noteq> 0 \<Longrightarrow> (44100 :: u32) div hz = 0 \<longleftrightarrow> 44100 < hz"
  by (auto simp: word_less_nat_alt div_eq_0_iff unat_div simp flip: unat_eq_iff)

subsection \<open>Properties\<close>

text \<open>With the audio device ready, playing a tone divides by zero exactly if the frequency is 0, or
  above the sample rate of 44100 with at least one sample to write. Otherwise it writes at most
  44100 samples of a square wave into the buffer, each within the range of a 16-bit sample.\<close>

theorem play_tone_outcome:
  assumes "hda_ready s"
  shows "(audio_play_tone hz ms volume s = Inl DivideByZero \<longleftrightarrow>
      hz = 0 \<or> 44100 < hz \<and> tone_samples ms \<noteq> 0) \<and>
    (hz = 0 \<or> 44100 < hz \<or> audio_play_tone hz ms volume s = Inr (s\<lparr>
       pcm_buf := (\<lambda>i. if i < unat (tone_samples ms) then tone_sample (44100 div hz) volume i else pcm_buf s i),
       played := played s @ [tone_samples ms * 2]\<rparr>)) \<and>
    unat (tone_samples ms) \<le> 44100 \<and> \<bar>tone_sample (44100 div hz) volume i\<bar> \<le> 32640"
proof -
  have "uint volume \<le> 255"
    using unsigned_less [of volume, where ?'a = int] by simp
  then have v: "\<bar>tone_sample (44100 div hz) volume i\<bar> \<le> 32640"
    by (simp add: tone_sample_def)
  consider "hz = 0" | "44100 < hz" "tone_samples ms \<noteq> 0" | "44100 < hz" "tone_samples ms = 0"
    | "hz \<noteq> 0" "\<not> 44100 < hz"
    by blast
  then show ?thesis
  proof cases
    case 1
    then show ?thesis
      using audio_play_tone_fault [OF assms, of hz] tone_samples_bound v by simp
  next
    case 2
    then have "hz \<noteq> 0"
      by auto
    then show ?thesis
      using 2 audio_play_tone_fault [OF assms, of hz ms] period_zero_iff [of hz] tone_samples_bound [of ms] v by simp
  next
    case 3
    then have nz: "hz \<noteq> 0"
      by auto
    then have "audio_play_tone hz ms volume s \<noteq> Inl DivideByZero"
      using 3 assms by (simp add: audio_play_tone_def Let_def)
    then show ?thesis
      using 3 nz v by simp
  next
    case 4
    then show ?thesis
      using audio_play_tone_ok [OF assms 4(1), of ms volume] period_zero_iff [OF 4(1)] tone_samples_bound [of ms] v
      by simp
  qed
qed

theorem play_tone_outcome_witness:
  "audio_play_tone 0 100 64 (hda_static\<lparr>hda_ready := True\<rparr>) = Inl DivideByZero"
  using play_tone_outcome [of "hda_static\<lparr>hda_ready := True\<rparr>" 0 100 64] by simp

end
