(* ===== verification/AionMemory.thy ===== *)
theory AionMemory
  imports KernelHeap FileSys
begin

section \<open>The memory of experiences\<close>

text \<open>
  \<^verbatim>\<open>consciousness/memory/aion_memory.c\<close>: the store of entries whose texts are blocks of the
  kernel heap, eviction, search, and the record and index files. The allocator and the file
  layer are arguments of the definitions. \<open>ram\<close> is the memory the texts are copied to, so that
  a text is what is read back through the pointer of its entry. The uninitialised rest
  of a path buffer on the stack, which the index file takes over, is the argument \<open>junk\<close>.
\<close>

subsection \<open>State\<close>

definition MEM_EPISODIC :: u8 where "MEM_EPISODIC = 0"
definition MEM_SEMANTIC :: u8 where "MEM_SEMANTIC = 1"
definition MEM_SELF :: u8 where "MEM_SELF = 2"

definition MEM_MAGIC :: nat where "MEM_MAGIC = 0x414D454D"
definition MAX_MEMORIES :: nat where "MAX_MEMORIES = 65536"
definition MAX_CONTENT_LEN :: nat where "MAX_CONTENT_LEN = 4096"
definition RECORD_HEADER :: nat where "RECORD_HEADER = 28"
definition INDEX_SIZE :: nat where "INDEX_SIZE = 1024 * 1024"

definition INDEX_PATH :: string where "INDEX_PATH = ''/AION/memory/index.bin''"
definition EPISODIC_DIR :: string where "EPISODIC_DIR = ''/AION/memory/episodic/''"
definition SEMANTIC_DIR :: string where "SEMANTIC_DIR = ''/AION/memory/semantic/''"
definition SELF_DIR :: string where "SELF_DIR = ''/AION/memory/self/''"

record MemEntry =
  ment_type :: u8
  importance :: u8
  tick :: u64
  timestamp_ms :: u64
  content :: u64
  content_len :: nat
  dirty :: bool

record ('h, 'f) amem =
  mem_store :: "nat \<Rightarrow> MemEntry"
  mem_count :: nat
  mem_dirty :: nat
  store_exists :: bool
  heap_state :: 'h
  ram :: "u64 \<Rightarrow> char"
  fs_state :: 'f
  load_index :: string
  load_record :: string

text \<open>What a caller hands in: the text is a C string or \<open>NULL\<close>.\<close>

record AionMemoryEntry =
  in_type :: u8
  in_importance :: u8
  in_tick :: u64
  in_content :: "string option"

subsection \<open>Helpers\<close>

definition read_ram :: "(u64 \<Rightarrow> char) \<Rightarrow> u64 \<Rightarrow> nat \<Rightarrow> string" where
  "read_ram m p n = map (\<lambda>i. m (p + of_nat i)) [0..<n]"

definition write_ram :: "u64 \<Rightarrow> string \<Rightarrow> (u64 \<Rightarrow> char) \<Rightarrow> (u64 \<Rightarrow> char)" where
  "write_ram p s m = fold (\<lambda>i m. m(p + of_nat i := s ! i)) [0..<length s] m"

definition mem_strdup ::
  "(u64 \<Rightarrow> 'h \<Rightarrow> u64 \<times> 'h) \<Rightarrow> string \<Rightarrow> nat \<Rightarrow> ('h, 'f) amem \<Rightarrow> u64 \<times> ('h, 'f) amem" where
  "mem_strdup malloc s len st =
     (let (p, h) = malloc (of_nat (len + 1)) (heap_state st);
          st = st\<lparr>heap_state := h\<rparr>
      in if p = 0 then (0, st)
         else (p, st\<lparr>ram := write_ram p (take len s @ [NUL]) (ram st)\<rparr>))"

definition mem_type_dir :: "u8 \<Rightarrow> string" where
  "mem_type_dir ty = (if ty = MEM_EPISODIC then EPISODIC_DIR
                      else if ty = MEM_SELF then SELF_DIR else SEMANTIC_DIR)"

definition mem_path :: "u8 \<Rightarrow> nat \<Rightarrow> string" where
  "mem_path ty i = strlcut 256 (mem_type_dir ty @ dec i @ ''.mem'')"

definition entry_text :: "(u64 \<Rightarrow> char) \<Rightarrow> MemEntry \<Rightarrow> string" where
  "entry_text m e = read_ram m (content e) (content_len e)"

subsection \<open>Start-up\<close>

definition aion_memory_has_store :: "'f fs_ops \<Rightarrow> ('h, 'f) amem \<Rightarrow> bool" where
  "aion_memory_has_store fs st = fs_file_exists fs INDEX_PATH (fs_state st)"

definition aion_memory_init :: "'f fs_ops \<Rightarrow> ('h, 'f) amem \<Rightarrow> ('h, 'f) amem" where
  "aion_memory_init fs st =
     (let f = fold (\<lambda>dir f. snd (fs_mkdir_usb fs dir f))
                [''/AION/memory'', ''/AION/memory/episodic'', ''/AION/memory/semantic'',
                 ''/AION/memory/self''] (fs_state st);
          st = st\<lparr>mem_count := 0, mem_dirty := 0, fs_state := f\<rparr>
      in st\<lparr>store_exists := aion_memory_has_store fs st\<rparr>)"

definition overlay :: "string \<Rightarrow> string \<Rightarrow> string" where
  "overlay data buf = data @ drop (length data) buf"

definition field :: "nat \<Rightarrow> nat \<Rightarrow> string \<Rightarrow> nat" where
  "field off k buf = le_nat (take k (drop off buf))"

definition load_entry ::
  "(u64 \<Rightarrow> 'h \<Rightarrow> u64 \<times> 'h) \<Rightarrow> 'f fs_ops \<Rightarrow> nat \<Rightarrow> ('h, 'f) amem \<Rightarrow> ('h, 'f) amem checked" where
  "load_entry malloc fs i st =
     (if INDEX_SIZE < 8 + 256 * Suc i then Inl BufferOverflow
      else
        let path = c_string (take 255 (drop (8 + 256 * i) (load_index st)));
            (r, data, f) = fs_read_file fs path (MAX_CONTENT_LEN + RECORD_HEADER) (fs_state st);
            buf = overlay data (load_record st);
            st = st\<lparr>fs_state := f, load_record := buf\<rparr>;
            clen = field 24 4 buf
        in if r < int RECORD_HEADER then Inr st
           else if field 0 4 buf \<noteq> MEM_MAGIC then Inr st
           else if MAX_CONTENT_LEN < clen then Inr st
           else
             let (p, st) = mem_strdup malloc (drop RECORD_HEADER buf) clen st
             in if p = 0 then Inr st
                else if MAX_MEMORIES \<le> mem_count st then Inl BufferOverflow
                else Inr (st\<lparr>mem_store := (mem_store st)(mem_count st :=
                       \<lparr>ment_type = of_nat (field 4 1 buf), importance = of_nat (field 5 1 buf),
                        tick = of_nat (field 8 8 buf), timestamp_ms = of_nat (field 16 8 buf),
                        content = p, content_len = clen, dirty = False\<rparr>),
                      mem_count := mem_count st + 1\<rparr>))"

definition aion_memory_load_all ::
  "(u64 \<Rightarrow> 'h \<Rightarrow> u64 \<times> 'h) \<Rightarrow> 'f fs_ops \<Rightarrow> ('h, 'f) amem \<Rightarrow> ('h, 'f) amem checked" where
  "aion_memory_load_all malloc fs st =
     (let (r, data, f) = fs_read_file fs INDEX_PATH INDEX_SIZE (fs_state st);
          st = st\<lparr>fs_state := f, load_index := overlay data (load_index st)\<rparr>
      in if r < 0 then Inr st
         else for_loop 0 (min (field 0 8 (load_index st)) MAX_MEMORIES) (load_entry malloc fs) st)"

subsection \<open>Flush\<close>

definition record_bytes :: "(u64 \<Rightarrow> char) \<Rightarrow> MemEntry \<Rightarrow> string" where
  "record_bytes m e = le_bytes 4 MEM_MAGIC @ le_bytes 1 (unat (ment_type e)) @
     le_bytes 1 (unat (importance e)) @ le_bytes 2 0 @ le_bytes 8 (unat (tick e)) @ le_bytes 8 0 @
     le_bytes 4 (content_len e) @ entry_text m e"

definition index_entry :: "string \<Rightarrow> string \<Rightarrow> u8 \<Rightarrow> string" where
  "index_entry junk path imp =
     take 255 (path @ NUL # junk @ replicate 255 NUL) @ le_bytes 1 (unat imp)"

definition flush_entry ::
  "(nat \<Rightarrow> string) \<Rightarrow> 'f fs_ops \<Rightarrow> nat \<Rightarrow> ('h, 'f) amem \<times> string \<Rightarrow> (('h, 'f) amem \<times> string) checked" where
  "flush_entry junk fs i = (\<lambda>(st, idx).
     let e = mem_store st i;
         path = mem_path (ment_type e) i
     in if INDEX_SIZE < 8 + 256 * Suc i then Inl BufferOverflow
        else if \<not> dirty e then Inr (st, idx @ index_entry (junk i) path (importance e))
        else if MAX_CONTENT_LEN < content_len e then Inl BufferOverflow
        else
          let (r, f) = fs_write_file_usb fs path (record_bytes (ram st) e) (fs_state st)
          in Inr (st\<lparr>fs_state := f, mem_store := (mem_store st)(i := e\<lparr>dirty := False\<rparr>)\<rparr>,
                  idx @ index_entry (junk i) path (importance e)))"

definition aion_memory_flush ::
  "(nat \<Rightarrow> string) \<Rightarrow> 'f fs_ops \<Rightarrow> ('h, 'f) amem \<Rightarrow> ('h, 'f) amem checked" where
  "aion_memory_flush junk fs st =
     (if mem_dirty st = 0 then Inr st
      else rbind (for_loop 0 (mem_count st) (flush_entry junk fs) (st, le_bytes 8 (mem_count st)))
        (\<lambda>(st, idx).
           let (r, f) = fs_write_file_usb fs INDEX_PATH idx (fs_state st)
           in Inr (st\<lparr>fs_state := f, mem_dirty := 0\<rparr>)))"

subsection \<open>Store, search, recall\<close>

text \<open>One round of the scan for the entry to evict, on the index and importance found so far.\<close>

definition worst_step :: "(nat \<Rightarrow> MemEntry) \<Rightarrow> nat \<Rightarrow> nat \<times> u8 \<Rightarrow> nat \<times> u8" where
  "worst_step store i = (\<lambda>(worst_idx, worst_imp).
     if ment_type (store i) = MEM_EPISODIC \<and> importance (store i) < worst_imp
     then (i, importance (store i)) else (worst_idx, worst_imp))"

definition worst_entry :: "(nat \<Rightarrow> MemEntry) \<Rightarrow> nat \<Rightarrow> nat" where
  "worst_entry store n = fst (fold (worst_step store) [0..<n] (0, 255))"

definition mem_evict :: "(u64 \<Rightarrow> 'h \<Rightarrow> 'h) \<Rightarrow> ('h, 'f) amem \<Rightarrow> ('h, 'f) amem" where
  "mem_evict release st =
     (let w = worst_entry (mem_store st) (mem_count st)
      in st\<lparr>heap_state := release (content (mem_store st w)) (heap_state st),
            mem_store := (\<lambda>i. if w \<le> i \<and> i < mem_count st - 1 then mem_store st (i + 1) else mem_store st i),
            mem_count := mem_count st - 1\<rparr>)"

definition mem_append :: "AionMemoryEntry \<Rightarrow> u64 \<Rightarrow> nat \<Rightarrow> ('h, 'f) amem \<Rightarrow> ('h, 'f) amem" where
  "mem_append entry p clen st =
     st\<lparr>mem_store := (mem_store st)(mem_count st := (mem_store st (mem_count st))
          \<lparr>ment_type := in_type entry, importance := in_importance entry, tick := in_tick entry,
           content := p, content_len := clen, dirty := True\<rparr>),
        mem_count := mem_count st + 1, mem_dirty := mem_dirty st + 1\<rparr>"

definition aion_memory_store ::
  "(u64 \<Rightarrow> 'h \<Rightarrow> u64 \<times> 'h) \<Rightarrow> (u64 \<Rightarrow> 'h \<Rightarrow> 'h) \<Rightarrow> (nat \<Rightarrow> string) \<Rightarrow> 'f fs_ops \<Rightarrow>
     AionMemoryEntry \<Rightarrow> ('h, 'f) amem \<Rightarrow> ('h, 'f) amem checked" where
  "aion_memory_store malloc release junk fs entry st =
     (case in_content entry of
        None \<Rightarrow> Inr st
      | Some text \<Rightarrow>
          let st = (if MAX_MEMORIES \<le> mem_count st then mem_evict release st else st);
              clen = min (length text) MAX_CONTENT_LEN;
              (p, st) = mem_strdup malloc text clen st
          in if p = 0 then Inr st
             else
               let st = mem_append entry p clen st
               in if 10 \<le> mem_dirty st then aion_memory_flush junk fs st else Inr st)"

text \<open>The count requested is a C \<open>int\<close>; the subtraction of it is the only operation that may overflow.\<close>

definition aion_memory_get_recent :: "int \<Rightarrow> ('h, 'f) amem \<Rightarrow> MemEntry list checked" where
  "aion_memory_get_recent n st =
     (if mem_count st = 0 then Inr []
      else let start = int (mem_count st) - n
        in if start < - (2 ^ 31) \<or> 2 ^ 31 \<le> start then Inl SignedOverflow
           else Inr (map (mem_store st) (take 16 [nat (max 0 start) ..< mem_count st])))"

text \<open>The search runs from the newest entry down; it stops at the first NUL of a text.\<close>

fun search_from :: "string \<Rightarrow> ('h, 'f) amem \<Rightarrow> nat \<Rightarrow> u64 option" where
  "search_from key st 0 = None"
| "search_from key st (Suc i) =
     (if strstr (c_string (entry_text (ram st) (mem_store st i))) key \<noteq> None
      then Some (content (mem_store st i)) else search_from key st i)"

definition aion_memory_search :: "string \<Rightarrow> ('h, 'f) amem \<Rightarrow> u64 option" where
  "aion_memory_search key st = search_from key st (mem_count st)"

definition aion_memory_count :: "('h, 'f) amem \<Rightarrow> u64" where
  "aion_memory_count st = of_nat (mem_count st)"

subsection \<open>Writing and reading texts\<close>

lemma fold_write_other:
  "\<forall>i < n. f i \<noteq> a \<Longrightarrow> fold (\<lambda>i m. m(f i := g i)) [0..<n] m a = m a"
  by (induction n) auto

lemma fold_write_same:
  "inj_on f {..<n} \<Longrightarrow> i < n \<Longrightarrow> fold (\<lambda>i m. m(f i := g i)) [0..<n] m (f i) = g i"
proof (induction n)
  case (Suc n)
  have "f i \<noteq> f n" if "i \<noteq> n"
    using Suc.prems that by (auto dest: inj_onD)
  then show ?case
    using Suc by (cases "i = n") (auto simp: inj_on_def lessThan_Suc)
qed simp

lemma unat_ram_addr: "unat (p :: u64) + n \<le> 2 ^ 64 \<Longrightarrow> i < n \<Longrightarrow> unat (p + of_nat i) = unat p + i"
  by (subst unat_add_small) simp_all

lemma ram_addr_inj: "unat (p :: u64) + n \<le> 2 ^ 64 \<Longrightarrow> inj_on (\<lambda>i. p + of_nat i) {..<n}"
  by (rule inj_onI) (metis add_left_cancel lessThan_iff unat_ram_addr)

lemma write_ram_at:
  "unat p + length s \<le> 2 ^ 64 \<Longrightarrow> i < length s \<Longrightarrow> write_ram p s m (p + of_nat i) = s ! i"
  unfolding write_ram_def by (rule fold_write_same [OF ram_addr_inj])

lemma write_ram_other:
  assumes "unat p + length s \<le> 2 ^ 64" and "unat a \<notin> {unat p ..< unat p + length s}"
  shows "write_ram p s m a = m a"
  unfolding write_ram_def
proof (rule fold_write_other, intro allI impI)
  fix i
  assume "i < length s"
  then have "unat (p + of_nat i) \<in> {unat p ..< unat p + length s}"
    using unat_ram_addr [OF assms(1)] by simp
  then show "p + of_nat i \<noteq> a"
    using assms(2) by auto
qed

lemma length_read_ram [simp]: "length (read_ram m p n) = n"
  by (simp add: read_ram_def)

lemma read_write_ram:
  "unat p + length s \<le> 2 ^ 64 \<Longrightarrow> n \<le> length s \<Longrightarrow> read_ram (write_ram p s m) p n = take n s"
  by (rule nth_equalityI) (simp_all add: read_ram_def write_ram_at)

lemma read_write_ram_other:
  assumes "unat p + length s \<le> 2 ^ 64" and "unat q + n \<le> 2 ^ 64"
    and "{unat p ..< unat p + length s} \<inter> {unat q ..< unat q + n} = {}"
  shows "read_ram (write_ram p s m) q n = read_ram m q n"
  unfolding read_ram_def
proof (rule map_cong [OF refl])
  fix i
  assume "i \<in> set [0..<n]"
  then have "unat (q + of_nat i) \<in> {unat q ..< unat q + n}"
    using unat_ram_addr [OF assms(2)] by simp
  then show "write_ram p s m (q + of_nat i) = m (q + of_nat i)"
    using assms(3) by (intro write_ram_other [OF assms(1)]) blast
qed

subsection \<open>The entries as a list\<close>

text \<open>What the store holds: type, importance, tick and text of each entry, oldest first.\<close>

type_synonym experience = "u8 \<times> u8 \<times> u64 \<times> string"

definition entry_view :: "(u64 \<Rightarrow> char) \<Rightarrow> MemEntry \<Rightarrow> experience" where
  "entry_view m e = (ment_type e, importance e, tick e, entry_text m e)"

definition mem_view :: "('h, 'f) amem \<Rightarrow> experience list" where
  "mem_view st = map (\<lambda>i. entry_view (ram st) (mem_store st i)) [0..<mem_count st]"

definition entry_ok :: "nat set \<Rightarrow> MemEntry \<Rightarrow> bool" where
  "entry_ok used e \<longleftrightarrow> content_len e \<le> MAX_CONTENT_LEN \<and>
     unat (content e) + content_len e + 1 \<le> 2 ^ 64 \<and>
     {unat (content e) ..< unat (content e) + content_len e + 1} \<subseteq> used"

definition mem_ok :: "('h \<Rightarrow> bool) \<Rightarrow> ('h \<Rightarrow> nat set) \<Rightarrow> ('h, 'f) amem \<Rightarrow> bool" where
  "mem_ok hok used st \<longleftrightarrow> hok (heap_state st) \<and> mem_count st \<le> MAX_MEMORIES \<and>
     (\<forall>i < mem_count st. entry_ok (used (heap_state st)) (mem_store st i))"

lemma length_mem_view [simp]: "length (mem_view st) = mem_count st"
  by (simp add: mem_view_def)

lemma mem_view_nth: "i < mem_count st \<Longrightarrow> mem_view st ! i = entry_view (ram st) (mem_store st i)"
  by (simp add: mem_view_def)

lemma entry_ok_mono: "entry_ok u e \<Longrightarrow> u \<subseteq> u' \<Longrightarrow> entry_ok u' e"
  by (auto simp: entry_ok_def)

context block_heap
begin

lemma mem_strdup_spec:
  assumes ok: "mem_ok hok used st" and len: "len \<le> length s" "len \<le> MAX_CONTENT_LEN"
  obtains (failed) st' where "mem_strdup malloc s len st = (0, st')" "mem_ok hok used st'"
      "st' = st\<lparr>heap_state := heap_state st'\<rparr>"
  | (copied) p st' where "mem_strdup malloc s len st = (p, st')" "p \<noteq> 0" "mem_ok hok used st'"
      "st' = st\<lparr>heap_state := heap_state st', ram := ram st'\<rparr>" "mem_view st' = mem_view st"
      "unat p + len + 1 \<le> 2 ^ 64" "{unat p ..< unat p + len + 1} \<subseteq> used (heap_state st')"
      "read_ram (ram st') p len = take len s"
proof -
  let ?n = "of_nat (len + 1) :: u64"
  have n: "unat ?n = len + 1"
    using len by (intro unat_of_nat_u64) (simp add: MAX_CONTENT_LEN_def)
  then have small: "unat ?n \<le> SMALL_BLOCK"
    using len by (simp add: MAX_CONTENT_LEN_def SMALL_BLOCK_def)
  obtain p h where call: "malloc ?n (heap_state st) = (p, h)"
    by fastforce
  have hok: "hok (heap_state st)"
    using ok by (simp add: mem_ok_def)
  note h = malloc_ok [OF hok small call] malloc_keeps [OF hok small call]
  have kept: "entry_ok (used h) (mem_store st i)" if "i < mem_count st" for i
    using ok that h(2) by (auto simp: mem_ok_def intro: entry_ok_mono)
  show thesis
  proof (cases "p = 0")
    case True
    then show thesis
      using call ok h(1) kept
      by (intro failed [of "st\<lparr>heap_state := h\<rparr>"]) (simp_all add: mem_strdup_def mem_ok_def)
  next
    case False
    let ?s = "take len s @ [NUL]"
    let ?st = "st\<lparr>heap_state := h, ram := write_ram p ?s (ram st)\<rparr>"
    have fits: "unat p + length ?s \<le> 2 ^ 64"
      using malloc_fits [OF hok small call False] len n by simp
    have fresh: "{unat p ..< unat p + length ?s} \<inter> used (heap_state st) = {}"
      and new: "{unat p ..< unat p + length ?s} \<subseteq> used h"
      using malloc_fresh [OF hok small call False] len n by (auto simp: block_def)
    have same: "entry_view (ram ?st) (mem_store st i) = entry_view (ram st) (mem_store st i)"
      if "i < mem_count st" for i
    proof -
      have e: "entry_ok (used (heap_state st)) (mem_store st i)"
        using ok that by (simp add: mem_ok_def)
      then have "read_ram (write_ram p ?s (ram st)) (content (mem_store st i)) (content_len (mem_store st i)) =
          read_ram (ram st) (content (mem_store st i)) (content_len (mem_store st i))"
        using fresh by (intro read_write_ram_other [OF fits]) (fastforce simp: entry_ok_def)+
      then show ?thesis
        by (simp add: entry_view_def entry_text_def)
    qed
    show thesis
    proof (rule copied [of p ?st])
      show "mem_view ?st = mem_view st"
        unfolding mem_view_def by (rule map_cong) (use same in simp_all)
      show "read_ram (ram ?st) p len = take len s"
        using read_write_ram [OF fits, of len "ram st"] len by simp
    qed (use call False h(1) kept ok fits new len in \<open>simp_all add: mem_strdup_def mem_ok_def\<close>)
  qed
qed

end

subsection \<open>Eviction\<close>

text \<open>
  The entry that makes room: among the episodic ones of importance below 255 the first of the
  least importance, and slot 0 when there is none.
\<close>

definition evictable :: "experience \<Rightarrow> bool" where
  "evictable = (\<lambda>(ty, imp, tk, text). ty = MEM_EPISODIC \<and> imp < 255)"

definition exp_importance :: "experience \<Rightarrow> u8" where
  "exp_importance = (\<lambda>(ty, imp, tk, text). imp)"

definition victim :: "experience list \<Rightarrow> nat \<Rightarrow> bool" where
  "victim es w \<longleftrightarrow>
     (if \<exists>e \<in> set es. evictable e
      then w < length es \<and> evictable (es ! w) \<and>
        (\<forall>j < length es. evictable (es ! j) \<longrightarrow> exp_importance (es ! w) \<le> exp_importance (es ! j) \<and>
           (j < w \<longrightarrow> exp_importance (es ! w) < exp_importance (es ! j)))
      else w = 0)"

definition worst_inv :: "(nat \<Rightarrow> MemEntry) \<Rightarrow> nat \<Rightarrow> nat \<times> u8 \<Rightarrow> bool" where
  "worst_inv store n = (\<lambda>(w, imp).
     (w = 0 \<and> imp = 255 \<and> (\<forall>j < n. ment_type (store j) = MEM_EPISODIC \<longrightarrow> \<not> importance (store j) < 255)) \<or>
     (w < n \<and> ment_type (store w) = MEM_EPISODIC \<and> imp = importance (store w) \<and> imp < 255 \<and>
      (\<forall>j < n. ment_type (store j) = MEM_EPISODIC \<longrightarrow> imp \<le> importance (store j) \<and>
         (j < w \<longrightarrow> imp < importance (store j)))))"

lemma worst_inv_fold: "worst_inv store n (fold (worst_step store) [0..<n] (0, 255))"
proof (induction n)
  case 0
  then show ?case
    by (simp add: worst_inv_def)
next
  case (Suc n)
  obtain w imp where r: "fold (worst_step store) [0..<n] (0, 255) = (w, imp)"
    by fastforce
  show ?case
    using Suc unfolding r fold_append upt_Suc_append [OF le0] comp_apply
    by (auto simp: worst_inv_def worst_step_def r less_Suc_eq not_less)
qed

lemma worst_entry_victim: "victim (mem_view st) (worst_entry (mem_store st) (mem_count st))"
proof -
  let ?s = "mem_store st" and ?n = "mem_count st"
  obtain w imp where r: "fold (worst_step ?s) [0..<?n] (0, 255) = (w, imp)"
    by fastforce
  have inv: "worst_inv ?s ?n (w, imp)"
    using worst_inv_fold [of ?s ?n] unfolding r .
  have ex: "(\<exists>e \<in> set (mem_view st). evictable e) \<longleftrightarrow>
      (\<exists>j < ?n. ment_type (?s j) = MEM_EPISODIC \<and> importance (?s j) < 255)"
    by (auto simp: mem_view_def evictable_def entry_view_def)
  have "worst_entry ?s ?n = w"
    by (simp add: worst_entry_def r)
  then show ?thesis
    using inv unfolding victim_def ex worst_inv_def
    by (auto simp: mem_view_nth evictable_def exp_importance_def entry_view_def)
qed

lemma worst_entry_lt: "0 < n \<Longrightarrow> worst_entry store n < n"
proof -
  assume n: "0 < n"
  obtain w imp where r: "fold (worst_step store) [0..<n] (0, 255) = (w, imp)"
    by fastforce
  then show ?thesis
    using worst_inv_fold [of store n] n by (auto simp: worst_inv_def worst_entry_def)
qed

lemma mem_evict_view:
  assumes "0 < mem_count st"
  shows "\<exists>w. victim (mem_view st) w \<and> w < mem_count st \<and>
    mem_view (mem_evict release st) = take w (mem_view st) @ drop (Suc w) (mem_view st)"
proof -
  let ?w = "worst_entry (mem_store st) (mem_count st)"
  have w: "?w < mem_count st"
    by (rule worst_entry_lt [OF assms])
  have "mem_view (mem_evict release st) = take ?w (mem_view st) @ drop (Suc ?w) (mem_view st)"
  proof (rule nth_equalityI)
    show "length (mem_view (mem_evict release st)) =
        length (take ?w (mem_view st) @ drop (Suc ?w) (mem_view st))"
      using w by (simp add: mem_evict_def Let_def)
    fix i
    assume "i < length (mem_view (mem_evict release st))"
    then have i: "i < mem_count st - 1"
      by (simp add: mem_evict_def Let_def)
    show "mem_view (mem_evict release st) ! i = (take ?w (mem_view st) @ drop (Suc ?w) (mem_view st)) ! i"
      using i w by (cases "i < ?w") (auto simp: mem_view_def mem_evict_def Let_def nth_append)
  qed
  then show ?thesis
    using worst_entry_victim w by blast
qed

context block_heap
begin

lemma mem_evict_ok:
  assumes "mem_ok hok used st" and "0 < mem_count st"
  shows "mem_ok hok used (mem_evict release st)"
  using assms release_ok [of "heap_state st"]
  by (auto simp: mem_ok_def mem_evict_def Let_def)

end

subsection \<open>Flush\<close>

text \<open>The part of the store a flush leaves alone, and the entries it has cleaned so far.\<close>

definition flushed :: "('h, 'f) amem \<Rightarrow> nat \<Rightarrow> ('h, 'f) amem \<times> string \<Rightarrow> bool" where
  "flushed st i = (\<lambda>(st', idx).
     mem_store st' = (\<lambda>j. if j < i then (mem_store st j)\<lparr>dirty := False\<rparr> else mem_store st j) \<and>
     mem_count st' = mem_count st \<and> mem_dirty st' = mem_dirty st \<and> ram st' = ram st \<and>
     heap_state st' = heap_state st \<and> store_exists st' = store_exists st)"

lemma flush_entry_flushed:
  assumes inv: "flushed st i x" and len: "content_len (mem_store st i) \<le> MAX_CONTENT_LEN"
    and i: "8 + 256 * Suc i \<le> INDEX_SIZE"
  shows "\<exists>x'. flush_entry junk fs i x = Inr x' \<and> flushed st (Suc i) x'"
proof (cases x)
  case (Pair st' idx)
  have e: "mem_store st' i = mem_store st i"
    using inv Pair by (simp add: flushed_def)
  have "(mem_store st i)\<lparr>dirty := False\<rparr> = mem_store st i" if "\<not> dirty (mem_store st i)"
    using that by (cases "mem_store st i") simp
  then show ?thesis
    using inv len i e unfolding Pair
    by (auto simp: flush_entry_def flushed_def Let_def less_Suc_eq fun_eq_iff split: prod.splits)
qed

lemma flushed_view: "flushed st i (st', idx) \<Longrightarrow> mem_view st' = mem_view st"
  by (auto simp: flushed_def mem_view_def entry_view_def entry_text_def)

lemma mem_ok_content_len:
  "mem_ok hok used st \<Longrightarrow> i < mem_count st \<Longrightarrow> content_len (mem_store st i) \<le> MAX_CONTENT_LEN"
  by (simp add: mem_ok_def entry_ok_def)

lemma aion_memory_flush_ok:
  assumes ok: "mem_ok hok used st" and count: "mem_count st \<le> 4095"
  shows "\<exists>st'. aion_memory_flush junk fs st = Inr st' \<and> mem_view st' = mem_view st \<and>
    mem_ok hok used st' \<and> mem_dirty st' = 0"
proof (cases "mem_dirty st = 0")
  case True
  then show ?thesis
    using ok by (simp add: aion_memory_flush_def)
next
  case False
  obtain x where loop: "for_loop 0 (mem_count st) (flush_entry junk fs) (st, le_bytes 8 (mem_count st)) = Inr x"
    and x: "flushed st (mem_count st) x"
  proof (atomize_elim, rule for_loop_rule [where P = "flushed st"])
    show "flushed st 0 (st, le_bytes 8 (mem_count st))"
      by (simp add: flushed_def)
    fix i y
    assume "i < mem_count st" "flushed st i y"
    then show "\<exists>y'. flush_entry junk fs i y = Inr y' \<and> flushed st (Suc i) y'"
      using count mem_ok_content_len [OF ok] by (intro flush_entry_flushed) (auto simp: INDEX_SIZE_def)
  qed simp
  obtain st' idx where p: "x = (st', idx)"
    by fastforce
  obtain r f where w: "fs_write_file_usb fs INDEX_PATH idx (fs_state st') = (r, f)"
    by fastforce
  have "mem_ok hok used (st'\<lparr>fs_state := f, mem_dirty := 0\<rparr>)"
    using ok x by (auto simp: p flushed_def mem_ok_def entry_ok_def)
  moreover have "mem_view (st'\<lparr>fs_state := f, mem_dirty := 0\<rparr>) = mem_view st"
    using flushed_view x p by (auto simp: mem_view_def)
  ultimately show ?thesis
    using False loop p w by (simp add: aion_memory_flush_def)
qed

lemma aion_memory_flush_overflow:
  assumes ok: "mem_ok hok used st" and "mem_dirty st \<noteq> 0" and count: "4095 < mem_count st"
  shows "aion_memory_flush junk fs st = Inl BufferOverflow"
proof -
  have "for_loop 0 (mem_count st) (flush_entry junk fs) (st, le_bytes 8 (mem_count st)) = Inl BufferOverflow"
  proof (rule for_loop_fault [where P = "flushed st" and k = 4095])
    show "flushed st 0 (st, le_bytes 8 (mem_count st))"
      by (simp add: flushed_def)
    show "\<exists>y'. flush_entry junk fs i y = Inr y' \<and> flushed st (Suc i) y'" if "i < 4095" "flushed st i y" for i y
      using that count mem_ok_content_len [OF ok]
      by (intro flush_entry_flushed) (auto simp: INDEX_SIZE_def)
    show "flush_entry junk fs 4095 y = Inl BufferOverflow" for y
      by (cases y) (simp add: flush_entry_def INDEX_SIZE_def Let_def)
  qed (use count in simp_all)
  then show ?thesis
    using assms(2) by (simp add: aion_memory_flush_def)
qed

subsection \<open>Storing an entry\<close>

definition made_room :: "experience list \<Rightarrow> experience list \<Rightarrow> bool" where
  "made_room es es' \<longleftrightarrow>
     (if length es < MAX_MEMORIES then es' = es
      else \<exists>w. victim es w \<and> w < length es \<and> es' = take w es @ drop (Suc w) es)"

definition new_experience :: "AionMemoryEntry \<Rightarrow> string \<Rightarrow> experience" where
  "new_experience entry text =
     (in_type entry, in_importance entry, in_tick entry, take MAX_CONTENT_LEN text)"

lemma made_room_length: "made_room es es' \<Longrightarrow> length es \<le> MAX_MEMORIES \<Longrightarrow> length es' < MAX_MEMORIES"
  by (auto simp: made_room_def MAX_MEMORIES_def split: if_splits)

lemma mem_append_view:
  "mem_view (mem_append entry p clen st) =
    mem_view st @ [(in_type entry, in_importance entry, in_tick entry, read_ram (ram st) p clen)]"
  by (simp add: mem_view_def mem_append_def entry_view_def entry_text_def)

lemma mem_append_ok:
  assumes "mem_ok hok used st" and "mem_count st < MAX_MEMORIES" and "clen \<le> MAX_CONTENT_LEN"
    and "unat p + clen + 1 \<le> 2 ^ 64" and "{unat p ..< unat p + clen + 1} \<subseteq> used (heap_state st)"
  shows "mem_ok hok used (mem_append entry p clen st)"
  using assms by (auto simp: mem_ok_def mem_append_def entry_ok_def less_Suc_eq)

context block_heap
begin

lemma make_room_spec:
  assumes ok: "mem_ok hok used st"
  defines "st1 \<equiv> (if MAX_MEMORIES \<le> mem_count st then mem_evict release st else st)"
  shows "mem_ok hok used st1 \<and> made_room (mem_view st) (mem_view st1) \<and> mem_count st1 < MAX_MEMORIES \<and>
    mem_count st1 = min (mem_count st) (MAX_MEMORIES - 1) \<and> mem_dirty st1 = mem_dirty st"
proof (cases "MAX_MEMORIES \<le> mem_count st")
  case True
  then have pos: "0 < mem_count st" and eq: "mem_count st = MAX_MEMORIES"
    using ok by (auto simp: mem_ok_def MAX_MEMORIES_def)
  then have "mem_count (mem_evict release st) = MAX_MEMORIES - 1"
      "mem_dirty (mem_evict release st) = mem_dirty st"
    by (simp_all add: mem_evict_def Let_def)
  then show ?thesis
    using True eq mem_evict_view [OF pos] mem_evict_ok [OF ok pos]
    by (auto simp: st1_def made_room_def MAX_MEMORIES_def)
next
  case False
  then show ?thesis
    using ok by (simp add: st1_def made_room_def)
qed

lemma aion_memory_store_cases:
  assumes ok: "mem_ok hok used st" and body: "in_content entry = Some text"
  obtains (failed) st' where "aion_memory_store malloc release junk fs entry st = Inr st'"
      "mem_ok hok used st'" "made_room (mem_view st) (mem_view st')"
      "mem_strdup malloc text (min (length text) MAX_CONTENT_LEN)
        (if MAX_MEMORIES \<le> mem_count st then mem_evict release st else st) = (0, st')"
  | (stored) st' es where "aion_memory_store malloc release junk fs entry st = Inr st'"
      "mem_ok hok used st'" "made_room (mem_view st) es"
      "mem_view st' = es @ [new_experience entry text]"
      "fst (mem_strdup malloc text (min (length text) MAX_CONTENT_LEN)
        (if MAX_MEMORIES \<le> mem_count st then mem_evict release st else st)) \<noteq> 0"
  | (overflow) "aion_memory_store malloc release junk fs entry st = Inl BufferOverflow"
      "9 \<le> mem_dirty st" "4095 \<le> mem_count st"
proof -
  define st1 where "st1 = (if MAX_MEMORIES \<le> mem_count st then mem_evict release st else st)"
  define clen where "clen = min (length text) MAX_CONTENT_LEN"
  have st1: "mem_ok hok used st1" "made_room (mem_view st) (mem_view st1)" "mem_count st1 < MAX_MEMORIES"
      "mem_count st1 = min (mem_count st) (MAX_MEMORIES - 1)" "mem_dirty st1 = mem_dirty st"
    using make_room_spec [OF ok] by (simp_all add: st1_def)
  have store: "aion_memory_store malloc release junk fs entry st =
      (let (p, st) = mem_strdup malloc text clen st1
       in if p = 0 then Inr st
          else let st = mem_append entry p clen st
               in if 10 \<le> mem_dirty st then aion_memory_flush junk fs st else Inr st)"
    unfolding aion_memory_store_def body option.case st1_def clen_def Let_def ..
  have clen: "clen \<le> length text" "clen \<le> MAX_CONTENT_LEN" "take clen text = take MAX_CONTENT_LEN text"
    by (simp_all add: clen_def min_def)
  from st1(1) clen(1,2) show thesis
  proof (cases rule: mem_strdup_spec)
    case (failed st')
    have "mem_view st' = mem_view st1"
      by (subst failed(3)) (simp add: mem_view_def)
    then show thesis
      using failed(1,2) st1(2) by (intro that(1) [of st']) (simp_all add: store flip: st1_def clen_def)
  next
    case (copied p st2)
    let ?st3 = "mem_append entry p clen st2"
    have same: "mem_count st2 = mem_count st1" "mem_dirty st2 = mem_dirty st1"
      by (subst copied(4), simp)+
    have view: "mem_view ?st3 = mem_view st1 @ [new_experience entry text]"
      unfolding mem_append_view copied(5,8) clen(3) by (simp add: new_experience_def)
    have ok3: "mem_ok hok used ?st3"
      using copied(3,6,7) clen(2) st1(3) by (intro mem_append_ok) (simp_all add: same)
    have count: "mem_count ?st3 = Suc (mem_count st1)" and dirty: "mem_dirty ?st3 = Suc (mem_dirty st)"
      by (simp_all add: mem_append_def same st1(5))
    have got: "fst (mem_strdup malloc text (min (length text) MAX_CONTENT_LEN)
        (if MAX_MEMORIES \<le> mem_count st then mem_evict release st else st)) \<noteq> 0"
      using copied(1,2) unfolding st1_def clen_def by simp
    show thesis
    proof (cases "10 \<le> mem_dirty ?st3")
      case False
      then have "aion_memory_store malloc release junk fs entry st = Inr ?st3"
        using copied(1,2) by (simp add: store)
      then show thesis
        using st1(2) by (rule that(2) [OF _ ok3 _ view got])
    next
      case flush: True
      then have eq: "aion_memory_store malloc release junk fs entry st = aion_memory_flush junk fs ?st3"
        using copied(1,2) by (simp add: store)
      show thesis
      proof (cases "mem_count ?st3 \<le> 4095")
        case True
        obtain st4 where "aion_memory_flush junk fs ?st3 = Inr st4" "mem_view st4 = mem_view ?st3"
            "mem_ok hok used st4"
          using aion_memory_flush_ok [OF ok3 True] by blast
        then show thesis
          using eq view st1(2) got by (intro that(2) [of st4 "mem_view st1"]) simp_all
      next
        case False
        then have "aion_memory_flush junk fs ?st3 = Inl BufferOverflow"
          using flush by (intro aion_memory_flush_overflow [OF ok3]) simp_all
        then show thesis
          using eq False flush st1(4) count dirty by (intro that(3)) simp_all
      qed
    qed
  qed
qed

lemma store_mem_ok:
  assumes "mem_ok hok used st" and "aion_memory_store malloc release junk fs entry st = Inr st'"
  shows "mem_ok hok used st' \<and> mem_count st' \<le> Suc (mem_count st)"
proof (cases "in_content entry")
  case None
  then show ?thesis
    using assms by (simp add: aion_memory_store_def)
next
  case (Some body)
  have room: "length es' \<le> length es" if "made_room es es'" for es es' :: "experience list"
    using that by (auto simp: made_room_def split: if_splits)
  from assms(1) Some show ?thesis
  proof (cases rule: aion_memory_store_cases [where junk = junk and fs = fs])
    case (failed st1)
    then show ?thesis
      using assms(2) room [OF failed(3)] by simp
  next
    case (stored st1 es)
    then have "mem_count st1 = Suc (length es)"
      by (metis length_append_singleton length_mem_view)
    then show ?thesis
      using stored assms(2) room [OF stored(3)] by simp
  next
    case overflow
    then show ?thesis
      using assms(2) by simp
  qed
qed

end

text \<open>With room in the heap and in the index the entry is stored.\<close>

context roomy_heap
begin

lemma mem_strdup_roomy:
  assumes "mem_ok hok used st" and "0 < room (heap_state st)" and "len \<le> MAX_CONTENT_LEN"
    and "mem_strdup malloc s len st = (p, st')"
  shows "p \<noteq> 0"
proof -
  obtain q h where call: "malloc (of_nat (len + 1)) (heap_state st) = (q, h)"
    by fastforce
  have "unat (of_nat (len + 1) :: u64) \<le> SMALL_BLOCK"
    using assms(3) by (subst unat_of_nat_u64) (simp_all add: MAX_CONTENT_LEN_def SMALL_BLOCK_def)
  then have "q \<noteq> 0"
    using room_ok [OF _ _ assms(2) call] assms(1) by (simp add: mem_ok_def)
  then show ?thesis
    using assms(4) call by (simp add: mem_strdup_def split: if_splits)
qed

lemma aion_memory_store_roomy:
  assumes "mem_ok hok used st" and "0 < room (heap_state st)" and "in_content entry = Some body"
    and "mem_count st < 4095"
  shows "\<exists>st'. aion_memory_store malloc release junk fs entry st = Inr st' \<and> mem_ok hok used st' \<and>
    mem_view st' = mem_view st @ [new_experience entry body]"
  using assms(1,3)
proof (cases rule: aion_memory_store_cases [where junk = junk and fs = fs])
  case (failed st')
  then have "mem_strdup malloc body (min (length body) MAX_CONTENT_LEN) st = (0, st')"
    using assms(4) by (simp add: MAX_MEMORIES_def split: if_splits)
  from mem_strdup_roomy [OF assms(1,2) _ this] show ?thesis
    by simp
next
  case (stored st' es)
  then show ?thesis
    using assms(4) by (auto simp: made_room_def MAX_MEMORIES_def)
next
  case overflow
  then show ?thesis
    using assms(4) by simp
qed

end

subsection \<open>Search and recall\<close>

definition entry_matches :: "string \<Rightarrow> ('h, 'f) amem \<Rightarrow> nat \<Rightarrow> bool" where
  "entry_matches key st i \<longleftrightarrow> sublist key (c_string (entry_text (ram st) (mem_store st i)))"

lemma search_from_None: "search_from key st n = None \<longleftrightarrow> (\<forall>i < n. \<not> entry_matches key st i)"
  by (induction n) (auto simp: entry_matches_def strstr_None less_Suc_eq simp flip: not_None_eq)

lemma search_from_Some:
  assumes "search_from key st n = Some p"
  shows "\<exists>i < n. p = content (mem_store st i) \<and> entry_matches key st i \<and>
    (\<forall>j < n. i < j \<longrightarrow> \<not> entry_matches key st j)"
  using assms
proof (induction n)
  case (Suc n)
  show ?case
  proof (cases "entry_matches key st n")
    case True
    then have "p = content (mem_store st n)"
      using Suc.prems strstr_None by (simp add: entry_matches_def split: if_splits)
    with True show ?thesis
      by (intro exI [of _ n]) simp
  next
    case False
    then have "search_from key st n = Some p"
      using Suc.prems strstr_None by (auto simp: entry_matches_def split: if_splits)
    with Suc.IH False show ?thesis
      by (metis less_Suc_eq)
  qed
qed simp

subsection \<open>Properties\<close>


definition mem_static :: "heap \<Rightarrow> 'f \<Rightarrow> (heap, 'f) amem" where
  "mem_static h f = \<lparr>mem_store = (\<lambda>_. \<lparr>ment_type = 0, importance = 0, tick = 0, timestamp_ms = 0,
       content = 0, content_len = 0, dirty = False\<rparr>),
     mem_count = 0, mem_dirty = 0, store_exists = False, heap_state = h, ram = (\<lambda>_. NUL), fs_state = f,
     load_index = replicate INDEX_SIZE NUL,
     load_record = replicate (MAX_CONTENT_LEN + RECORD_HEADER) NUL\<rparr>"

lemma mem_static_ok: "heap_ok h \<Longrightarrow> mem_ok heap_ok heap_used (mem_static h f)"
  by (simp add: mem_ok_def mem_static_def MAX_MEMORIES_def)

lemma mem_static_fields [simp]:
  "fs_state (mem_static h f) = f" "mem_count (mem_static h f) = 0" "heap_state (mem_static h f) = h"
  by (simp_all add: mem_static_def)

lemma mem_static_view: "mem_view (mem_static h f) = []"
  by (simp add: mem_view_def mem_static_def)


text \<open>The index buffer of a flush holds 4095 paths: with anything to write, a flush runs past the
  buffer exactly if the store holds more entries than that, although it has room for 65536.\<close>

theorem flush_overflows_index:
  assumes "mem_ok heap_ok heap_used st" and "mem_dirty st \<noteq> 0"
  shows "aion_memory_flush junk fs st = Inl BufferOverflow \<longleftrightarrow> 4095 < mem_count st"
  using aion_memory_flush_overflow [OF assms] aion_memory_flush_ok [OF assms(1), of junk fs]
  by (cases "mem_count st \<le> 4095") auto

definition full_index_store :: "(heap, fs_state) amem" where
  "full_index_store = mem_static \<lparr>heap_ptr = 32, heap_end = 4096\<rparr> fs_static
     \<lparr>mem_count := 4096, mem_dirty := 1,
      mem_store := (\<lambda>_. \<lparr>ment_type = 0, importance = 1, tick = 0, timestamp_ms = 0,
        content = 16, content_len = 3, dirty = True\<rparr>)\<rparr>"

theorem flush_overflows_index_witness:
  "aion_memory_flush (\<lambda>_. []) fs_stub full_index_store = Inl BufferOverflow"
proof -
  have "mem_ok heap_ok heap_used full_index_store"
    by (auto simp: mem_ok_def full_index_store_def mem_static_def entry_ok_def heap_ok_def heap_used_def
        HEAP_TOP_def MAX_MEMORIES_def MAX_CONTENT_LEN_def)
  then show ?thesis
    by (subst flush_overflows_index) (simp_all add: full_index_store_def)
qed

text \<open>A search returns the text of the newest entry that contains the key, and nothing exactly
  if no entry does.\<close>

theorem search_newest:
  "case aion_memory_search key st of
     None \<Rightarrow> \<not> (\<exists>i. i < mem_count st \<and> entry_matches key st i)
   | Some p \<Rightarrow> \<exists>i. i < mem_count st \<and> p = content (mem_store st i) \<and> entry_matches key st i \<and>
       \<not> (\<exists>j. i < j \<and> j < mem_count st \<and> entry_matches key st j)"
proof (cases "aion_memory_search key st")
  case None
  then show ?thesis
    using search_from_None [of key st "mem_count st"] by (auto simp: aion_memory_search_def)
next
  case (Some p)
  then have "search_from key st (mem_count st) = Some p"
    by (simp add: aion_memory_search_def)
  from search_from_Some [OF this] Some show ?thesis
    by auto
qed

text \<open>The recent context of up to sixteen entries is the last \<open>n\<close> entries in order; asked for
  more than sixteen it is the oldest sixteen of the last \<open>n\<close>, not the newest. A negative number overflows the
  subtraction exactly if it is below the number of entries less 2\<open>^\<close>31.\<close>

theorem recent_entries:
  assumes "mem_ok hok used st"
  shows "n < 2 ^ 31 \<Longrightarrow> \<exists>es. aion_memory_get_recent (int n) st = Inr es \<and>
      map (entry_view (ram st)) es = take 16 (drop (mem_count st - n) (mem_view st)) \<and>
      (n \<le> 16 \<longrightarrow> map (entry_view (ram st)) es = drop (mem_count st - n) (mem_view st))"
    and "- (2 ^ 31) \<le> k \<Longrightarrow> k < 0 \<Longrightarrow> aion_memory_get_recent k st =
      (if mem_count st \<noteq> 0 \<and> k \<le> int (mem_count st) - 2 ^ 31 then Inl SignedOverflow else Inr [])"
proof -
  have count: "int (mem_count st) \<le> 65536"
    using assms by (simp add: mem_ok_def MAX_MEMORIES_def)
  show "\<exists>es. aion_memory_get_recent (int n) st = Inr es \<and>
      map (entry_view (ram st)) es = take 16 (drop (mem_count st - n) (mem_view st)) \<and>
      (n \<le> 16 \<longrightarrow> map (entry_view (ram st)) es = drop (mem_count st - n) (mem_view st))" if "n < 2 ^ 31"
  proof -
    have start: "nat (max 0 (int (mem_count st) - int n)) = mem_count st - n"
      by simp
    have range: "\<not> (int (mem_count st) - int n < - (2 ^ 31) \<or> 2 ^ 31 \<le> int (mem_count st) - int n)"
      using count that by simp
    let ?es = "map (mem_store st) (take 16 [mem_count st - n ..< mem_count st])"
    have "aion_memory_get_recent (int n) st = Inr ?es"
      unfolding aion_memory_get_recent_def Let_def start if_not_P [OF range] by simp
    then show ?thesis
      by (intro exI [of _ ?es]) (simp add: mem_view_def take_map drop_map comp_def)
  qed
  show "aion_memory_get_recent k st =
      (if mem_count st \<noteq> 0 \<and> k \<le> int (mem_count st) - 2 ^ 31 then Inl SignedOverflow else Inr [])"
    if "- (2 ^ 31) \<le> k" "k < 0"
    using that count by (auto simp: aion_memory_get_recent_def Let_def)
qed

end
