(* ===== verification/MemoryFiles.thy ===== *)
theory MemoryFiles
  imports AionMemory
begin

section \<open>Experiences on disk\<close>

text \<open>
  What a flush of \<^verbatim>\<open>consciousness/memory/aion_memory.c\<close> writes and a later load reads back,
  for a file layer that keeps what it is given: the record and index formats, the
  invariant that every clean entry is on disk, and the round trip. The stub in
  \<^verbatim>\<open>kernel/fs/fs.c\<close> is not such a layer, and with it nothing comes back.
\<close>

subsection \<open>A file layer that keeps files\<close>

definition file_store :: "'f fs_ops \<Rightarrow> ('f \<Rightarrow> string \<Rightarrow> string option) \<Rightarrow> bool" where
  "file_store fs files \<longleftrightarrow>
     (\<forall>path data f. files (snd (fs_write_file_usb fs path data f)) = (files f)(path \<mapsto> data)) \<and>
     (\<forall>path data n f. files f path = Some data \<and> length data \<le> n \<longrightarrow>
        fs_read_file fs path n f = (int (length data), data, f))"

lemma file_storeD:
  assumes "file_store fs files"
  shows "files (snd (fs_write_file_usb fs path data f)) = (files f)(path \<mapsto> data)"
    and "files f path = Some data \<Longrightarrow> length data \<le> n \<Longrightarrow>
      fs_read_file fs path n f = (int (length data), data, f)"
  using assms unfolding file_store_def by blast+

text \<open>One that does: a map from paths to contents.\<close>

definition map_fs :: "(string \<Rightarrow> string option) fs_ops" where
  "map_fs = \<lparr>
     fs_read_file = (\<lambda>path n f. case f path of None \<Rightarrow> (-1, [], f)
                      | Some data \<Rightarrow> (int (length (take n data)), take n data, f)),
     fs_write_file_usb = (\<lambda>path data f. (int (length data), f(path \<mapsto> data))),
     fs_file_exists = (\<lambda>path f. f path \<noteq> None),
     fs_mkdir_usb = (\<lambda>path f. (0, f))\<rparr>"

lemma map_fs_store: "file_store map_fs (\<lambda>f. f)"
  by (auto simp: file_store_def map_fs_def)

subsection \<open>Paths\<close>

lemma mem_path_eq: "i < MAX_MEMORIES \<Longrightarrow> mem_path ty i = mem_type_dir ty @ dec i @ ''.mem''"
proof -
  assume "i < MAX_MEMORIES"
  then have "length (dec i) \<le> Suc 4"
    by (intro dec_length) (simp add: MAX_MEMORIES_def)
  moreover have "length (mem_type_dir ty) \<le> 22"
    by (simp add: mem_type_dir_def EPISODIC_DIR_def SEMANTIC_DIR_def SELF_DIR_def)
  ultimately show ?thesis
    by (simp add: mem_path_def strlcut_def)
qed

lemma mem_path_length: "i < MAX_MEMORIES \<Longrightarrow> length (mem_path ty i) < 255"
proof -
  assume i: "i < MAX_MEMORIES"
  then have "length (dec i) \<le> Suc 4"
    by (intro dec_length) (simp add: MAX_MEMORIES_def)
  moreover have "length (mem_type_dir ty) \<le> 22"
    by (simp add: mem_type_dir_def EPISODIC_DIR_def SEMANTIC_DIR_def SELF_DIR_def)
  ultimately show ?thesis
    using i by (simp add: mem_path_eq)
qed

lemma mem_path_cstr: "i < MAX_MEMORIES \<Longrightarrow> cstr (mem_path ty i)"
  using dec_digits [of i]
  by (auto simp: mem_path_eq cstr_def mem_type_dir_def EPISODIC_DIR_def SEMANTIC_DIR_def SELF_DIR_def NUL_def)

lemma mem_path_inj:
  assumes "i < MAX_MEMORIES" and "j < MAX_MEMORIES" and "mem_path ty i = mem_path ty' j"
  shows "i = j"
  using assms dec_inj
  by (auto simp: mem_path_eq mem_type_dir_def EPISODIC_DIR_def SEMANTIC_DIR_def SELF_DIR_def
      split: if_splits)

lemma mem_path_index: "i < MAX_MEMORIES \<Longrightarrow> mem_path ty i \<noteq> INDEX_PATH"
  by (simp add: mem_path_eq mem_type_dir_def EPISODIC_DIR_def SEMANTIC_DIR_def SELF_DIR_def INDEX_PATH_def)

subsection \<open>The two formats\<close>

lemma length_record_bytes [simp]: "length (record_bytes m e) = RECORD_HEADER + content_len e"
  by (simp add: record_bytes_def RECORD_HEADER_def entry_text_def)

lemma record_fields:
  assumes "content_len e \<le> MAX_CONTENT_LEN"
    and buf_def: "buf = record_bytes m e @ rest"
  shows "field 0 4 buf = MEM_MAGIC" and "field 4 1 buf = unat (ment_type e)"
    and "field 5 1 buf = unat (importance e)" and "field 8 8 buf = unat (tick e)"
    and "field 24 4 buf = content_len e" and "take (content_len e) (drop RECORD_HEADER buf) = entry_text m e"
proof -
  have small: "unat (ment_type e) < 256 ^ 1" "unat (importance e) < 256 ^ 1" "unat (tick e) < 256 ^ 8"
    using unsigned_less [of "ment_type e"] unsigned_less [of "importance e"] unsigned_less [of "tick e"]
    by simp_all
  show "field 0 4 buf = MEM_MAGIC" "field 4 1 buf = unat (ment_type e)"
    "field 5 1 buf = unat (importance e)" "field 8 8 buf = unat (tick e)" "field 24 4 buf = content_len e"
    using small assms(1)
    by (simp_all add: buf_def record_bytes_def field_def MEM_MAGIC_def MAX_CONTENT_LEN_def
        del: power_one_right)
  show "take (content_len e) (drop RECORD_HEADER buf) = entry_text m e"
    by (simp add: buf_def record_bytes_def RECORD_HEADER_def entry_text_def)
qed

lemma length_index_entry [simp]: "length (index_entry junk path imp) = 256"
  by (simp add: index_entry_def)

lemma index_entry_path:
  assumes "cstr path" and "length path < 255"
  shows "c_string (take 255 (index_entry junk path imp @ rest)) = path"
proof -
  have "take 255 (index_entry junk path imp @ rest) = path @ NUL # take (254 - length path) (junk @ replicate 255 NUL)"
    using assms(2) by (simp add: index_entry_def take_Cons')
  then show ?thesis
    using assms(1) by (simp add: c_string_def takeWhile_append cstr_def)
qed

lemma drop_concat_blocks:
  "\<forall>i < n. length (f i) = k \<Longrightarrow> i < n \<Longrightarrow>
    drop (k * i) (concat (map f [0..<n])) = f i @ concat (map f [Suc i..<n])"
proof (induction n)
  case (Suc n)
  have len: "length (concat (map f [0..<n])) = k * n"
    using Suc.prems(1) by (induction n) (auto simp: add.commute)
  show ?case
  proof (cases "i < n")
    case True
    then have "k * i \<le> k * n"
      by simp
    then show ?thesis
      using Suc True by (simp add: len)
  next
    case False
    then have "i = n"
      using Suc.prems(2) by simp
    then show ?thesis
      by (simp add: len)
  qed
qed simp

subsection \<open>What a flush writes\<close>

definition entry_path :: "('h, 'f) amem \<Rightarrow> nat \<Rightarrow> string" where
  "entry_path st i = mem_path (ment_type (mem_store st i)) i"

definition on_disk :: "('f \<Rightarrow> string \<Rightarrow> string option) \<Rightarrow> ('h, 'f) amem \<Rightarrow> 'f \<Rightarrow> nat \<Rightarrow> bool" where
  "on_disk files st f i \<longleftrightarrow> files f (entry_path st i) = Some (record_bytes (ram st) (mem_store st i))"

text \<open>Every entry that is not waiting to be written is on disk under its own path.\<close>

definition synced :: "('f \<Rightarrow> string \<Rightarrow> string option) \<Rightarrow> ('h, 'f) amem \<Rightarrow> bool" where
  "synced files st \<longleftrightarrow> (\<forall>i < mem_count st. \<not> dirty (mem_store st i) \<longrightarrow> on_disk files st (fs_state st) i)"

definition index_bytes :: "(nat \<Rightarrow> string) \<Rightarrow> ('h, 'f) amem \<Rightarrow> nat \<Rightarrow> string" where
  "index_bytes junk st i = le_bytes 8 (mem_count st) @
     concat (map (\<lambda>j. index_entry (junk j) (entry_path st j) (importance (mem_store st j))) [0..<i])"

definition written ::
  "('f \<Rightarrow> string \<Rightarrow> string option) \<Rightarrow> (nat \<Rightarrow> string) \<Rightarrow> ('h, 'f) amem \<Rightarrow> nat \<Rightarrow> ('h, 'f) amem \<times> string \<Rightarrow> bool"
where
  "written files junk st i = (\<lambda>(st', idx). flushed st i (st', idx) \<and> idx = index_bytes junk st i \<and>
     (\<forall>j < mem_count st. j < i \<or> \<not> dirty (mem_store st j) \<longrightarrow> on_disk files st (fs_state st') j))"

lemma flush_entry_written:
  assumes fs: "file_store fs files" and ok: "mem_ok hok used st" and inv: "written files junk st i x"
    and i: "i < mem_count st" "mem_count st \<le> 4095"
  shows "\<exists>x'. flush_entry junk fs i x = Inr x' \<and> written files junk st (Suc i) x'"
proof -
  obtain st' idx where x: "x = (st', idx)"
    by fastforce
  have fl: "flushed st i (st', idx)" and idx: "idx = index_bytes junk st i"
    and disk: "\<And>j. j < mem_count st \<Longrightarrow> j < i \<or> \<not> dirty (mem_store st j) \<Longrightarrow> on_disk files st (fs_state st') j"
    using inv unfolding x written_def by auto
  obtain x' where step: "flush_entry junk fs i x = Inr x'" and fl': "flushed st (Suc i) x'"
    using flush_entry_flushed [OF fl, of junk fs] mem_ok_content_len [OF ok i(1)] i
    unfolding x by (auto simp: INDEX_SIZE_def)
  have e: "mem_store st' i = mem_store st i" and ram: "ram st' = ram st"
    using fl by (simp_all add: flushed_def)
  have bound: "j < MAX_MEMORIES" if "j < mem_count st" for j
    using that i(2) by (simp add: MAX_MEMORIES_def)
  have idx': "idx @ index_entry (junk i) (entry_path st i) (importance (mem_store st i)) =
      index_bytes junk st (Suc i)"
    by (simp add: idx index_bytes_def)
  have "written files junk st (Suc i) x'"
  proof (cases "dirty (mem_store st i)")
    case False
    then have "x' = (st', index_bytes junk st (Suc i))"
      using step e idx' i unfolding x
      by (simp add: flush_entry_def INDEX_SIZE_def Let_def entry_path_def split: if_splits)
    then show ?thesis
      using fl' disk False by (auto simp: written_def less_Suc_eq)
  next
    case True
    let ?data = "record_bytes (ram st) (mem_store st i)"
    obtain r f where w: "fs_write_file_usb fs (entry_path st i) ?data (fs_state st') = (r, f)"
      by fastforce
    have x': "x' = (st'\<lparr>fs_state := f, mem_store := (mem_store st')(i := (mem_store st i)\<lparr>dirty := False\<rparr>)\<rparr>,
        index_bytes junk st (Suc i))"
      using step e idx' i w True mem_ok_content_len [OF ok i(1)] unfolding x
      by (auto simp: flush_entry_def INDEX_SIZE_def Let_def entry_path_def ram split: if_splits)
    have files: "files f = (files (fs_state st'))(entry_path st i \<mapsto> ?data)"
      using file_storeD(1) [OF fs, of "entry_path st i" ?data "fs_state st'"] w by simp
    have "entry_path st j \<noteq> entry_path st i" if "j < mem_count st" "j \<noteq> i" for j
      using mem_path_inj [OF bound [OF that(1)] bound [OF i(1)]] that(2) by (auto simp: entry_path_def)
    then have "on_disk files st f j" if "j < mem_count st" "j < Suc i \<or> \<not> dirty (mem_store st j)" for j
      using that disk [of j] files by (cases "j = i") (auto simp: on_disk_def)
    then show ?thesis
      using fl' unfolding x' written_def by auto
  qed
  with step show ?thesis
    by blast
qed

lemma aion_memory_flush_written:
  assumes fs: "file_store fs files" and ok: "mem_ok hok used st" and sync: "synced files st"
    and count: "mem_count st \<le> 4095" and dirty: "mem_dirty st \<noteq> 0"
  shows "\<exists>st'. aion_memory_flush junk fs st = Inr st' \<and> mem_view st' = mem_view st \<and> synced files st' \<and>
    (\<forall>i < mem_count st. on_disk files st (fs_state st') i) \<and>
    files (fs_state st') INDEX_PATH = Some (index_bytes junk st (mem_count st))"
proof -
  let ?n = "mem_count st"
  obtain x where loop: "for_loop 0 ?n (flush_entry junk fs) (st, le_bytes 8 ?n) = Inr x"
    and x: "written files junk st ?n x"
  proof (atomize_elim, rule for_loop_rule [where P = "written files junk st"])
    show "written files junk st 0 (st, le_bytes 8 ?n)"
      using sync by (simp add: written_def flushed_def index_bytes_def synced_def)
    fix i y
    assume "i < ?n" "written files junk st i y"
    then show "\<exists>y'. flush_entry junk fs i y = Inr y' \<and> written files junk st (Suc i) y'"
      using flush_entry_written [OF fs ok] count by blast
  qed simp
  obtain st' idx where p: "x = (st', idx)"
    by fastforce
  have idx: "idx = index_bytes junk st ?n"
    and disk: "\<And>i. i < ?n \<Longrightarrow> on_disk files st (fs_state st') i"
    using x unfolding p written_def by auto
  obtain r f where w: "fs_write_file_usb fs INDEX_PATH idx (fs_state st') = (r, f)"
    by fastforce
  have files: "files f = (files (fs_state st'))(INDEX_PATH \<mapsto> idx)"
    using file_storeD(1) [OF fs, of INDEX_PATH idx "fs_state st'"] w by simp
  have "entry_path st i \<noteq> INDEX_PATH" if "i < ?n" for i
    using that count mem_path_index [of i] by (simp add: entry_path_def MAX_MEMORIES_def)
  then have disk': "on_disk files st f i" if "i < ?n" for i
    using disk [OF that] that files by (simp add: on_disk_def)
  have "mem_view (st'\<lparr>fs_state := f, mem_dirty := 0\<rparr>) = mem_view st"
    using flushed_view x unfolding p written_def by (fastforce simp: mem_view_def)
  moreover have "synced files (st'\<lparr>fs_state := f, mem_dirty := 0\<rparr>)"
  proof -
    have fl: "flushed st ?n (st', idx)"
      using x unfolding p written_def prod.case by blast
    then have "on_disk files (st'\<lparr>fs_state := f, mem_dirty := 0\<rparr>) f i = on_disk files st f i" if "i < ?n" for i
      using that by (simp add: on_disk_def entry_path_def record_bytes_def entry_text_def flushed_def)
    then show ?thesis
      using fl disk' by (simp add: synced_def flushed_def)
  qed
  ultimately show ?thesis
    using dirty loop p w disk' files idx by (simp add: aion_memory_flush_def)
qed

subsection \<open>What a load reads back\<close>

definition loaded :: "('h, 'f) amem \<Rightarrow> 'f \<Rightarrow> string \<Rightarrow> nat \<Rightarrow> ('h, 'f) amem \<Rightarrow> bool" where
  "loaded st f buf i s \<longleftrightarrow> fs_state s = f \<and> load_index s = buf \<and> mem_count s = i \<and>
     mem_view s = take i (mem_view st)"

lemma index_path_read:
  assumes "i < mem_count st" and "mem_count st \<le> 4095"
  shows "c_string (take 255 (drop (8 + 256 * i) (index_bytes junk st (mem_count st) @ rest))) = entry_path st i"
proof -
  let ?f = "\<lambda>j. index_entry (junk j) (entry_path st j) (importance (mem_store st j))"
  have i: "i < MAX_MEMORIES"
    using assms by (simp add: MAX_MEMORIES_def)
  have "drop (256 * i) (concat (map ?f [0..<mem_count st])) = ?f i @ concat (map ?f [Suc i..<mem_count st])"
    using assms(1) by (intro drop_concat_blocks) simp_all
  moreover have "256 * i \<le> length (concat (map ?f [0..<mem_count st]))"
    using assms(1) by (simp add: length_concat comp_def sum_list_triv)
  ultimately have "drop (8 + 256 * i) (index_bytes junk st (mem_count st) @ rest) =
      ?f i @ concat (map ?f [Suc i..<mem_count st]) @ rest"
    by (simp add: index_bytes_def)
  then show ?thesis
    using index_entry_path [of "entry_path st i"] mem_path_cstr [OF i] mem_path_length [OF i]
    by (simp add: entry_path_def)
qed

lemma word_of_unat: "of_nat (unat (x :: 'a::len word)) = x"
  by simp

context roomy_heap
begin

text \<open>Reading a record that a flush has written comes down to copying its text.\<close>

lemma load_entry_body:
  assumes fs: "file_store fs files" and ok: "mem_ok hok used st" and count: "mem_count st \<le> 4095"
    and i: "i < mem_count st" and disk: "on_disk files st f i"
    and s: "loaded st f (index_bytes junk st (mem_count st) @ rest) i s"
  obtains buf ts where "content_len (mem_store st i) \<le> length (drop RECORD_HEADER buf)"
    "take (content_len (mem_store st i)) (drop RECORD_HEADER buf) = entry_text (ram st) (mem_store st i)"
    "load_entry malloc fs i s =
      (let (p, s) = mem_strdup malloc (drop RECORD_HEADER buf) (content_len (mem_store st i))
         (s\<lparr>fs_state := f, load_record := buf\<rparr>)
       in if p = 0 then Inr s
          else if MAX_MEMORIES \<le> mem_count s then Inl BufferOverflow
          else Inr (s\<lparr>mem_store := (mem_store s)(mem_count s := (mem_store st i)
                 \<lparr>timestamp_ms := ts, content := p, dirty := False\<rparr>), mem_count := mem_count s + 1\<rparr>))"
proof -
  let ?e = "mem_store st i"
  let ?data = "record_bytes (ram st) ?e"
  have f: "fs_state s = f" "load_index s = index_bytes junk st (mem_count st) @ rest" "mem_count s = i"
    using s(1) by (simp_all add: loaded_def)
  have clen: "content_len ?e \<le> MAX_CONTENT_LEN"
    by (rule mem_ok_content_len [OF ok i])
  define buf where "buf = overlay ?data (load_record s)"
  have read: "fs_read_file fs (entry_path st i) (MAX_CONTENT_LEN + RECORD_HEADER) f = (int (length ?data), ?data, f)"
    using disk clen by (intro file_storeD(2) [OF fs]) (simp_all add: on_disk_def)
  note rec = record_fields [OF clen, of buf "ram st" "drop (length ?data) (load_record s)", OF buf_def [unfolded overlay_def]]
  have entry: "?e\<lparr>timestamp_ms := ts, content := p, dirty := False\<rparr> =
      \<lparr>ment_type = ment_type ?e, importance = importance ?e, tick = tick ?e, timestamp_ms = ts, content = p,
       content_len = content_len ?e, dirty = False\<rparr>" for ts p
    by simp
  show thesis
  proof (rule that [of buf "of_nat (field 16 8 buf)"])
    show "content_len ?e \<le> length (drop RECORD_HEADER buf)"
      by (simp add: buf_def overlay_def)
    show "take (content_len ?e) (drop RECORD_HEADER buf) = entry_text (ram st) ?e"
      using rec(6) .
    show "load_entry malloc fs i s =
      (let (p, s) = mem_strdup malloc (drop RECORD_HEADER buf) (content_len ?e) (s\<lparr>fs_state := f, load_record := buf\<rparr>)
       in if p = 0 then Inr s
          else if MAX_MEMORIES \<le> mem_count s then Inl BufferOverflow
          else Inr (s\<lparr>mem_store := (mem_store s)(mem_count s := ?e
                 \<lparr>timestamp_ms := of_nat (field 16 8 buf), content := p, dirty := False\<rparr>), mem_count := mem_count s + 1\<rparr>))"
      using i count clen
      unfolding load_entry_def Let_def f index_path_read [OF i count] read prod.case buf_def [symmetric]
        rec word_of_unat entry
      by (simp add: INDEX_SIZE_def)
  qed
qed

lemma load_entry_loaded:
  assumes fs: "file_store fs files" and ok: "mem_ok hok used st" and count: "mem_count st \<le> 4095"
    and i: "i < mem_count st" and disk: "on_disk files st f i"
    and s: "loaded st f (index_bytes junk st (mem_count st) @ rest) i s" "mem_ok hok used s"
    and room: "mem_count st - i \<le> room (heap_state s)"
  shows "\<exists>s'. load_entry malloc fs i s = Inr s' \<and>
    loaded st f (index_bytes junk st (mem_count st) @ rest) (Suc i) s' \<and> mem_ok hok used s' \<and>
    mem_count st - Suc i \<le> room (heap_state s')"
proof -
  let ?e = "mem_store st i"
  obtain buf ts where len: "content_len ?e \<le> length (drop RECORD_HEADER buf)"
    and copy: "take (content_len ?e) (drop RECORD_HEADER buf) = entry_text (ram st) ?e"
    and body: "load_entry malloc fs i s =
      (let (p, s) = mem_strdup malloc (drop RECORD_HEADER buf) (content_len ?e) (s\<lparr>fs_state := f, load_record := buf\<rparr>)
       in if p = 0 then Inr s
          else if MAX_MEMORIES \<le> mem_count s then Inl BufferOverflow
          else Inr (s\<lparr>mem_store := (mem_store s)(mem_count s := ?e
                 \<lparr>timestamp_ms := ts, content := p, dirty := False\<rparr>), mem_count := mem_count s + 1\<rparr>))"
    by (rule load_entry_body [OF fs ok count i disk s(1)])
  define s1 where "s1 = s\<lparr>fs_state := f, load_record := buf\<rparr>"
  have clen: "content_len ?e \<le> MAX_CONTENT_LEN"
    by (rule mem_ok_content_len [OF ok i])
  have s1: "mem_ok hok used s1" "heap_state s1 = heap_state s" "mem_count s1 = i" "fs_state s1 = f"
      "load_index s1 = load_index s" "mem_view s1 = mem_view s" "load_index s = index_bytes junk st (mem_count st) @ rest"
    using s by (simp_all add: s1_def mem_ok_def mem_view_def loaded_def)
  have small: "unat (of_nat (content_len ?e + 1) :: u64) \<le> SMALL_BLOCK"
    using clen by (subst unat_of_nat_u64) (simp_all add: MAX_CONTENT_LEN_def SMALL_BLOCK_def)
  obtain p h where call: "malloc (of_nat (content_len ?e + 1)) (heap_state s) = (p, h)"
    by fastforce
  have "hok (heap_state s)"
    using s(2) by (simp add: mem_ok_def)
  from room_ok [OF this small _ call] room i
  have p: "p \<noteq> 0" and room': "room (heap_state s) \<le> Suc (room h)"
    by simp_all
  from s1(1) len clen show ?thesis
  proof (cases rule: mem_strdup_spec)
    case (failed s2)
    then show ?thesis
      using call p by (simp add: mem_strdup_def s1 Let_def)
  next
    case (copied q s2)
    have q: "q = p" "heap_state s2 = h"
      using copied(1) call p by (auto simp: mem_strdup_def s1 Let_def)
    have same: "mem_count s2 = i" "fs_state s2 = f" "load_index s2 = load_index s" "mem_store s2 = mem_store s1"
      using s1 by (subst copied(4), simp)+
    let ?s3 = "s2\<lparr>mem_store := (mem_store s2)(mem_count s2 := ?e\<lparr>timestamp_ms := ts, content := q, dirty := False\<rparr>),
        mem_count := mem_count s2 + 1\<rparr>"
    have bound: "i < MAX_MEMORIES"
      using i count by (simp add: MAX_MEMORIES_def)
    then have eq: "load_entry malloc fs i s = Inr ?s3"
      using body copied(1,2) same(1) by (simp flip: s1_def)
    have "mem_view ?s3 = mem_view s2 @ [(ment_type ?e, importance ?e, tick ?e, entry_text (ram st) ?e)]"
      using copied(8) copy by (simp add: mem_view_def entry_view_def entry_text_def)
    also have "\<dots> = take (Suc i) (mem_view st)"
      using s(1) i by (simp add: copied(5) s1(6) loaded_def take_Suc_conv_app_nth mem_view_nth entry_view_def)
    finally have "loaded st f (index_bytes junk st (mem_count st) @ rest) (Suc i) ?s3"
      using same s1(7) by (simp add: loaded_def)
    moreover have "mem_ok hok used ?s3"
      using copied(3,6,7) bound clen same(1) by (auto simp: mem_ok_def entry_ok_def less_Suc_eq)
    moreover have "mem_count st - Suc i \<le> room (heap_state ?s3)"
      using room room' q by simp
    ultimately show ?thesis
      using eq by blast
  qed
qed

lemma load_all_flushed:
  assumes fs: "file_store fs files" and ok: "mem_ok hok used st" and count: "mem_count st \<le> 4095"
    and disk: "\<forall>i < mem_count st. on_disk files st f i"
    and index: "files f INDEX_PATH = Some (index_bytes junk st (mem_count st))"
    and s: "fs_state s = f" "mem_count s = 0" "mem_ok hok used s" "mem_count st \<le> room (heap_state s)"
  shows "\<exists>s'. aion_memory_load_all malloc fs s = Inr s' \<and> mem_view s' = mem_view st \<and> mem_ok hok used s'"
proof -
  let ?n = "mem_count st"
  let ?idx = "index_bytes junk st ?n"
  let ?rest = "drop (length ?idx) (load_index s)"
  let ?s1 = "s\<lparr>fs_state := f, load_index := ?idx @ ?rest\<rparr>"
  let ?P = "\<lambda>i s. loaded st f (?idx @ ?rest) i s \<and> mem_ok hok used s \<and> ?n - i \<le> room (heap_state s)"
  have len: "length ?idx = 8 + 256 * ?n"
    by (simp add: index_bytes_def length_concat comp_def sum_list_triv)
  have read: "fs_read_file fs INDEX_PATH INDEX_SIZE f = (int (length ?idx), ?idx, f)"
    using count len by (intro file_storeD(2) [OF fs index]) (simp add: INDEX_SIZE_def)
  have n: "field 0 8 (?idx @ ?rest) = ?n"
    using count by (simp add: field_def index_bytes_def)
  have "\<exists>s'. for_loop 0 ?n (load_entry malloc fs) ?s1 = Inr s' \<and> ?P ?n s'"
  proof (rule for_loop_rule [where P = ?P])
    show "?P 0 ?s1"
      using s by (simp add: loaded_def mem_ok_def) (simp add: mem_view_def)
    fix i y
    assume "i < ?n" and y: "?P i y"
    then show "\<exists>y'. load_entry malloc fs i y = Inr y' \<and> ?P (Suc i) y'"
      using load_entry_loaded [OF fs ok count] disk by blast
  qed simp
  then obtain s' where "for_loop 0 ?n (load_entry malloc fs) ?s1 = Inr s'" "?P ?n s'"
    by blast
  moreover have "min ?n MAX_MEMORIES = ?n"
    using count by (simp add: MAX_MEMORIES_def)
  ultimately show ?thesis
    using read n by (simp add: aion_memory_load_all_def s(1) overlay_def loaded_def)
qed

end

subsection \<open>Storing keeps the clean entries on disk\<close>

lemma synced_append:
  assumes "synced files st"
  shows "synced files (mem_append entry p clen st)"
  using assms
  by (auto simp: synced_def mem_append_def on_disk_def entry_path_def record_bytes_def entry_text_def
      less_Suc_eq)

context block_heap
begin

lemma synced_strdup:
  assumes ok: "mem_ok hok used st" and len: "len \<le> length s" "len \<le> MAX_CONTENT_LEN"
    and call: "mem_strdup malloc s len st = (p, st')" and sync: "synced files st"
  shows "synced files st'"
proof -
  have same: "mem_store st' = mem_store st" "mem_count st' = mem_count st" "fs_state st' = fs_state st"
    using call by (auto simp: mem_strdup_def Let_def split: prod.splits if_splits)
  have "mem_view st' = mem_view st"
    using ok len
  proof (cases rule: mem_strdup_spec)
    case (failed s1)
    then have s1: "s1 = st'"
      using call by simp
    show ?thesis
      unfolding s1 [symmetric] by (subst failed(3)) (simp add: mem_view_def)
  next
    case (copied q s1)
    then show ?thesis
      using call by simp
  qed
  then have "entry_text (ram st') (mem_store st i) = entry_text (ram st) (mem_store st i)"
    if "i < mem_count st" for i
    using that mem_view_nth [of i st] mem_view_nth [of i st'] by (simp add: same entry_view_def)
  then show ?thesis
    using sync by (auto simp: synced_def on_disk_def entry_path_def record_bytes_def same)
qed

lemma store_synced:
  assumes fs: "file_store fs files" and ok: "mem_ok hok used st" and sync: "synced files st"
    and count: "mem_count st < 4095"
  shows "\<exists>st'. aion_memory_store malloc release junk fs entry st = Inr st' \<and> synced files st'"
proof (cases "in_content entry")
  case None
  then show ?thesis
    using sync by (simp add: aion_memory_store_def)
next
  case (Some body)
  define clen where "clen = min (length body) MAX_CONTENT_LEN"
  have clen: "clen \<le> length body" "clen \<le> MAX_CONTENT_LEN"
    by (simp_all add: clen_def)
  obtain p st2 where call: "mem_strdup malloc body clen st = (p, st2)"
    by fastforce
  have sync2: "synced files st2"
    by (rule synced_strdup [OF ok clen call sync])
  let ?st3 = "mem_append entry p clen st2"
  have sync3: "synced files ?st3"
    by (rule synced_append [OF sync2])
  have low: "\<not> MAX_MEMORIES \<le> mem_count st"
    using count by (simp add: MAX_MEMORIES_def)
  have store: "aion_memory_store malloc release junk fs entry st =
      (if p = 0 then Inr st2
       else if 10 \<le> mem_dirty ?st3 then aion_memory_flush junk fs ?st3 else Inr ?st3)"
    using call low unfolding aion_memory_store_def Some option.case clen_def [symmetric] Let_def by simp
  show ?thesis
  proof (cases "p = 0")
    case True
    then show ?thesis
      using store sync2 by simp
  next
    case nz: False
    from ok clen have "mem_ok hok used ?st3 \<and> mem_count ?st3 \<le> 4095"
    proof (cases rule: mem_strdup_spec)
      case (failed s1)
      then show ?thesis
        using call nz by simp
    next
      case (copied q s1)
      then have s1: "s1 = st2" "q = p"
        using call by simp_all
      have same: "mem_count st2 = mem_count st"
        using call by (auto simp: mem_strdup_def Let_def split: prod.splits if_splits)
      have "mem_ok hok used ?st3"
        using copied(3,6,7) clen(2) count
        by (intro mem_append_ok) (simp_all add: s1 same MAX_MEMORIES_def)
      moreover have "mem_count ?st3 \<le> 4095"
        using count same by (simp add: mem_append_def)
      ultimately show ?thesis ..
    qed
    moreover have "mem_dirty ?st3 \<noteq> 0"
      by (simp add: mem_append_def)
    ultimately show ?thesis
      using store nz sync3 aion_memory_flush_written [OF fs _ sync3, of hok used] by auto
  qed
qed

end

subsection \<open>Properties\<close>

text \<open>C10: With a file layer that keeps what is written and reads it back, let the store be well formed, hold at most 4095
  entries, at least one of them counted as waiting to be written, and let every entry not marked as waiting already be on disk
  under its own path. Then a flush followed by a load at the next start, into an empty store on a new well-formed heap with
  room for one text of the largest size per entry, brings back every entry with its type, importance, tick and text in
  order, whatever the bytes of the texts and of the uninitialised path buffers.\<close>

theorem flush_load_roundtrip:
  assumes "file_store fs files" and "mem_ok heap_ok heap_used st" and "synced files st"
    and "mem_count st \<le> 4095" and "mem_dirty st \<noteq> 0" and "heap_ok h" and "mem_count st \<le> heap_room h"
  shows "\<exists>st' s'. aion_memory_flush junk fs st = Inr st' \<and>
    aion_memory_load_all kmalloc fs (mem_static h (fs_state st')) = Inr s' \<and> mem_view s' = mem_view st"
proof -
  obtain st' where "aion_memory_flush junk fs st = Inr st'" "\<forall>i < mem_count st. on_disk files st (fs_state st') i"
      "files (fs_state st') INDEX_PATH = Some (index_bytes junk st (mem_count st))"
    using aion_memory_flush_written [OF assms(1-5)] by blast
  then show ?thesis
    using kroomy.load_all_flushed [OF assms(1,2,4), of "fs_state st'" junk "mem_static h (fs_state st')"]
      mem_static_ok [OF assms(6), of "fs_state st'"] assms(7) by fastforce
qed

definition two_entries :: "(heap, string \<Rightarrow> string option) amem" where
  "two_entries = mem_static \<lparr>heap_ptr = 32, heap_end = 65536\<rparr> (\<lambda>_. None)
     \<lparr>mem_count := 2, mem_dirty := 2,
      mem_store := (\<lambda>i. \<lparr>ment_type = of_nat i, importance = 1, tick = of_nat i, timestamp_ms = 0,
        content = 16, content_len = 3, dirty = True\<rparr>)\<rparr>"

theorem flush_load_roundtrip_witness:
  "\<exists>st' s'. aion_memory_flush (\<lambda>_. ''junk'') map_fs two_entries = Inr st' \<and>
    aion_memory_load_all kmalloc map_fs (mem_static \<lparr>heap_ptr = 16, heap_end = 65536\<rparr> (fs_state st')) = Inr s' \<and>
    mem_view s' = mem_view two_entries"
  by (rule flush_load_roundtrip [OF map_fs_store])
    (auto simp: two_entries_def mem_static_def mem_ok_def entry_ok_def heap_ok_def HEAP_TOP_def
      heap_used_def heap_room_def synced_def MAX_MEMORIES_def MAX_CONTENT_LEN_def)

text \<open>C14: With a file layer that keeps every write and reads it back (the stub of the sources does not: it refuses every
  write, which the code does not look at), and in a well-formed store of fewer than 4095 entries in which every entry not
  waiting to be written is on disk under its own path, storing an experience returns and leaves the store so,
  through the automatic flush as well.\<close>

theorem store_keeps_disk_in_step:
  assumes "file_store fs files" and "mem_ok heap_ok heap_used st" and "synced files st"
    and "mem_count st < 4095"
  shows "\<exists>st'. aion_memory_store kmalloc kfree junk fs entry st = Inr st' \<and> synced files st'"
  by (rule kblocks.store_synced [OF assms])

theorem store_keeps_disk_in_step_witness:
  "\<exists>st'. aion_memory_store kmalloc kfree (\<lambda>_. []) map_fs
      \<lparr>in_type = MEM_SELF, in_importance = 7, in_tick = 1, in_content = Some ''me''\<rparr> two_entries = Inr st' \<and>
    synced (\<lambda>f. f) st'"
  by (rule store_keeps_disk_in_step [OF map_fs_store])
    (auto simp: two_entries_def mem_static_def mem_ok_def entry_ok_def heap_ok_def HEAP_TOP_def
      heap_used_def synced_def MAX_MEMORIES_def MAX_CONTENT_LEN_def)

text \<open>With the file layer of the source there is never a store to come back to and a load brings
  nothing back, so no experience outlives a restart.\<close>

theorem stub_files_lose_everything:
  "\<not> aion_memory_has_store fs_stub st \<and>
   \<not> store_exists (aion_memory_init fs_stub st) \<and>
   (\<exists>st'. aion_memory_load_all kmalloc fs_stub (aion_memory_init fs_stub st) = Inr st' \<and> mem_view st' = [])"
  by (simp add: aion_memory_has_store_def aion_memory_init_def aion_memory_load_all_def fs_stub_def
      mem_view_def Let_def)

end
