(* ===== verification/Senses.thy ===== *)
theory Senses
  imports Drivers FileSys
begin

section \<open>The senses\<close>

text \<open>
  \<^verbatim>\<open>consciousness/senses/senses.c\<close>: one snapshot of all devices. The time-stamp counter is an
  argument. The loudness is an integer square root on 64-bit words, shown to be the exact one.
\<close>

subsection \<open>The integer square root\<close>

function shrink_bit :: "u64 \<Rightarrow> u64 \<Rightarrow> u64" where
  "shrink_bit x bt = (if x < bt then shrink_bit x (drop_bit 2 bt) else bt)"
  by pat_completeness auto
termination
proof (relation "measure (\<lambda>(x, bt). unat bt)")
  fix x bt :: u64
  assume "x < bt"
  then have "0 < unat bt"
    by (simp add: word_less_nat_alt)
  then show "((x, drop_bit 2 bt), x, bt) \<in> measure (\<lambda>(x, bt). unat bt)"
    by (simp add: unsigned_drop_bit_eq drop_bit_eq_div unat_div)
qed simp

function isqrt_loop :: "u64 \<Rightarrow> u64 \<Rightarrow> u64 \<Rightarrow> u64" where
  "isqrt_loop bt x r =
     (if bt = 0 then r
      else if r + bt \<le> x then isqrt_loop (drop_bit 2 bt) (x - (r + bt)) (drop_bit 1 r + bt)
      else isqrt_loop (drop_bit 2 bt) x (drop_bit 1 r))"
  by pat_completeness auto
termination
proof (relation "measure (\<lambda>(bt, x, r). unat bt)")
  fix bt x r :: u64
  assume "bt \<noteq> 0"
  then have "0 < unat bt"
    by (simp add: unat_gt_0)
  then show "((drop_bit 2 bt, x - (r + bt), drop_bit 1 r + bt), bt, x, r) \<in> measure (\<lambda>(bt, x, r). unat bt)"
    and "((drop_bit 2 bt, x, drop_bit 1 r), bt, x, r) \<in> measure (\<lambda>(bt, x, r). unat bt)"
    by (simp_all add: unsigned_drop_bit_eq drop_bit_eq_div unat_div)
qed simp

declare shrink_bit.simps [simp del] isqrt_loop.simps [simp del]

definition isqrt :: "u64 \<Rightarrow> u64" where
  "isqrt x = isqrt_loop (shrink_bit x (2 ^ 30)) x 0"

subsection \<open>Snapshots\<close>

record CameraSnap =
  snap_width :: u32
  snap_height :: u32
  mean_luma :: u8
  motion_delta :: u8

record MicSnap =
  snap_rate :: u32
  snap_channels :: u32
  amplitude_rms :: u32
  freq_peak_hz :: u32
  is_silence :: bool

record NetSnap =
  connected :: bool
  rx_total :: u64
  tx_total :: u64

record UsbSnap =
  usb_total_gb :: u32
  usb_free_gb :: u32
  memory_file_count :: u32

record SsdSnap =
  ssd_total_gb :: u32
  ssd_free_gb :: u32
  ssd_root_entries :: u32

record SenseSnapshot =
  uptime_ms :: u64
  camera_available :: bool
  camera_frame :: CameraSnap
  mic_available :: bool
  mic_snap :: MicSnap
  network_available :: bool
  network :: NetSnap
  usb_fs :: UsbSnap
  host_ssd_available :: bool
  host_ssd :: SsdSnap

record senses =
  boot_tick :: u64
  ticks_per_ms :: u64
  prev_luma :: u8

definition senses_static :: senses where
  "senses_static = \<lparr>boot_tick = 0, ticks_per_ms = 1000000, prev_luma = 128\<rparr>"

definition get_uptime_ms :: "u64 \<Rightarrow> senses \<Rightarrow> u64 checked" where
  "get_uptime_ms tsc s = (if ticks_per_ms s = 0 then Inl DivideByZero else Inr (tsc div ticks_per_ms s))"

definition calibrate_tsc :: "senses \<Rightarrow> senses" where
  "calibrate_tsc s = s\<lparr>ticks_per_ms := 2000000\<rparr>"

definition senses_init :: "u64 \<Rightarrow> senses \<Rightarrow> senses checked" where
  "senses_init tsc s =
     (let s = calibrate_tsc s in rbind (get_uptime_ms tsc s) (\<lambda>t. Inr (s\<lparr>boot_tick := t\<rparr>)))"

definition luma_sum :: "byte_mem \<Rightarrow> u64 \<Rightarrow> nat \<Rightarrow> u64" where
  "luma_sum m p n = fold (\<lambda>i acc. acc + ucast (m (p + of_nat i))) [0..<n] 0"

definition capture_camera :: "byte_mem \<Rightarrow> CamFrame \<Rightarrow> senses \<Rightarrow> (CameraSnap \<times> senses) checked" where
  "capture_camera m frame s =
     (let pixels = cam_width frame * cam_height frame;
          n = (if pixels < 10000 then pixels else 10000)
      in if n = 0 then Inl DivideByZero
         else
           let mean = (ucast (luma_sum m (cam_data frame) (unat n) div ucast n) :: u8);
               delta = uint mean - uint (prev_luma s)
           in Inr (\<lparr>snap_width = cam_width frame, snap_height = cam_height frame, mean_luma = mean,
                    motion_delta = of_int (if delta < 0 then - delta else delta)\<rparr>,
                   s\<lparr>prev_luma := mean\<rparr>))"

text \<open>A sample is two bytes, little-endian and signed; its square fits an \<open>int\<close>.\<close>

definition mic_sample :: "byte_mem \<Rightarrow> u64 \<Rightarrow> nat \<Rightarrow> int" where
  "mic_sample m p i =
     sint (ucast (m (p + of_nat (2 * i))) OR push_bit 8 (ucast (m (p + of_nat (2 * i) + 1))) :: 16 word)"

definition square_sum :: "byte_mem \<Rightarrow> u64 \<Rightarrow> nat \<Rightarrow> u64" where
  "square_sum m p n = fold (\<lambda>i acc. acc + of_int (mic_sample m p i * mic_sample m p i)) [0..<n] 0"

definition capture_mic :: "byte_mem \<Rightarrow> MicFrame \<Rightarrow> MicSnap" where
  "capture_mic m frame =
     (let n = (if 4096 < mic_samples frame then 4096 else mic_samples frame);
          rms = (if 0 < n then ucast (isqrt (square_sum m (mic_data frame) (unat n) div ucast n)) else 0)
      in \<lparr>snap_rate = mic_rate frame, snap_channels = mic_channels frame, amplitude_rms = rms,
          freq_peak_hz = 0, is_silence = (rms < 100)\<rparr>)"

definition GB :: u64 where "GB = 1024 * 1024 * 1024"

definition senses_capture ::
  "u64 \<Rightarrow> byte_mem \<Rightarrow> cam \<Rightarrow> mic \<Rightarrow> NetworkStatus \<Rightarrow> fs_state \<Rightarrow> senses \<Rightarrow> (SenseSnapshot \<times> senses) checked" where
  "senses_capture tsc m c mi net f s =
     rbind (get_uptime_ms tsc s) (\<lambda>t.
     rbind (case cam_get_latest_frame c of
              None \<Rightarrow> Inr (None, s)
            | Some frame \<Rightarrow> rbind (capture_camera m frame s) (\<lambda>(snap, s). Inr (Some snap, s))) (\<lambda>(cs, s).
     let ms = map_option (capture_mic m) (mic_get_latest_frame mi);
         net = network_get_status net;
         usb = fs_get_info_usb f;
         ssd = fs_get_info_ssd f
     in Inr (\<lparr>uptime_ms = t - boot_tick s,
              camera_available = (cs \<noteq> None),
              camera_frame = (case cs of Some x \<Rightarrow> x
                 | None \<Rightarrow> \<lparr>snap_width = 0, snap_height = 0, mean_luma = 0, motion_delta = 0\<rparr>),
              mic_available = (ms \<noteq> None),
              mic_snap = (case ms of Some x \<Rightarrow> x
                 | None \<Rightarrow> \<lparr>snap_rate = 0, snap_channels = 0, amplitude_rms = 0, freq_peak_hz = 0, is_silence = False\<rparr>),
              network_available = initialised net,
              network = \<lparr>connected = link_up net, rx_total = rx_bytes net, tx_total = tx_bytes net\<rparr>,
              usb_fs = \<lparr>usb_total_gb = ucast (total_bytes usb div GB), usb_free_gb = ucast (free_bytes usb div GB),
                memory_file_count = aion_memory_file_count usb\<rparr>,
              host_ssd_available = available ssd,
              host_ssd = (if available ssd
                 then \<lparr>ssd_total_gb = ucast (total_bytes ssd div GB), ssd_free_gb = ucast (free_bytes ssd div GB),
                       ssd_root_entries = root_entry_count ssd\<rparr>
                 else \<lparr>ssd_total_gb = 0, ssd_free_gb = 0, ssd_root_entries = 0\<rparr>)\<rparr>, s)))"

subsection \<open>The square root is exact\<close>

definition is_sqrt :: "nat \<Rightarrow> nat \<Rightarrow> bool" where
  "is_sqrt n t \<longleftrightarrow> t ^ 2 \<le> n \<and> n < (t + 1) ^ 2"

text \<open>
  With \<open>k\<close> binary places to go, the root found so far is \<open>s\<close>, a multiple of 2\<open>^\<close>(k + 1); the loop
  keeps it shifted in \<open>r\<close> and the rest of the number in \<open>x\<close>.
\<close>

definition sqrt_state :: "nat \<Rightarrow> nat \<Rightarrow> nat \<Rightarrow> u64 \<Rightarrow> u64 \<Rightarrow> bool" where
  "sqrt_state n k s x r \<longleftrightarrow> s ^ 2 \<le> n \<and> n < (s + 2 ^ (k + 1)) ^ 2 \<and> unat x = n - s ^ 2 \<and> unat r = s * 2 ^ (k + 1)"

lemma sqrt_state_small: "sqrt_state n k s x r \<Longrightarrow> n < 2 ^ 32 \<Longrightarrow> s < 2 ^ 16"
proof -
  assume "sqrt_state n k s x r" and "n < 2 ^ 32"
  then have "s ^ 2 < (2 ^ 16) ^ 2"
    by (simp add: sqrt_state_def)
  then show "s < 2 ^ 16"
    by (rule power2_less_imp_less) simp
qed

lemma power4: "(4 :: nat) ^ k = 2 ^ k * 2 ^ k"
  by (simp flip: power_mult_distrib)

lemma sqrt_step:
  assumes st: "sqrt_state n k s x r" and n: "n < 2 ^ 32" and k: "k \<le> 15" and bt: "unat bt = 4 ^ k"
  defines "d \<equiv> 2 ^ k :: nat"
  shows "r + bt \<le> x \<longleftrightarrow> (s + d) ^ 2 \<le> n"
    and "r + bt \<le> x \<Longrightarrow> unat (x - (r + bt)) = n - (s + d) ^ 2"
    and "r + bt \<le> x \<Longrightarrow> unat (drop_bit 1 r + bt) = (s + d) * d"
    and "unat (drop_bit 1 r) = s * d"
proof -
  have s: "s < 2 ^ 16" and d: "d \<le> 2 ^ 15"
    using sqrt_state_small [OF st n] power_increasing [OF k, of "2 :: nat"] by (simp_all add: d_def)
  have bt': "unat bt = d * d"
    by (simp add: bt d_def power4)
  have r: "unat r = 2 * (s * d)" and x: "unat x = n - s ^ 2" and le: "s ^ 2 \<le> n"
    using st by (simp_all add: sqrt_state_def d_def)
  have sd: "s * d \<le> 2 ^ 16 * 2 ^ 15" and dd: "d * d \<le> 2 ^ 15 * 2 ^ 15"
    using s d by (intro mult_le_mono; simp)+
  have rb: "unat (r + bt) = 2 * (s * d) + d * d"
    using sd dd by (subst unat_add_small) (simp_all add: r bt')
  have sq: "(s + d) ^ 2 = s ^ 2 + (2 * (s * d) + d * d)"
    by (simp add: power2_eq_square algebra_simps)
  show cmp: "r + bt \<le> x \<longleftrightarrow> (s + d) ^ 2 \<le> n"
    unfolding word_le_nat_alt rb x sq using le by linarith
  show half: "unat (drop_bit 1 r) = s * d"
    by (simp add: unsigned_drop_bit_eq drop_bit_eq_div unat_div r)
  show "unat (x - (r + bt)) = n - (s + d) ^ 2" if "r + bt \<le> x"
    using unat_sub [OF that] by (simp add: rb x sq)
  have "unat (drop_bit 1 r) + unat bt < 2 ^ 64"
    unfolding half bt' using sd dd by simp
  then have "unat (drop_bit 1 r + bt) = unat (drop_bit 1 r) + unat bt"
    by (rule unat_add_small)
  then show "unat (drop_bit 1 r + bt) = (s + d) * d"
    unfolding half bt' by (simp add: algebra_simps)
qed

lemma drop_bit_2_power: "unat (bt :: u64) = 4 ^ Suc k \<Longrightarrow> unat (drop_bit 2 bt) = 4 ^ k"
  by (simp add: unsigned_drop_bit_eq drop_bit_eq_div unat_div)

lemma isqrt_loop_exact:
  assumes "sqrt_state n k s x r" and "n < 2 ^ 32" and "k \<le> 15" and "unat bt = 4 ^ k"
  shows "is_sqrt n (unat (isqrt_loop bt x r))"
  using assms
proof (induction k arbitrary: s x r bt)
  case 0
  have b: "bt \<noteq> 0" "drop_bit 2 bt = 0"
    using 0 by (auto simp: unsigned_drop_bit_eq drop_bit_eq_div unat_div simp flip: unat_eq_iff)
  have r0: "isqrt_loop 0 x' r' = r'" for x' r'
    by (subst isqrt_loop.simps) simp
  note step = sqrt_step [OF 0, simplified]
  show ?case
    using 0(1) step b r0
    by (subst isqrt_loop.simps) (auto simp: is_sqrt_def sqrt_state_def numeral_2_eq_2 [symmetric])
next
  case (Suc k)
  have b: "bt \<noteq> 0"
    using Suc.prems(4) by auto
  have bt2: "unat (drop_bit 2 bt) = 4 ^ k"
    by (rule drop_bit_2_power [OF Suc.prems(4)])
  let ?d = "2 ^ Suc k :: nat"
  note step = sqrt_step [OF Suc.prems]
  have st: "s ^ 2 \<le> n" "n < (s + 2 * ?d) ^ 2"
    using Suc.prems(1) by (simp_all add: sqrt_state_def)
  show ?case
  proof (cases "r + bt \<le> x")
    case True
    have "sqrt_state n k (s + ?d) (x - (r + bt)) (drop_bit 1 r + bt)"
      using step True st by (simp add: sqrt_state_def add.assoc mult_2 [symmetric])
    then have "is_sqrt n (unat (isqrt_loop (drop_bit 2 bt) (x - (r + bt)) (drop_bit 1 r + bt)))"
      using Suc.prems bt2 by (intro Suc.IH) simp_all
    then show ?thesis
      using True b by (subst isqrt_loop.simps) simp
  next
    case False
    have "sqrt_state n k s x (drop_bit 1 r)"
      using step False st Suc.prems(1) by (simp add: sqrt_state_def)
    then have "is_sqrt n (unat (isqrt_loop (drop_bit 2 bt) x (drop_bit 1 r)))"
      using Suc.prems bt2 by (intro Suc.IH) simp_all
    then show ?thesis
      using False b by (subst isqrt_loop.simps) simp
  qed
qed

lemma shrink_bit_power:
  assumes "unat bt = 4 ^ k" and "unat x < 4 ^ (k + 1)" and "x \<noteq> 0"
  shows "\<exists>j \<le> k. unat (shrink_bit x bt) = 4 ^ j \<and> unat x < 4 ^ (j + 1)"
  using assms
proof (induction k arbitrary: bt)
  case 0
  then have "\<not> x < bt"
    by (simp add: word_less_nat_alt unat_gt_0 [symmetric] Suc_le_eq)
  with 0 show ?case
    by (subst shrink_bit.simps) simp
next
  case (Suc k)
  show ?case
  proof (cases "x < bt")
    case True
    then have "unat x < 4 ^ (k + 1)"
      using Suc.prems(1) by (simp add: word_less_nat_alt)
    then obtain j where "j \<le> k" "unat (shrink_bit x (drop_bit 2 bt)) = 4 ^ j" "unat x < 4 ^ (j + 1)"
      using Suc.IH [OF drop_bit_2_power [OF Suc.prems(1)]] Suc.prems(3) by blast
    then show ?thesis
      using True by (subst shrink_bit.simps) (auto intro: le_SucI)
  next
    case False
    with Suc.prems show ?thesis
      by (subst shrink_bit.simps) auto
  qed
qed

lemma isqrt_exact:
  assumes "unat x < 2 ^ 32"
  shows "is_sqrt (unat x) (unat (isqrt x))"
proof (cases "x = 0")
  case True
  have "isqrt_loop bt 0 0 = 0" for bt
    by (induction bt "0 :: u64" "0 :: u64" rule: isqrt_loop.induct) (subst isqrt_loop.simps, auto)
  with True show ?thesis
    by (simp add: isqrt_def is_sqrt_def)
next
  case False
  have "unat ((2 :: u64) ^ 30) = 4 ^ 15" "unat x < 4 ^ (15 + 1)"
    using assms by simp_all
  then obtain j where j: "j \<le> 15" "unat (shrink_bit x (2 ^ 30)) = 4 ^ j" "unat x < 4 ^ (j + 1)"
    using shrink_bit_power False by blast
  have "sqrt_state (unat x) j 0 x 0"
    using j(3) by (simp add: sqrt_state_def power4 power2_eq_square)
  then show ?thesis
    unfolding isqrt_def using assms j by (intro isqrt_loop_exact)
qed

subsection \<open>The sums do not wrap\<close>

lemma fold_sum_word:
  assumes "\<And>i. i < n \<Longrightarrow> unat (f i :: u64) \<le> b" and "n * b < 2 ^ 64"
  shows "unat (fold (\<lambda>i acc. acc + f i) [0..<n] 0) = (\<Sum>i<n. unat (f i)) \<and> (\<Sum>i<n. unat (f i)) \<le> n * b"
  using assms
proof (induction n)
  case (Suc n)
  then have IH: "unat (fold (\<lambda>i acc. acc + f i) [0..<n] 0) = (\<Sum>i<n. unat (f i))" "(\<Sum>i<n. unat (f i)) \<le> n * b"
    by simp_all
  have "unat (f n) \<le> b"
    using Suc.prems(1) by simp
  then show ?case
    using IH Suc.prems(2) by (simp add: unat_add_small)
qed simp

lemma luma_sum_exact:
  assumes "n \<le> 10000"
  shows "unat (luma_sum m p n) = (\<Sum>i<n. unat (m (p + of_nat i)))" and "unat (luma_sum m p n) \<le> n * 255"
proof -
  have b: "unat (ucast (m a) :: u64) = unat (m a)" for a
    by (simp add: unsigned_ucast_eq take_bit_nat_eq_self less_trans [OF unat_lt_256])
  have "unat (ucast (m (p + of_nat i)) :: u64) \<le> 255" for i
    unfolding b using unat_lt_256 [of "m (p + of_nat i)"] by simp
  then have "unat (luma_sum m p n) = (\<Sum>i<n. unat (ucast (m (p + of_nat i)) :: u64)) \<and>
      (\<Sum>i<n. unat (ucast (m (p + of_nat i)) :: u64)) \<le> n * 255"
    unfolding luma_sum_def using assms by (intro fold_sum_word) simp_all
  then show "unat (luma_sum m p n) = (\<Sum>i<n. unat (m (p + of_nat i)))" and "unat (luma_sum m p n) \<le> n * 255"
    by (simp_all add: b)
qed

lemma mic_sample_bound: "\<bar>mic_sample m p i\<bar> \<le> 2 ^ 15"
proof -
  let ?w = "ucast (m (p + of_nat (2 * i))) OR push_bit 8 (ucast (m (p + of_nat (2 * i) + 1))) :: 16 word"
  have "- (2 ^ 15) \<le> sint ?w" "sint ?w < 2 ^ 15"
    using sint_greater_eq [of ?w] sint_less [of ?w] by simp_all
  then show ?thesis
    by (simp add: mic_sample_def)
qed

lemma square_bound: "mic_sample m p i * mic_sample m p i \<le> 2 ^ 30" "0 \<le> mic_sample m p i * mic_sample m p i"
proof -
  have "\<bar>mic_sample m p i\<bar> * \<bar>mic_sample m p i\<bar> \<le> 2 ^ 15 * 2 ^ 15"
    using mic_sample_bound by (intro mult_mono) simp_all
  then show "mic_sample m p i * mic_sample m p i \<le> 2 ^ 30"
    by (simp flip: abs_mult)
qed simp

lemma square_sum_exact:
  assumes "n \<le> 4096"
  shows "int (unat (square_sum m p n)) = (\<Sum>i<n. mic_sample m p i ^ 2)" and "unat (square_sum m p n) \<le> n * 2 ^ 30"
proof -
  let ?f = "\<lambda>i. of_int (mic_sample m p i * mic_sample m p i) :: u64"
  have f: "unat (?f i) = nat (mic_sample m p i * mic_sample m p i)" for i
  proof -
    let ?v = "mic_sample m p i * mic_sample m p i"
    have "?f i = of_nat (nat ?v)"
      using square_bound(2) [of m p i] by simp
    moreover have "nat ?v < 2 ^ 64"
      using square_bound(1) [of m p i] by simp
    ultimately show ?thesis
      by (simp only: unat_of_nat_u64)
  qed
  have "unat (?f i) \<le> 2 ^ 30" for i
    unfolding f using square_bound(1) [of m p i] by simp
  then have s: "unat (square_sum m p n) = (\<Sum>i<n. unat (?f i)) \<and> (\<Sum>i<n. unat (?f i)) \<le> n * 2 ^ 30"
    unfolding square_sum_def using assms by (intro fold_sum_word) simp_all
  then show "unat (square_sum m p n) \<le> n * 2 ^ 30"
    by simp
  have "int (unat (square_sum m p n)) = (\<Sum>i<n. int (nat (mic_sample m p i * mic_sample m p i)))"
    using s by (simp only: f of_nat_sum)
  also have "\<dots> = (\<Sum>i<n. mic_sample m p i ^ 2)"
    using square_bound(2) by (simp add: power2_eq_square)
  finally show "int (unat (square_sum m p n)) = (\<Sum>i<n. mic_sample m p i ^ 2)" .
qed

subsection \<open>What a snapshot says\<close>

lemma unat_ucast_u64 [simp]: "unat (ucast (w :: u32) :: u64) = unat w"
  by (simp add: unsigned_ucast_eq take_bit_nat_eq_self less_trans [OF unat_lt_2p32])

text \<open>The samples a snapshot takes of the microphone, and their sum of squares.\<close>

definition mic_used :: "MicFrame \<Rightarrow> nat" where
  "mic_used frame = min (unat (mic_samples frame)) 4096"

definition mic_energy :: "byte_mem \<Rightarrow> MicFrame \<Rightarrow> nat" where
  "mic_energy m frame = nat (\<Sum>i < mic_used frame. mic_sample m (mic_data frame) i ^ 2)"

lemma mic_mean_square:
  assumes "0 < mic_used frame" and "n = (if 4096 < mic_samples frame then 4096 else mic_samples frame)"
  shows "unat (square_sum m (mic_data frame) (unat n) div ucast n) = mic_energy m frame div mic_used frame"
    and "mic_energy m frame div mic_used frame \<le> 2 ^ 30"
proof -
  have n: "unat n = mic_used frame"
    using assms(2) by (auto simp: mic_used_def word_less_nat_alt)
  have le: "unat n \<le> 4096"
    unfolding n by (simp add: mic_used_def)
  have e: "unat (square_sum m (mic_data frame) (unat n)) = mic_energy m frame"
    using square_sum_exact(1) [OF le, of m "mic_data frame"] unfolding n mic_energy_def by linarith
  show "unat (square_sum m (mic_data frame) (unat n) div ucast n) = mic_energy m frame div mic_used frame"
    unfolding unat_div_distrib e by (simp add: n)
  have "mic_energy m frame \<le> mic_used frame * 2 ^ 30"
    using square_sum_exact(2) [OF le, of m "mic_data frame"] e n by simp
  then have "mic_energy m frame div mic_used frame \<le> mic_used frame * 2 ^ 30 div mic_used frame"
    by (rule div_le_mono)
  then show "mic_energy m frame div mic_used frame \<le> 2 ^ 30"
    using assms(1) by simp
qed

lemma mic_level:
  "if mic_samples frame = 0 then amplitude_rms (capture_mic m frame) = 0
   else is_sqrt (mic_energy m frame div mic_used frame) (unat (amplitude_rms (capture_mic m frame)))
     \<and> unat (amplitude_rms (capture_mic m frame)) \<le> 32768
     \<and> (is_silence (capture_mic m frame) \<longleftrightarrow> amplitude_rms (capture_mic m frame) < 100)"
proof (cases "mic_samples frame = 0")
  case True
  then show ?thesis
    by (simp add: capture_mic_def Let_def)
next
  case False
  define n where "n = (if 4096 < mic_samples frame then 4096 else mic_samples frame)"
  define q where "q = square_sum m (mic_data frame) (unat n) div ucast n"
  have used: "0 < mic_used frame"
    using False by (simp add: mic_used_def unat_gt_0)
  note q = mic_mean_square [OF used n_def, of m, folded q_def]
  have "unat q < 2 ^ 32"
    using q by simp
  then have root: "is_sqrt (unat q) (unat (isqrt q))"
    by (rule isqrt_exact)
  have le: "unat (isqrt q) \<le> 32768"
  proof (rule ccontr)
    assume "\<not> unat (isqrt q) \<le> 32768"
    then have "32769 ^ 2 \<le> unat (isqrt q) ^ 2"
      by (intro power_mono) simp_all
    then have "32769 ^ 2 \<le> unat q"
      using root unfolding is_sqrt_def by (meson le_trans)
    with q show False by simp
  qed
  then have "unat (ucast (isqrt q) :: u32) = unat (isqrt q)"
    by (simp add: unsigned_ucast_eq take_bit_nat_eq_self)
  moreover have "amplitude_rms (capture_mic m frame) = ucast (isqrt q)"
    using False by (simp add: capture_mic_def Let_def q_def n_def word_neq_0_conv)
  ultimately show ?thesis
    using False root le unfolding q(1) by (simp add: capture_mic_def Let_def)
qed

text \<open>C38: The loudness of a microphone frame is exact: the amplitude is the integer square root of
  the mean square of the samples used, at most 4096 of them, with no sum that wraps, and at most
  32768; the frame counts as silent below 100, and an empty frame has amplitude 0.\<close>

theorem mic_level_exact:
  "if mic_samples frame = 0 then amplitude_rms (capture_mic m frame) = 0
   else is_sqrt (mic_energy m frame div mic_used frame) (unat (amplitude_rms (capture_mic m frame)))
     \<and> unat (amplitude_rms (capture_mic m frame)) \<le> 32768
     \<and> (is_silence (capture_mic m frame) \<longleftrightarrow> amplitude_rms (capture_mic m frame) < 100)"
  by (rule mic_level)

lemma camera_level:
  "let pixels = cam_width frame * cam_height frame;
       n = min (unat pixels) 10000;
       mean = (\<Sum>i < n. unat (m (cam_data frame + of_nat i))) div n
   in if pixels = 0 then capture_camera m frame s = Inl DivideByZero
      else \<exists>snap. capture_camera m frame s = Inr (snap, s\<lparr>prev_luma := mean_luma snap\<rparr>)
        \<and> unat (mean_luma snap) = mean
        \<and> uint (motion_delta snap) = \<bar>int mean - uint (prev_luma s)\<bar>"
proof -
  define pixels where "pixels = cam_width frame * cam_height frame"
  define n where "n = (if pixels < 10000 then pixels else 10000)"
  have u: "unat n = min (unat pixels) 10000"
    by (auto simp: n_def word_less_nat_alt)
  show ?thesis
  proof (cases "pixels = 0")
    case True
    then show ?thesis
      by (simp add: capture_camera_def pixels_def Let_def)
  next
    case False
    then have n0: "n \<noteq> 0" "0 < unat n"
      by (auto simp: n_def unat_gt_0)
    define mean where "mean = (\<Sum>i < unat n. unat (m (cam_data frame + of_nat i))) div unat n"
    define w :: u8 where "w = ucast (luma_sum m (cam_data frame) (unat n) div ucast n)"
    have le: "unat n \<le> 10000"
      by (simp add: u)
    have q: "unat (luma_sum m (cam_data frame) (unat n) div ucast n) = mean"
      using luma_sum_exact(1) [OF le] by (simp add: unat_div_distrib mean_def)
    have "unat (luma_sum m (cam_data frame) (unat n)) \<le> unat n * 255"
      by (rule luma_sum_exact(2) [OF le])
    then have m255: "mean \<le> 255"
      using n0(2) unfolding mean_def luma_sum_exact(1) [OF le, symmetric]
      by (metis div_le_mono nonzero_mult_div_cancel_left not_less0)
    then have w: "unat w = mean"
      unfolding w_def using q by (simp add: unsigned_ucast_eq take_bit_nat_eq_self)
    define d where "d = uint w - uint (prev_luma s)"
    have "0 \<le> uint x" "uint x < 256" for x :: u8
      using unsigned_less [of x, where ?'a = int] by simp_all
    from this [of w] this [of "prev_luma s"] have "\<bar>d\<bar> < 256"
      unfolding d_def by linarith
    then have delta: "uint (of_int (if d < 0 then - d else d) :: u8) = \<bar>int mean - uint (prev_luma s)\<bar>"
      using w by (simp add: uint_word_of_int_eq take_bit_int_eq_self d_def flip: w)
    let ?snap = "\<lparr>snap_width = cam_width frame, snap_height = cam_height frame,
        mean_luma = w, motion_delta = of_int (if d < 0 then - d else d)\<rparr>"
    have cap: "capture_camera m frame s = Inr (?snap, s\<lparr>prev_luma := w\<rparr>)"
      using n0(1) unfolding capture_camera_def Let_def pixels_def [symmetric] n_def [symmetric] w_def d_def
      by simp
    show ?thesis
      unfolding Let_def pixels_def [symmetric] u [symmetric] mean_def [symmetric] if_not_P [OF False]
      by (intro exI [of _ ?snap] conjI) (use cap w delta in simp_all)
  qed
qed

text \<open>Capturing the camera divides by zero exactly if the frame's pixel count is 0 on 32 bits;
  otherwise the brightness is the mean of the first bytes of the frame, one per pixel and at most
  10000, and the motion is its distance to the brightness before, which it replaces.\<close>

theorem camera_level_exact:
  "let pixels = cam_width frame * cam_height frame;
       n = min (unat pixels) 10000;
       mean = (\<Sum>i < n. unat (m (cam_data frame + of_nat i))) div n
   in if pixels = 0 then capture_camera m frame s = Inl DivideByZero
      else \<exists>snap. capture_camera m frame s = Inr (snap, s\<lparr>prev_luma := mean_luma snap\<rparr>)
        \<and> unat (mean_luma snap) = mean
        \<and> uint (motion_delta snap) = \<bar>int mean - uint (prev_luma s)\<bar>"
  by (rule camera_level)

lemma memset_in: "unat p + k < 2 ^ 64 \<Longrightarrow> k < n \<Longrightarrow> memset p v n m (p + of_nat k) = v"
  using unat_add_small [of p "of_nat k"] by (simp add: memset_def)

lemma memset_out: "unat a \<notin> {unat p..<unat p + n} \<Longrightarrow> memset p v n m a = m a"
  by (auto simp: memset_def)

text \<open>What the set-up of the two devices leaves, on a heap that gives them room.\<close>

lemma cam_init_buffer:
  assumes "heap_ok h" and "cam_init kmalloc (cam_static, h, m) = (c, h', m')" and "cam_ready c"
  obtains p where "cam_frame c = \<lparr>cam_width = 320, cam_height = 240, cam_data = p, cam_data_len = 153600\<rparr>"
    "m' = memset p 128 153600 m" "heap_ok h'" "block p 153600 \<subseteq> heap_used h'" "unat p + 153600 \<le> 2 ^ 64"
proof -
  obtain p h1 where p: "kmalloc 153600 h = (p, h1)" "p \<noteq> 0"
    and c: "cam_frame c = \<lparr>cam_width = 320, cam_height = 240, cam_data = p, cam_data_len = 153600\<rparr>"
      "h' = h1" "m' = memset p 128 153600 m"
    using assms(2,3)
    by (cases "kmalloc 153600 h") (auto simp: cam_init_def CAM_FRAME_SIZE_def CAM_WIDTH_def CAM_HEIGHT_def
        cam_static_def split: if_splits)
  have lim: "unat (153600 :: u64) \<le> KMALLOC_LIMIT"
    by (simp add: KMALLOC_LIMIT_def)
  show thesis
    using c kheap.malloc_ok [OF assms(1) lim p(1)] kheap.malloc_fresh [OF assms(1) lim p]
      kheap.malloc_fits [OF assms(1) lim p] by (intro that [of p]) simp_all
qed

lemma mic_init_buffer:
  assumes "heap_ok h" and "mic_init kmalloc (mic_static, h, m) = (mi, h', m')" and "mic_ready mi"
  obtains q where "mic_frame mi = \<lparr>mic_rate = 16000, mic_channels = 1, mic_samples = 4096, mic_data = q\<rparr>"
    "m' = memset q 0 8192 m" "block q 8192 \<inter> heap_used h = {}" "unat q + 8192 \<le> 2 ^ 64"
proof -
  obtain q h1 where q: "kmalloc 8192 h = (q, h1)" "q \<noteq> 0"
    and mi: "mic_frame mi = \<lparr>mic_rate = 16000, mic_channels = 1, mic_samples = 4096, mic_data = q\<rparr>"
      "m' = memset q 0 8192 m"
    using assms(2,3)
    by (cases "kmalloc 8192 h") (auto simp: mic_init_def MIC_BUF_BYTES_def MIC_BUF_SAMPLES_def
        MIC_SAMPLE_RATE_def MIC_CHANNELS_def mic_static_def split: if_splits)
  have lim: "unat (8192 :: u64) \<le> KMALLOC_LIMIT"
    by (simp add: KMALLOC_LIMIT_def)
  show thesis
    using mi kheap.malloc_fresh [OF assms(1) lim q] kheap.malloc_fits [OF assms(1) lim q]
    by (intro that [of q]) simp_all
qed

lemma memset_other_block:
  assumes "block p n \<subseteq> used" and "block q k \<inter> used = {}" and "unat p + unat n \<le> 2 ^ 64" and "i < unat n"
  shows "memset q v (unat k) m (p + of_nat i) = m (p + of_nat i)"
proof -
  have "unat (p + of_nat i) = unat p + i"
    using assms(3,4) by (subst unat_add_small) simp_all
  then have "unat (p + of_nat i) \<in> block p n"
    using assms(4) by (simp add: block_def)
  then have "unat (p + of_nat i) \<notin> block q k"
    using assms(1,2) by blast
  then show ?thesis
    by (intro memset_out) (simp add: block_def)
qed

lemma silent_mic:
  assumes "mic_samples fr = 4096" and "\<And>i. i < 8192 \<Longrightarrow> m (mic_data fr + of_nat i) = 0"
  shows "amplitude_rms (capture_mic m fr) = 0" and "is_silence (capture_mic m fr)"
proof -
  have "mic_sample m (mic_data fr) i = 0" if "i < 4096" for i
    using assms(2) [of "2 * i"] assms(2) [of "2 * i + 1"] that by (simp add: mic_sample_def algebra_simps)
  then have "mic_energy m fr = 0"
    by (simp add: mic_energy_def mic_used_def assms(1))
  then have "unat (amplitude_rms (capture_mic m fr)) = 0"
    and sil: "is_silence (capture_mic m fr) \<longleftrightarrow> amplitude_rms (capture_mic m fr) < 100"
    using mic_level [of fr m] by (auto simp: assms(1) is_sqrt_def)
  then show "amplitude_rms (capture_mic m fr) = 0" "is_silence (capture_mic m fr)"
    by (simp_all add: unat_eq_0)
qed

text \<open>The first snapshot after the camera and the microphone got their buffers from the kernel's
  heap reads a grey picture without motion, and silence: the second buffer does not touch the
  first.\<close>

theorem first_snapshot:
  assumes "heap_ok h" and "cam_init kmalloc (cam_static, h, m) = (c, h', m')" and "cam_ready c"
    and "mic_init kmalloc (mic_static, h', m') = (mi, h'', m'')" and "mic_ready mi"
  shows "\<exists>snap s'. senses_capture tsc m'' c mi net f senses_static = Inr (snap, s')
    \<and> camera_available snap \<and> mean_luma (camera_frame snap) = 128 \<and> motion_delta (camera_frame snap) = 0
    \<and> mic_available snap \<and> amplitude_rms (mic_snap snap) = 0 \<and> is_silence (mic_snap snap)"
proof -
  from assms(1-3) obtain p
    where c: "cam_frame c = \<lparr>cam_width = 320, cam_height = 240, cam_data = p, cam_data_len = 153600\<rparr>"
      "m' = memset p 128 153600 m" "heap_ok h'" "block p 153600 \<subseteq> heap_used h'" "unat p + 153600 \<le> 2 ^ 64"
    by (rule cam_init_buffer)
  from c(3) assms(4,5) obtain q
    where mi: "mic_frame mi = \<lparr>mic_rate = 16000, mic_channels = 1, mic_samples = 4096, mic_data = q\<rparr>"
      "m'' = memset q 0 8192 m'" "block q 8192 \<inter> heap_used h' = {}" "unat q + 8192 \<le> 2 ^ 64"
    by (rule mic_init_buffer)
  have grey: "m'' (p + of_nat i) = 128" if "i < 153600" for i
    using memset_other_block [OF c(4) mi(3), of i 0 m'] c(5) that by (simp add: mi(2) c(2) memset_in)
  obtain snap where snap: "capture_camera m'' (cam_frame c) senses_static = Inr (snap, senses_static\<lparr>prev_luma := mean_luma snap\<rparr>)"
    "unat (mean_luma snap) = 128" "uint (motion_delta snap) = 0"
    using camera_level [of "cam_frame c" m'' senses_static] grey
    by (simp add: Let_def c(1) senses_static_def del: of_nat_numeral) (auto)
  have "mean_luma snap = 128" "motion_delta snap = 0"
    using snap(2,3) by (simp_all add: unat_eq_iff [symmetric] uint_0_iff)
  moreover have "amplitude_rms (capture_mic m'' (mic_frame mi)) = 0 \<and> is_silence (capture_mic m'' (mic_frame mi))"
    using mi(4) by (intro conjI silent_mic) (simp_all add: mi(1,2) memset_in)
  ultimately show ?thesis
    using snap(1) assms(3,5)
    by (simp add: senses_capture_def get_uptime_ms_def cam_get_latest_frame_def mic_get_latest_frame_def Let_def)
       (simp add: senses_static_def)
qed

theorem first_snapshot_witness:
  "\<exists>c h' m' mi h'' m'' snap s'.
    cam_init kmalloc (cam_static, \<lparr>heap_ptr = 0x1000, heap_end = 0x1001000\<rparr>, \<lambda>_. 0) = (c, h', m') \<and>
    mic_init kmalloc (mic_static, h', m') = (mi, h'', m'') \<and>
    senses_capture 0 m'' c mi net_static fs_static senses_static = Inr (snap, s') \<and>
    mean_luma (camera_frame snap) = 128"
proof -
  let ?h = "\<lparr>heap_ptr = 0x1000, heap_end = 0x1001000\<rparr>"
  have ok: "heap_ok ?h"
    by (simp add: heap_ok_def HEAP_TOP_def)
  obtain c h' m' where c: "cam_init kmalloc (cam_static, ?h, \<lambda>_. 0) = (c, h', m')"
    by (rule prod_cases3)
  then have c': "cam_ready c" "heap_ptr h' = 0x26800" "heap_end h' = 0x1001000"
    by (auto simp: cam_init_def kmalloc_def align16_def CAM_FRAME_SIZE_def CAM_WIDTH_def CAM_HEIGHT_def Let_def)
  obtain mi h'' m'' where mi: "mic_init kmalloc (mic_static, h', m') = (mi, h'', m'')"
    by (rule prod_cases3)
  then have mi': "mic_ready mi"
    using c' by (auto simp: mic_init_def kmalloc_def align16_def MIC_BUF_BYTES_def MIC_BUF_SAMPLES_def Let_def)
  from first_snapshot [OF ok c c'(1) mi mi'] c mi show ?thesis
    by blast
qed

end
