(* ===== verification/Tokens.thy ===== *)
theory Tokens
  imports CString
begin

section \<open>Parameters of an action token\<close>

text \<open>
  The parsing functions of \<^verbatim>\<open>consciousness/core/action.c\<close>: string and number parameters, and the
  hexadecimal bytes of a sound. A token is a C string; a buffer that is filled is given
  by its size, and what a failed search leaves in it is up to the caller.
\<close>

definition parse_param_str :: "string \<Rightarrow> string \<Rightarrow> nat \<Rightarrow> string option" where
  "parse_param_str token key out_sz =
     (let search = strlcut 64 (key @ ''=\"'')
      in case strstr token search of
           None \<Rightarrow> None
         | Some p \<Rightarrow>
             let p = drop (length search) p
             in case strchr p (CHR 0x22) of
                  None \<Rightarrow> None
                | Some end_ptr \<Rightarrow>
                    let len = length p - length end_ptr;
                        len = (if out_sz \<le> len then out_sz - 1 else len)
                    in Some (take len p))"

text \<open>The number so far is a signed 64-bit integer, whose overflow is not defined.\<close>

fun parse_digits :: "string \<Rightarrow> int \<Rightarrow> int checked" where
  "parse_digits [] acc = Inr acc"
| "parse_digits (c # cs) acc =
     (if is_digit c
      then let acc = acc * 10 + digit_val c
           in if 2 ^ 63 \<le> acc then Inl SignedOverflow else parse_digits cs acc
      else Inr acc)"

definition parse_param_int :: "string \<Rightarrow> string \<Rightarrow> int \<Rightarrow> int checked" where
  "parse_param_int token key out =
     (let search = strlcut 64 (key @ ''='')
      in case strstr token search of
           None \<Rightarrow> Inr out
         | Some p \<Rightarrow> parse_digits (drop (length search) p) 0)"

definition hex_digit :: "char \<Rightarrow> u8" where
  "hex_digit c = of_int (if schar (CHR ''a'') \<le> schar c then schar c - schar (CHR ''a'') + 10
     else if schar (CHR ''A'') \<le> schar c then schar c - schar (CHR ''A'') + 10
     else schar c - schar (CHR ''0''))"

text \<open>The loop over the pairs of digits, on the room left in the buffer.\<close>

fun hex_bytes :: "nat \<Rightarrow> string \<Rightarrow> u8 list" where
  "hex_bytes (Suc room) (h # l # hex) = (push_bit 4 (hex_digit h) OR hex_digit l) # hex_bytes room hex"
| "hex_bytes _ _ = []"

subsection \<open>Searching a key\<close>

lemma strstr_prefix: "prefix key s \<Longrightarrow> strstr s key = Some s"
  by (simp add: strstr.simps)

text \<open>A key whose first occurrence is known.\<close>

lemma not_prefix_inside:
  assumes "\<not> sublist key (c # pre @ butlast key)" and "key \<noteq> []"
  shows "\<not> prefix key (c # pre @ key @ rest)"
proof
  assume p: "prefix key (c # pre @ key @ rest)"
  have "length key \<le> length (c # pre @ butlast key)"
    using assms(2) by simp
  moreover have "c # pre @ key @ rest = (c # pre @ butlast key) @ last key # rest"
    using assms(2) by simp
  ultimately have "prefix key (c # pre @ butlast key)"
    using p by (metis prefix_append prefix_length_prefix prefix_def)
  then show False
    using assms(1) by (auto simp: prefix_imp_sublist)
qed

lemma strstr_first:
  "\<not> sublist key (pre @ butlast key) \<Longrightarrow> key \<noteq> [] \<Longrightarrow> strstr (pre @ key @ rest) key = Some (key @ rest)"
proof (induction pre)
  case Nil
  then show ?case
    by (simp add: strstr_prefix)
next
  case (Cons c pre)
  have "\<not> sublist key (pre @ butlast key)"
    using Cons.prems(1) by (auto simp: sublist_Cons_right)
  moreover have "\<not> prefix key (c # pre @ key @ rest)"
    using Cons.prems by (intro not_prefix_inside) simp_all
  ultimately show ?case
    using Cons.IH Cons.prems(2) by (simp add: strstr_Cons)
qed

subsection \<open>Parameters found\<close>

lemma parse_param_str_found:
  assumes "token = pre @ key @ ''=\"'' @ v @ CHR 0x22 # rest"
    and "\<not> sublist (key @ ''=\"'') (pre @ key @ ''='')" and "CHR 0x22 \<notin> set v" and "length key \<le> 61"
    and "0 < out_sz"
  shows "parse_param_str token key out_sz = Some (take (out_sz - 1) v)"
proof -
  have cut: "strlcut 64 (key @ ''=\"'') = key @ ''=\"''"
    using assms(4) by (simp add: strlcut_def)
  have "butlast (key @ ''=\"'') = key @ ''=''"
    by (simp add: butlast_append)
  then have find: "strstr token (key @ ''=\"'') = Some ((key @ ''=\"'') @ v @ CHR 0x22 # rest)"
    using strstr_first [of "key @ ''=\"''" pre "v @ CHR 0x22 # rest"] assms(1,2) by simp
  have "take (if out_sz \<le> length v then out_sz - 1 else length v) (v @ CHR 0x22 # rest) = take (out_sz - 1) v"
    using assms(5) by simp
  then show ?thesis
    unfolding parse_param_str_def cut Let_def find using strchr_append [OF assms(3)] by simp
qed

lemma parse_param_str_length: "parse_param_str token key out_sz = Some v \<Longrightarrow> 0 < out_sz \<Longrightarrow> length v < out_sz"
  by (auto simp: parse_param_str_def Let_def split: option.splits)

lemma set_strstr: "strstr s key = Some p \<Longrightarrow> set p \<subseteq> set s"
  by (erule strstr_Some) auto

lemma parse_param_str_set: "parse_param_str token key out_sz = Some v \<Longrightarrow> set v \<subseteq> set token"
  by (auto simp: parse_param_str_def Let_def split: option.splits
      dest!: set_strstr in_set_takeD in_set_dropD)

lemma parse_digits_dec_val:
  assumes "\<forall>c \<in> set ds. is_digit c" and "0 \<le> acc"
    and "rest = [] \<or> \<not> is_digit (hd rest)"
  shows "parse_digits (ds @ rest) acc =
    (if ds = [] \<or> foldl (\<lambda>a c. a * 10 + digit_val c) acc ds < 2 ^ 63
     then Inr (foldl (\<lambda>a c. a * 10 + digit_val c) acc ds) else Inl SignedOverflow)"
  using assms(1,2)
proof (induction ds arbitrary: acc)
  case Nil
  then show ?case
    using assms(3) by (cases rest) simp_all
next
  case (Cons c ds)
  have mono: "a \<le> foldl (\<lambda>a c. a * 10 + digit_val c) a es" if "\<forall>c \<in> set es. is_digit c" "0 \<le> a" for a es
    using that
  proof (induction es arbitrary: a)
    case (Cons e es)
    then have "0 \<le> digit_val e"
      by (simp add: is_digit_def digit_val_def)
    with Cons.prems(2) have "a \<le> a * 10 + digit_val e"
      by linarith
    moreover have "a * 10 + digit_val e \<le> foldl (\<lambda>a c. a * 10 + digit_val c) (a * 10 + digit_val e) es"
      using Cons.prems \<open>0 \<le> digit_val e\<close> by (intro Cons.IH) auto
    ultimately show ?case
      by simp
  qed simp
  have c: "is_digit c" "0 \<le> acc * 10 + digit_val c"
    using Cons.prems by (simp_all add: is_digit_def digit_val_def)
  show ?case
    using Cons.IH [of "acc * 10 + digit_val c"] Cons.prems c mono [of ds "acc * 10 + digit_val c"]
    by (auto simp: Let_def)
qed

lemma parse_digits_dec:
  assumes "rest = [] \<or> \<not> is_digit (hd rest)"
  shows "parse_digits (dec n @ rest) 0 = (if n < 2 ^ 63 then Inr (int n) else Inl SignedOverflow)"
proof -
  have "foldl (\<lambda>a c. a * 10 + digit_val c) 0 (dec n) = int n"
    using dec_val_dec [of n] by (simp add: dec_val_def)
  moreover have "int n < 2 ^ 63 \<longleftrightarrow> n < 2 ^ 63"
    by (simp flip: of_nat_power add: of_nat_less_iff [symmetric])
  ultimately show ?thesis
    using parse_digits_dec_val [of "dec n" 0 rest] dec_digits [of n] assms by simp
qed

lemma parse_digits_range: "parse_digits s acc = Inr v \<Longrightarrow> 0 \<le> acc \<Longrightarrow> acc < 2 ^ 63 \<Longrightarrow> 0 \<le> v \<and> v < 2 ^ 63"
proof (induction s arbitrary: acc)
  case (Cons c s)
  show ?case
  proof (cases "is_digit c")
    case True
    then have "0 \<le> acc * 10 + digit_val c"
      using Cons.prems(2) by (simp add: is_digit_def digit_val_def)
    then show ?thesis
      using Cons True by (auto simp: Let_def split: if_splits)
  qed (use Cons in simp)
qed simp

lemma parse_digits_fault: "parse_digits s acc = Inl e \<Longrightarrow> e = SignedOverflow"
  by (induction s arbitrary: acc) (auto simp: Let_def split: if_splits)

lemma parse_param_int_found:
  assumes "token = pre @ key @ ''='' @ rest" and "\<not> sublist (key @ ''='') (pre @ key)" and "length key \<le> 62"
  shows "parse_param_int token key out = parse_digits rest 0"
proof -
  have cut: "strlcut 64 (key @ ''='') = key @ ''=''"
    using assms(3) by (simp add: strlcut_def)
  have "strstr token (key @ ''='') = Some ((key @ ''='') @ rest)"
    using strstr_first [of "key @ ''=''" pre rest] assms(1,2) by (simp add: butlast_append)
  then show ?thesis
    unfolding parse_param_int_def cut Let_def by simp
qed

lemma parse_param_int_range:
  "parse_param_int token key out = Inr v \<Longrightarrow> 0 \<le> out \<Longrightarrow> out < 2 ^ 63 \<Longrightarrow> 0 \<le> v \<and> v < 2 ^ 63"
  by (auto simp: parse_param_int_def Let_def split: option.splits dest: parse_digits_range)

lemma parse_param_int_fault: "parse_param_int token key out = Inl e \<Longrightarrow> e = SignedOverflow"
  by (auto simp: parse_param_int_def Let_def split: option.splits dest: parse_digits_fault)

subsection \<open>Hexadecimal bytes\<close>

definition hex_char :: "nat \<Rightarrow> char" where "hex_char n = ''0123456789abcdef'' ! n"

definition hex_text :: "u8 list \<Rightarrow> string" where
  "hex_text bs = concat (map (\<lambda>b. [hex_char (unat b div 16), hex_char (unat b mod 16)]) bs)"

lemma hex_digit_char: "n < 16 \<Longrightarrow> hex_digit (hex_char n) = of_nat n"
proof -
  assume n: "n < 16"
  have "\<forall>n \<in> set [0..<16]. hex_digit (hex_char n) = of_nat n"
    by code_simp
  with n show ?thesis
    by simp
qed

lemma hex_byte: "push_bit 4 (hex_digit (hex_char (unat b div 16))) OR hex_digit (hex_char (unat b mod 16)) = b"
proof -
  have lt: "unat b div 16 < 16" "unat b mod 16 < 16"
    using unat_lt_256 [of b] by simp_all
  have hi: "(of_nat (unat b div 16) :: u8) = drop_bit 4 b"
    by (rule bit_word_eqI) (simp add: bit_simps flip: drop_bit_eq_div [of 4 "unat b", simplified])
  have lo: "(of_nat (unat b mod 16) :: u8) = take_bit 4 b"
    by (rule bit_word_eqI) (auto simp: bit_simps simp flip: take_bit_eq_mod [of 4 "unat b", simplified])
  show ?thesis
    unfolding hex_digit_char [OF lt(1)] hex_digit_char [OF lt(2)] hi lo
    by (rule bit_word_eqI) (auto simp: bit_simps)
qed

lemma hex_bytes_text: "hex_bytes room (hex_text bs) = take room bs"
proof (induction bs arbitrary: room)
  case Nil
  then show ?case
    by (cases room) (simp_all add: hex_text_def)
next
  case (Cons b bs)
  then show ?case
    by (cases room) (simp_all add: hex_text_def hex_byte)
qed

lemma hex_bytes_length: "length (hex_bytes room s) = min room (length s div 2)"
  by (induction room s rule: hex_bytes.induct) auto

end
