(* ===== verification/Action.thy ===== *)
theory Action
  imports Tokens Display Drivers MemoryFiles
begin

section \<open>Actions\<close>

text \<open>
  \<^verbatim>\<open>consciousness/core/action.c\<close>: the handlers of the action tokens and the scan of the model's
  output for them. The world they act on is the display, the audio device, the memory of
  experiences (with the heap and the files) and the results waiting to be fed back; writes to
  model-specific registers and the rounds of the sleep loop are counted. Lines of the serial log
  are left out, and so are the file and network buffers, whose contents nothing reads.
\<close>

subsection \<open>State\<close>

record ('h, 'f) act_env =
  env_malloc :: "u64 \<Rightarrow> 'h \<Rightarrow> u64 \<times> 'h"
  env_release :: "u64 \<Rightarrow> 'h \<Rightarrow> 'h"
  env_junk :: "nat \<Rightarrow> string"
  env_fs :: "'f fs_ops"

record ('h, 'f) world =
  wdisp :: display
  whda :: hda
  wmem :: "('h, 'f) amem"
  results :: "string list"
  results_buf :: string
  pcm_bytes :: "u8 list"
  msr_writes :: "(u32 \<times> u32 \<times> u32) list"
  nops :: nat

type_synonym ('h, 'f) handler = "('h, 'f) act_env \<Rightarrow> string \<Rightarrow> ('h, 'f) world \<Rightarrow> ('h, 'f) world checked"

subsection \<open>Results\<close>

definition MAX_ACTION_RESULTS :: nat where "MAX_ACTION_RESULTS = 32"

text \<open>The arguments of the format are ignored.\<close>

definition record_result :: "string \<Rightarrow> ('h, 'f) world \<Rightarrow> ('h, 'f) world" where
  "record_result fmt w =
     (if MAX_ACTION_RESULTS \<le> length (results w) then w
      else w\<lparr>results := results w @ [take 255 fmt]\<rparr>)"

definition result_line :: "string \<Rightarrow> string" where
  "result_line r = ''[RESULT] '' @ r @ [CHR 0x0A]"

definition action_get_results_str :: "('h, 'f) world \<Rightarrow> (string \<times> ('h, 'f) world) checked" where
  "action_get_results_str w =
     rbind (snprintf_all (MAX_ACTION_RESULTS * 256) (map result_line (results w)) (0, results_buf w))
       (\<lambda>(pos, buf). Inr (buf, w\<lparr>results := [], results_buf := buf\<rparr>))"

subsection \<open>Handlers\<close>

text \<open>A buffer set to zero first, which a missing parameter leaves as the empty string.\<close>

definition param_str :: "string \<Rightarrow> string \<Rightarrow> nat \<Rightarrow> string" where
  "param_str token key sz = (case parse_param_str token key sz of None \<Rightarrow> [] | Some s \<Rightarrow> s)"

definition act_display :: "('h, 'f) handler" where
  "act_display env token w =
     (let s = param_str token ''text'' 512
      in rbind (parse_param_int token ''color'' 0xFFFFFFFF) (\<lambda>color.
           Inr (record_result ''DISPLAY: printed %zu chars''
             (w\<lparr>wdisp := display_print_string s (of_int color) (wdisp w)\<rparr>))))"

definition act_display_pixel :: "('h, 'f) handler" where
  "act_display_pixel env token w =
     rbind (parse_param_int token ''x'' 0) (\<lambda>x.
     rbind (parse_param_int token ''y'' 0) (\<lambda>y.
     rbind (parse_param_int token ''r'' 0) (\<lambda>r.
     rbind (parse_param_int token ''g'' 0) (\<lambda>g.
     rbind (parse_param_int token ''b'' 0) (\<lambda>b.
       let color = push_bit 16 (of_int r) OR push_bit 8 (of_int g) OR of_int b
       in Inr (w\<lparr>wdisp := display_set_pixel (of_int x) (of_int y) color (wdisp w)\<rparr>))))))"

definition act_audio_freq :: "('h, 'f) handler" where
  "act_audio_freq env token w =
     rbind (parse_param_int token ''hz'' 440) (\<lambda>hz.
     rbind (parse_param_int token ''ms'' 100) (\<lambda>ms.
     rbind (parse_param_int token ''volume'' 64) (\<lambda>vol.
     rbind (audio_play_tone (of_int hz) (of_int ms) (of_int vol) (whda w)) (\<lambda>s.
       Inr (record_result ''AUDIO_FREQ: played %lldHz for %lldms'' (w\<lparr>whda := s\<rparr>))))))"

definition act_audio_pcm :: "('h, 'f) handler" where
  "act_audio_pcm env token w =
     (case parse_param_str token ''data'' 4096 of
        None \<Rightarrow> Inr w
      | Some hex \<Rightarrow>
          let bs = hex_bytes 2048 hex;
              w = w\<lparr>pcm_bytes := bs @ drop (length bs) (pcm_bytes w)\<rparr>;
              w = w\<lparr>whda := audio_play_pcm (of_nat (length bs)) (whda w)\<rparr>
          in Inr (record_result ''AUDIO_PCM: sent %d bytes to DAC'' w))"

definition act_audio_stop :: "('h, 'f) handler" where
  "act_audio_stop env token w =
     Inr (record_result ''AUDIO_STOP: ok'' (w\<lparr>whda := audio_stop (whda w)\<rparr>))"

definition act_memory_store :: "('h, 'f) handler" where
  "act_memory_store env token w =
     (let key = param_str token ''key'' 128; val = param_str token ''value'' 1024
      in rbind (parse_param_int token ''importance'' 1) (\<lambda>imp.
           let entry = \<lparr>in_type = MEM_SEMANTIC, in_importance = of_int (if 255 < imp then 255 else imp),
                 in_tick = 0, in_content = Some (strlcut 1200 (key @ '': '' @ val))\<rparr>
           in rbind (aion_memory_store (env_malloc env) (env_release env) (env_junk env) (env_fs env)
                       entry (wmem w)) (\<lambda>m.
                Inr (record_result ''MEMORY_STORE: key=%s stored'' (w\<lparr>wmem := m\<rparr>)))))"

definition act_memory_recall :: "('h, 'f) handler" where
  "act_memory_recall env token w =
     (case aion_memory_search (param_str token ''key'' 128) (wmem w) of
        Some p \<Rightarrow> Inr (record_result ''MEMORY_RECALL: key=%s value=%s'' w)
      | None \<Rightarrow> Inr (record_result ''MEMORY_RECALL: key=%s not found'' w))"

definition act_file_read :: "('h, 'f) handler" where
  "act_file_read env token w =
     (let (r, data, f) = fs_read_file (env_fs env) (param_str token ''path'' 512) 8191 (fs_state (wmem w));
          w = w\<lparr>wmem := (wmem w)\<lparr>fs_state := f\<rparr>\<rparr>
      in if r < 0 then Inr (record_result ''FILE_READ: path=%s error=%d'' w)
         else if 8192 \<le> r then Inl BufferOverflow
         else Inr (record_result ''FILE_READ: path=%s bytes=%d content_preview=%.*s'' w))"

definition act_file_write :: "('h, 'f) handler" where
  "act_file_write env token w =
     (let path = param_str token ''path'' 512; data = param_str token ''data'' 4096
      in if \<not> prefix ''/'' path \<or> strstr path ''..'' \<noteq> None
         then Inr (record_result ''FILE_WRITE: rejected path=%s'' w)
         else
           let (r, f) = fs_write_file_usb (env_fs env) path data (fs_state (wmem w))
           in Inr (record_result ''FILE_WRITE: path=%s bytes=%d'' (w\<lparr>wmem := (wmem w)\<lparr>fs_state := f\<rparr>\<rparr>)))"

definition act_net_fetch :: "('h, 'f) handler" where
  "act_net_fetch env token w =
     (let (r, data) = network_http_get (param_str token ''url'' 512) 16383
      in if r < 0 then Inr (record_result ''NET_FETCH: url=%s error=%d'' w)
         else if 16384 \<le> r then Inl BufferOverflow
         else Inr (record_result ''NET_FETCH: url=%s bytes=%d preview=%.*s'' w))"

definition act_cpu_freq_set :: "('h, 'f) handler" where
  "act_cpu_freq_set env token w =
     rbind (parse_param_int token ''mhz'' 1600) (\<lambda>mhz.
       let mhz = (if mhz < 400 then 400 else mhz);
           mhz = (if 3400 < mhz then 3400 else mhz);
           ratio = (of_int (mhz div 100) :: u64)
       in Inr (record_result ''CPU_FREQ_SET: mhz=%lld ok''
            (w\<lparr>msr_writes := msr_writes w @ [(0x199, ucast (push_bit 8 ratio), 0)]\<rparr>)))"

definition act_sleep_ms :: "('h, 'f) handler" where
  "act_sleep_ms env token w =
     rbind (parse_param_int token ''ms'' 0) (\<lambda>ms.
       if 2 ^ 63 \<le> ms * 10000 then Inl SignedOverflow
       else Inr (record_result ''SLEEP_MS: %lld ms elapsed'' (w\<lparr>nops := nops w + nat (ms * 10000)\<rparr>)))"

definition act_hardware_query :: "('h, 'f) handler" where
  "act_hardware_query env token w =
     Inr (record_result (''HARDWARE: cpu=i5-8250U cores=4 threads=8 '' @
       ''ram_total=%lluMB ram_free=%lluMB '' @ ''swap_total=%lluGB '' @ ''display=%dx%d '' @
       ''cam=available mic=available audio=available '' @
       ''usb=128GB network=available bluetooth=available'') w)"

definition act_display_clear :: "('h, 'f) handler" where
  "act_display_clear env token w =
     Inr (record_result ''DISPLAY_CLEAR: ok'' (w\<lparr>wdisp := display_clear (wdisp w)\<rparr>))"

subsection \<open>Dispatch\<close>

definition actions :: "(string \<times> ('h, 'f) handler) list" where
  "actions =
     [(''ACT:DISPLAY'', act_display),
      (''ACT:DISPLAY_PIXEL'', act_display_pixel),
      (''ACT:DISPLAY_CLEAR'', act_display_clear),
      (''ACT:AUDIO_FREQ'', act_audio_freq),
      (''ACT:AUDIO_PCM'', act_audio_pcm),
      (''ACT:AUDIO_STOP'', act_audio_stop),
      (''ACT:MEMORY_STORE'', act_memory_store),
      (''ACT:MEMORY_RECALL'', act_memory_recall),
      (''ACT:FILE_READ'', act_file_read),
      (''ACT:FILE_WRITE'', act_file_write),
      (''ACT:NET_FETCH'', act_net_fetch),
      (''ACT:CPU_FREQ_SET'', act_cpu_freq_set),
      (''ACT:SLEEP_MS'', act_sleep_ms),
      (''ACT:HARDWARE_QUERY'', act_hardware_query)]"

text \<open>The first entry of the table whose name starts the text.\<close>

primrec find_action :: "(string \<times> 'a) list \<Rightarrow> string \<Rightarrow> 'a option" where
  "find_action [] p = None"
| "find_action (a # acts) p = (if prefix (fst a) p then Some (snd a) else find_action acts p)"

definition token_buf :: "string \<Rightarrow> string \<Rightarrow> string" where
  "token_buf p end_ptr =
     (let tlen = length p - length end_ptr - 1;
          tlen = (if 2048 \<le> tlen then 2047 else tlen)
      in take tlen (tl p))"

text \<open>The scan, over the table of actions.\<close>

lemma strchr_shorter: "strchr s c = Some p \<Longrightarrow> \<exists>q. p = c # q \<and> length q < length s"
  by (auto dest: strchr_Some)

function action_loop ::
  "(string \<times> ('h, 'f) handler) list \<Rightarrow> ('h, 'f) act_env \<Rightarrow> string \<Rightarrow> ('h, 'f) world \<Rightarrow> ('h, 'f) world checked"
where
  "action_loop acts env s w =
     (case strchr s (CHR ''<'') of
        None \<Rightarrow> Inr w
      | Some p \<Rightarrow>
          (case find_action acts (tl p) of
             None \<Rightarrow> action_loop acts env (tl p) w
           | Some handler \<Rightarrow>
               (case strchr p (CHR ''>'') of
                  None \<Rightarrow> action_loop acts env (tl p) w
                | Some end_ptr \<Rightarrow>
                    rbind (handler env (token_buf p end_ptr) w) (\<lambda>w.
                      action_loop acts env (tl end_ptr) w))))"
  by pat_completeness auto
termination
  by (relation "measure (\<lambda>(acts, env, s, w). length s)") (auto dest!: strchr_shorter)

declare action_loop.simps [simp del]

definition action_parse_and_execute ::
  "('h, 'f) act_env \<Rightarrow> string option \<Rightarrow> ('h, 'f) world \<Rightarrow> ('h, 'f) world checked" where
  "action_parse_and_execute env out w =
     (case out of None \<Rightarrow> Inr w | Some s \<Rightarrow> action_loop actions env s w)"

subsection \<open>Finding the action\<close>

lemma prefix_before: "c \<notin> set name \<Longrightarrow> prefix name (tok @ c # rest) \<longleftrightarrow> prefix name tok"
  by (auto simp: prefix_append prefix_Cons)

lemma find_action_before:
  "\<forall>a \<in> set acts. c \<notin> set (fst a) \<Longrightarrow> find_action acts (tok @ c # rest) = find_action acts tok"
  by (induction acts) (simp_all add: prefix_before)

lemma find_action_Some: "find_action acts p = Some h \<Longrightarrow> \<exists>name. (name, h) \<in> set acts \<and> prefix name p"
  by (induction acts) (auto split: if_splits)

lemma actions_names: "\<forall>a \<in> set actions. CHR ''>'' \<notin> set (fst a) \<and> prefix ''ACT:'' (fst a)"
  by (simp add: actions_def)

lemma actions_table: "\<forall>a \<in> set actions. 11 \<le> length (fst a) \<and> CHR ''>'' \<notin> set (fst a)"
  by (simp add: actions_def)

lemma strchr_skip: "c \<notin> set t \<Longrightarrow> strchr (t @ s) c = strchr s c"
  by (induction t) (auto simp: strchr_def)

lemma strchr_hit: "strchr (c # s) c = Some (c # s)"
  by (simp add: strchr_def)

lemma action_loop_plain: "CHR ''<'' \<notin> set s \<Longrightarrow> action_loop acts env s w = Inr w"
  by (subst action_loop.simps) (simp add: strchr_None [symmetric])

lemma action_loop_skip:
  "CHR ''<'' \<notin> set t \<Longrightarrow> action_loop acts env (t @ s) w = action_loop acts env s w"
  by (subst (1 2) action_loop.simps) (simp add: strchr_skip)

lemma action_loop_token:
  assumes "\<forall>a \<in> set acts. CHR ''>'' \<notin> set (fst a)" and "CHR ''>'' \<notin> set tok"
    and "find_action acts tok = Some h"
  shows "action_loop acts env (CHR ''<'' # tok @ CHR ''>'' # rest) w =
    rbind (h env (take 2047 tok) w) (action_loop acts env rest)"
proof -
  have close: "strchr (CHR ''<'' # tok @ CHR ''>'' # rest) (CHR ''>'') = Some (CHR ''>'' # rest)"
    using strchr_append [of "CHR ''>''" "CHR ''<'' # tok" rest] assms(2) by simp
  have "token_buf (CHR ''<'' # tok @ CHR ''>'' # rest) (CHR ''>'' # rest) = take 2047 tok"
    by (auto simp: token_buf_def Let_def)
  then show ?thesis
    using assms(3) find_action_before [OF assms(1), of tok rest]
    by (subst action_loop.simps) (simp add: strchr_hit close)
qed

lemma action_loop_cong:
  assumes "\<And>p. find_action acts p = find_action acts' p"
  shows "action_loop acts env s w = action_loop acts' env s w"
proof (induction s arbitrary: w rule: length_induct)
  case (1 s)
  have IH: "action_loop acts env t w' = action_loop acts' env t w'" if "length t < length s" for t w'
    using 1 that by blast
  show ?case
  proof (cases "strchr s (CHR ''<'')")
    case None
    then show ?thesis
      by (simp add: action_loop.simps [of _ _ s])
  next
    case (Some p)
    then obtain q where q: "p = CHR ''<'' # q" "length q < length s"
      using strchr_shorter by blast
    have rest: "action_loop acts env (tl e) = action_loop acts' env (tl e)" if "strchr p (CHR ''>'') = Some e" for e
      using strchr_shorter [OF that] q by (intro ext IH) auto
    show ?thesis
      using Some IH [OF q(2)] rest assms unfolding q(1)
      by (simp add: action_loop.simps [of _ _ s] split: option.splits)
  qed
qed

text \<open>
  The rule of the scan: \<open>P k\<close> holds of the world while at most \<open>k\<close> actions can follow, and \<open>Q\<close> of
  the fault a handler stops with. An action takes at least 13 characters.
\<close>

text \<open>What one call does: the scan ends, goes on after a \<open>'<'\<close> or runs a handler on the token before the rest.\<close>

lemma action_loop_cases:
  assumes names: "\<forall>a \<in> set acts. 11 \<le> length (fst a) \<and> CHR ''>'' \<notin> set (fst a)"
  obtains (ended) "action_loop acts env s w = Inr w"
  | (skipped) q where "action_loop acts env s w = action_loop acts env q w" "length q < length s"
  | (ran) name h tok rest where "(name, h) \<in> set acts" "13 + length rest \<le> length s"
      "action_loop acts env s w = rbind (h env tok w) (action_loop acts env rest)"
proof (cases "strchr s (CHR ''<'')")
  case None
  then show thesis
    by (intro ended) (simp add: action_loop.simps [of _ _ s])
next
  case (Some p)
  then obtain t q where q: "p = CHR ''<'' # q" "s = t @ CHR ''<'' # q"
    using strchr_Some by blast
  show thesis
  proof (cases "find_action acts q = None \<or> strchr p (CHR ''>'') = None")
    case True
    then have "action_loop acts env s w = action_loop acts env q w"
      using Some q(1) by (auto simp: action_loop.simps [of _ _ s] split: option.splits)
    then show thesis
      by (rule skipped) (simp add: q(2))
  next
    case False
    then obtain h e where h: "find_action acts q = Some h" and e: "strchr p (CHR ''>'') = Some e"
      by auto
    obtain name where name: "(name, h) \<in> set acts" "prefix name q"
      using find_action_Some [OF h] by blast
    obtain u rest where rest: "p = u @ CHR ''>'' # rest" "e = CHR ''>'' # rest"
      using e strchr_Some by blast
    then obtain v where v: "u = CHR ''<'' # v" "q = v @ CHR ''>'' # rest"
      using q(1) by (cases u) auto
    have long: "11 \<le> length name" "CHR ''>'' \<notin> set name"
      using names name(1) by force+
    then have "prefix name v"
      using name(2) v(2) prefix_before by metis
    then have "13 + length rest \<le> length s"
      using long(1) q(2) v(2) by (auto dest: prefix_length_le)
    moreover have "action_loop acts env s w = rbind (h env (token_buf p e) w) (action_loop acts env rest)"
      using Some h e q(1) rest(2) by (simp add: action_loop.simps [of _ _ s])
    ultimately show thesis
      by (rule ran [OF name(1)])
  qed
qed

lemma action_loop_rule:
  assumes step: "\<And>name h tok k w. (name, h) \<in> set acts \<Longrightarrow> P (Suc k) w \<Longrightarrow>
      case h env tok w of Inl e \<Rightarrow> Q e | Inr w' \<Rightarrow> P k w'"
    and less: "\<And>k k' w. P k' w \<Longrightarrow> k \<le> k' \<Longrightarrow> P k w"
    and names: "\<forall>a \<in> set acts. 11 \<le> length (fst a) \<and> CHR ''>'' \<notin> set (fst a)"
    and "P (length s div 13) w"
  shows "case action_loop acts env s w of Inl e \<Rightarrow> Q e | Inr w' \<Rightarrow> P 0 w'"
  using assms(4)
proof (induction s arbitrary: w rule: length_induct)
  case (1 s)
  from names show ?case
  proof (cases rule: action_loop_cases [where env = env and s = s and w = w])
    case ended
    then show ?thesis
      using less [OF 1(2)] by simp
  next
    case (skipped q)
    then have "P (length q div 13) w"
      by (intro less [OF 1(2)] div_le_mono) simp
    then show ?thesis
      using 1(1) skipped by simp
  next
    case (ran name h tok rest)
    then have "Suc (length rest div 13) \<le> length s div 13"
      by simp
    then have P: "P (Suc (length rest div 13)) w"
      by (rule less [OF 1(2)])
    show ?thesis
    proof (cases "h env tok w")
      case (Inl a)
      then show ?thesis
        using step [OF ran(1) P, of tok] ran(3) by simp
    next
      case (Inr w1)
      then have "P (length rest div 13) w1"
        using step [OF ran(1) P, of tok] by simp
      then show ?thesis
        using 1(1) ran(2,3) Inr by simp
    qed
  qed
qed

text \<open>What every handler keeps, the scan keeps.\<close>

lemma action_loop_keeps:
  assumes "\<And>name h tok w w'. (name, h) \<in> set actions \<Longrightarrow> P w \<Longrightarrow> h env tok w = Inr w' \<Longrightarrow> P w'"
    and "P w" and "action_loop actions env s w = Inr w'"
  shows "P w'"
proof -
  have "case action_loop actions env s w of Inl e \<Rightarrow> True | Inr w' \<Rightarrow> P w'"
    by (rule action_loop_rule [where P = "\<lambda>k. P", OF _ _ actions_table])
      (use assms in \<open>auto split: sum.splits\<close>)
  with assms(3) show ?thesis
    by simp
qed

subsection \<open>The order of actions\<close>

text \<open>An output as its plain texts and tokens, and the handlers run one after the other.\<close>

definition output_of :: "(string \<times> string) list \<Rightarrow> string \<Rightarrow> string" where
  "output_of segs rest = concat (map (\<lambda>(t, tok). t @ CHR ''<'' # tok @ ''>'') segs) @ rest"

primrec run_tokens ::
  "('h, 'f) act_env \<Rightarrow> string list \<Rightarrow> ('h, 'f) world \<Rightarrow> ('h, 'f) world checked" where
  "run_tokens env [] w = Inr w"
| "run_tokens env (tok # toks) w =
     (case find_action actions tok of
        None \<Rightarrow> Inr w
      | Some h \<Rightarrow> rbind (h env (take 2047 tok) w) (run_tokens env toks))"

lemma action_loop_output:
  assumes "list_all (\<lambda>(t, tok). CHR ''<'' \<notin> set t \<and> CHR ''>'' \<notin> set tok \<and>
      find_action (actions :: (string \<times> ('h, 'f) handler) list) tok \<noteq> None) segs"
    and "CHR ''<'' \<notin> set rest"
  shows "action_loop actions env (output_of segs rest) (w :: ('h, 'f) world) = run_tokens env (map snd segs) w"
  using assms(1)
proof (induction segs arbitrary: w)
  case Nil
  then show ?case
    using action_loop_plain [OF assms(2)] by (simp add: output_of_def)
next
  case (Cons seg segs)
  obtain t tok where seg: "seg = (t, tok)"
    by fastforce
  obtain h where h: "find_action (actions :: (string \<times> ('h, 'f) handler) list) tok = Some h"
      and t: "CHR ''<'' \<notin> set t" "CHR ''>'' \<notin> set tok"
    using Cons.prems unfolding seg by auto
  have names: "\<forall>a \<in> set (actions :: (string \<times> ('h, 'f) handler) list). CHR ''>'' \<notin> set (fst a)"
    using actions_names by blast
  have "output_of (seg # segs) rest = t @ CHR ''<'' # tok @ CHR ''>'' # output_of segs rest"
    by (simp add: output_of_def seg)
  then have "action_loop actions env (output_of (seg # segs) rest) w =
      rbind (h env (take 2047 tok) w) (action_loop actions env (output_of segs rest))"
    by (simp add: action_loop_skip [OF t(1)] action_loop_token [OF names t(2) h])
  also have "action_loop actions env (output_of segs rest) = run_tokens env (map snd segs)"
    using Cons by (intro ext Cons.IH) simp
  finally show ?case
    by (simp add: seg h)
qed

definition shadowed :: "string \<times> ('h, 'f) handler \<Rightarrow> bool" where
  "shadowed a \<longleftrightarrow> fst a \<in> {''ACT:DISPLAY_PIXEL'', ''ACT:DISPLAY_CLEAR''}"

lemma find_action_unshadowed: "find_action (filter (\<lambda>a. \<not> shadowed a) actions) p = find_action actions p"
proof -
  have short: "prefix ''ACT:DISPLAY'' p" if "prefix (''ACT:DISPLAY'' @ s) p" for s
    using that by (meson prefix_order.trans prefixI)
  show ?thesis
    using short [of "''_PIXEL''"] short [of "''_CLEAR''"]
    by (auto simp: actions_def shadowed_def)
qed

lemma action_loop_silent:
  assumes "\<not> sublist ''<ACT:'' s"
  shows "action_loop actions env s w = Inr (w :: ('h, 'f) world)"
  using assms
proof (induction s)
  case Nil
  then show ?case
    by (simp add: action_loop_plain)
next
  case (Cons c s)
  have s: "\<not> sublist ''<ACT:'' s" "\<not> prefix ''<ACT:'' (c # s)"
    using Cons.prems by (auto simp: sublist_Cons_right)
  show ?case
  proof (cases "c = CHR ''<''")
    case False
    then show ?thesis
      using action_loop_skip [of "[c]" actions env s w] Cons.IH [OF s(1)] by simp
  next
    case True
    let ?acts = "actions :: (string \<times> ('h, 'f) handler) list"
    have "find_action ?acts s = None"
    proof (rule ccontr)
      assume "find_action ?acts s \<noteq> None"
      then obtain h where h: "find_action ?acts s = Some h"
        by blast
      obtain name where "(name, h) \<in> set ?acts" "prefix name s"
        using find_action_Some [OF h] by blast
      then have "prefix ''ACT:'' s"
        using actions_names by (force intro: prefix_order.trans)
      with s(2) True show False
        by simp
    qed
    then show ?thesis
      using Cons.IH [OF s(1)] True by (subst action_loop.simps) (simp add: strchr_hit)
  qed
qed
subsection \<open>What every action keeps\<close>

definition safe_path :: "string \<Rightarrow> bool" where
  "safe_path path \<longleftrightarrow> prefix ''/'' path \<and> \<not> sublist ''..'' path"

lemmas handler_defs = act_display_def act_display_pixel_def act_audio_freq_def act_audio_pcm_def
  act_audio_stop_def act_memory_store_def act_memory_recall_def act_file_read_def act_file_write_def
  act_net_fetch_def act_cpu_freq_set_def act_sleep_ms_def act_hardware_query_def act_display_clear_def

lemma record_result_fields [simp]:
  "wdisp (record_result fmt w) = wdisp w" "whda (record_result fmt w) = whda w"
  "wmem (record_result fmt w) = wmem w" "results_buf (record_result fmt w) = results_buf w"
  "pcm_bytes (record_result fmt w) = pcm_bytes w" "msr_writes (record_result fmt w) = msr_writes w"
  "nops (record_result fmt w) = nops w"
  by (simp_all add: record_result_def)

text \<open>
  A property of the world that the elementary effects of the handlers keep is kept by every
  handler: the effects are a result of bounded length, drawing, the fields no operation reads
  back, an entry stored, a file read, and a file written under a safe path.
\<close>

lemma handler_keeps:
  assumes "(name, h) \<in> set actions" and "h env tok w = Inr w'" and "P w"
    and rec: "\<And>fmt w. P w \<Longrightarrow> length fmt \<le> 245 \<Longrightarrow> P (record_result fmt w)"
    and print: "\<And>s color w. P w \<Longrightarrow> P (w\<lparr>wdisp := display_print_string s color (wdisp w)\<rparr>)"
    and set_pixel: "\<And>x y color w. P w \<Longrightarrow> P (w\<lparr>wdisp := display_set_pixel x y color (wdisp w)\<rparr>)"
    and clear: "\<And>w. P w \<Longrightarrow> P (w\<lparr>wdisp := display_clear (wdisp w)\<rparr>)"
    and audio: "\<And>s w. P w \<Longrightarrow> P (w\<lparr>whda := s\<rparr>)"
    and pcm: "\<And>bs w. P w \<Longrightarrow> P (w\<lparr>pcm_bytes := bs\<rparr>)"
    and msr: "\<And>r w. P w \<Longrightarrow> 4 \<le> r \<Longrightarrow> r \<le> 34 \<Longrightarrow>
        P (w\<lparr>msr_writes := msr_writes w @ [(0x199, ucast (push_bit 8 (of_int r :: u64)), 0)]\<rparr>)"
    and nop: "\<And>n w. P w \<Longrightarrow> P (w\<lparr>nops := n\<rparr>)"
    and mem: "\<And>entry m w. P w \<Longrightarrow> aion_memory_store (env_malloc env) (env_release env) (env_junk env)
        (env_fs env) entry (wmem w) = Inr m \<Longrightarrow> P (w\<lparr>wmem := m\<rparr>)"
    and read: "\<And>path n r data f w. P w \<Longrightarrow>
        fs_read_file (env_fs env) path n (fs_state (wmem w)) = (r, data, f) \<Longrightarrow>
        P (w\<lparr>wmem := (wmem w)\<lparr>fs_state := f\<rparr>\<rparr>)"
    and store_file: "\<And>path data r f w. P w \<Longrightarrow> safe_path path \<Longrightarrow>
        fs_write_file_usb (env_fs env) path data (fs_state (wmem w)) = (r, f) \<Longrightarrow>
        P (w\<lparr>wmem := (wmem w)\<lparr>fs_state := f\<rparr>\<rparr>)"
  shows "P w'"
proof -
  have upd: "P (w\<lparr>pcm_bytes := bs, whda := s\<rparr>)" if "P w" for bs s w
    using that by (intro audio pcm)
  note keep = rec print set_pixel clear audio upd nop mem
  have "h \<in> snd ` set actions"
    using assms(1) by force
  then consider "h = act_file_write" | "h = act_file_read" | "h = act_cpu_freq_set" | "h \<in> {act_display, act_display_pixel,
      act_display_clear, act_audio_freq, act_audio_pcm, act_audio_stop, act_memory_store, act_memory_recall,
      act_net_fetch, act_sleep_ms, act_hardware_query}"
    by (auto simp: actions_def)
  then show ?thesis
  proof cases
    case 1
    then show ?thesis
      using assms(2,3) by (auto simp: handler_defs Let_def safe_path_def strstr_None intro!: rec store_file
          split: prod.splits if_splits)
  next
    case 2
    then show ?thesis
      using assms(2,3) by (auto simp: handler_defs Let_def intro!: rec read split: prod.splits if_splits)
  next
    case 3
    then show ?thesis
      using assms(2,3) by (auto simp: handler_defs Let_def intro!: rec msr)
  next
    case 4
    then show ?thesis
      using assms(2,3) by (auto simp: handler_defs Let_def intro!: keep split: option.splits prod.splits if_splits)
  qed
qed

subsection \<open>The parts of the world\<close>

definition kernel_env :: "(heap, 'f) act_env \<Rightarrow> bool" where
  "kernel_env env \<longleftrightarrow> env_malloc env = kmalloc \<and> env_release env = kfree"

definition results_ok :: "('h, 'f) world \<Rightarrow> bool" where
  "results_ok w \<longleftrightarrow> length (results w) \<le> MAX_ACTION_RESULTS \<and>
     list_all (\<lambda>r. length r \<le> 245) (results w) \<and> length (results_buf w) < MAX_ACTION_RESULTS * 256"

definition world_ok :: "(heap, 'f) world \<Rightarrow> bool" where
  "world_ok w \<longleftrightarrow> mem_ok heap_ok heap_used (wmem w) \<and> screen_ok (wdisp w) \<and> cursor_ok (wdisp w) \<and> results_ok w"

lemma mem_ok_fs [simp]: "mem_ok hok used (st\<lparr>fs_state := f\<rparr>) = mem_ok hok used st"
  by (simp add: mem_ok_def)

lemma record_result_ok: "results_ok w \<Longrightarrow> length fmt \<le> 245 \<Longrightarrow> results_ok (record_result fmt w)"
  by (auto simp: results_ok_def record_result_def)

lemma results_ok_fields [simp]:
  "results_ok (w\<lparr>wdisp := d\<rparr>) = results_ok w" "results_ok (w\<lparr>whda := a\<rparr>) = results_ok w"
  "results_ok (w\<lparr>wmem := m\<rparr>) = results_ok w" "results_ok (w\<lparr>pcm_bytes := bs\<rparr>) = results_ok w"
  "results_ok (w\<lparr>msr_writes := ms\<rparr>) = results_ok w" "results_ok (w\<lparr>nops := n\<rparr>) = results_ok w"
  by (simp_all add: results_ok_def)

lemma draws_screen: "draws d d' \<Longrightarrow> screen_ok d' = screen_ok d"
  using draws_geometry [of d d'] by (auto simp: screen_ok_def draws_def)

lemma print_string_screen:
  assumes "draws d0 d" and "screen_ok d" and "cursor_ok d"
  shows "draws d0 (display_print_string s color d) \<and> screen_ok (display_print_string s color d) \<and>
    cursor_ok (display_print_string s color d)"
proof -
  have dr: "draws d (display_print_string s color d)"
    using assms(2) by (intro print_string_draws) (simp add: screen_ok_def)
  show ?thesis
    using draws_trans [OF assms(1) dr] draws_screen [OF dr] assms(2) print_string_cursor [OF assms(2,3)] by simp
qed

lemma set_pixel_screen:
  assumes "draws d0 d" and "screen_ok d" and "cursor_ok d"
  shows "draws d0 (display_set_pixel x y color d) \<and> screen_ok (display_set_pixel x y color d) \<and>
    cursor_ok (display_set_pixel x y color d)"
proof -
  have dr: "draws d (display_set_pixel x y color d)"
    using assms(2) by (intro set_pixel_draws) (simp add: screen_ok_def)
  have "cursor_ok (display_set_pixel x y color d)"
    using assms(3) by (simp add: cursor_ok_def display_set_pixel_def)
  then show ?thesis
    using draws_trans [OF assms(1) dr] draws_screen [OF dr] assms(2) by simp
qed

lemma clear_screen:
  assumes "draws d0 d" and "screen_ok d"
  shows "draws d0 (display_clear d) \<and> screen_ok (display_clear d) \<and> cursor_ok (display_clear d)"
proof -
  have dr: "draws d (display_clear d)"
    using assms(2) by (intro display_clear_draws) (simp add: screen_ok_def)
  have "cursor_x (display_clear d) = 8" "cursor_y (display_clear d) = 8"
    by (simp_all add: display_clear_def)
  then have "cursor_ok (display_clear d)"
    using dr assms(2) by (simp add: cursor_ok_def screen_ok_def draws_def)
  then show ?thesis
    using draws_trans [OF assms(1) dr] draws_screen [OF dr] assms(2) by simp
qed

text \<open>The world after some actions, seen from the world before.\<close>

definition acted :: "(heap, 'f) world \<Rightarrow> (heap, 'f) world \<Rightarrow> bool" where
  "acted w0 w \<longleftrightarrow> world_ok w \<and> draws (wdisp w0) (wdisp w)"

lemma handler_acted:
  fixes env :: "(heap, 'f) act_env"
  assumes "kernel_env env" and "(name, h) \<in> set actions" and "h env tok w = Inr w'" and "acted w0 w"
  shows "acted w0 w'"
  using assms(2-4)
proof (rule handler_keeps)
  fix w :: "(heap, 'f) world" and entry m
  assume "acted w0 w"
    "aion_memory_store (env_malloc env) (env_release env) (env_junk env) (env_fs env) entry (wmem w) = Inr m"
  then show "acted w0 (w\<lparr>wmem := m\<rparr>)"
    using kblocks.store_mem_ok assms(1) by (fastforce simp: acted_def world_ok_def kernel_env_def)
qed (use print_string_screen set_pixel_screen clear_screen in
    \<open>auto simp: acted_def world_ok_def intro: record_result_ok\<close>)
subsection \<open>Faults\<close>

definition reads_bounded :: "'f fs_ops \<Rightarrow> bool" where
  "reads_bounded fs \<longleftrightarrow> (\<forall>path n f. fst (fs_read_file fs path n f) \<le> int n)"

lemma tone_fault: "audio_play_tone hz ms volume s = Inl e \<Longrightarrow> e = DivideByZero"
  using audio_play_tone_ok [of s hz ms volume] audio_play_tone_fault [of s hz ms volume]
  by (cases "hda_ready s"; cases "hz = 0"; cases "44100 div hz = 0"; cases "tone_samples ms = 0")
    (auto simp: audio_play_tone_def Let_def)

lemma handler_fault:
  assumes "(name, h) \<in> set actions" and "h env tok w = Inl e" and "reads_bounded (env_fs env)"
  obtains "e = SignedOverflow" | "e = DivideByZero"
  | entry where "aion_memory_store (env_malloc env) (env_release env) (env_junk env) (env_fs env) entry
      (wmem w) = Inl e" and "in_content entry \<noteq> None"
proof -
  have read: "\<not> int n < r" if "fs_read_file (env_fs env) path n f = (r, data, f')" for path n f r data f'
    using assms(3) that unfolding reads_bounded_def by (metis fst_conv not_less)
  have "h \<in> snd ` set actions"
    using assms(1) by force
  then consider "h = act_display" | "h = act_display_pixel" | "h = act_audio_freq" | "h = act_memory_store"
    | "h = act_file_read" | "h = act_cpu_freq_set" | "h = act_sleep_ms"
    | "h \<in> {act_display_clear, act_audio_pcm, act_audio_stop, act_memory_recall, act_file_write,
        act_net_fetch, act_hardware_query}"
    by (auto simp: actions_def)
  then show thesis
  proof cases
    case 1
    then show thesis
      using assms(2) that(1) by (auto simp: handler_defs Let_def rbind_eq_Inl dest: parse_param_int_fault)
  next
    case 2
    then show thesis
      using assms(2) that(1) by (auto simp: handler_defs Let_def rbind_eq_Inl dest: parse_param_int_fault)
  next
    case 3
    then show thesis
      using assms(2) that(1,2) by (auto simp: handler_defs Let_def rbind_eq_Inl dest: parse_param_int_fault tone_fault)
  next
    case 4
    then show thesis
      using assms(2) that(1)
      by (auto simp: handler_defs Let_def rbind_eq_Inl dest: parse_param_int_fault intro: that(3))
  next
    case 5
    then show thesis
      using assms(2) by (auto simp: handler_defs Let_def split: prod.splits if_splits dest!: read [of _ 8191])
  next
    case 6
    then show thesis
      using assms(2) that(1) by (auto simp: handler_defs Let_def rbind_eq_Inl dest: parse_param_int_fault)
  next
    case 7
    then show thesis
      using assms(2) that(1) by (auto simp: handler_defs Let_def rbind_eq_Inl dest: parse_param_int_fault split: if_splits)
  next
    case 8
    then show thesis
      using assms(2) by (auto simp: handler_defs Let_def network_http_get_def split: option.splits prod.splits if_splits)
  qed
qed

lemma store_fault:
  assumes "mem_ok heap_ok heap_used st" and "in_content entry \<noteq> None"
    and "aion_memory_store kmalloc kfree junk fs entry st = Inl e"
  shows "e = BufferOverflow \<and> 4095 \<le> mem_count st"
proof -
  obtain body where body: "in_content entry = Some body"
    using assms(2) by blast
  from assms(1) body show ?thesis
  proof (cases rule: kblocks.aion_memory_store_cases [where junk = junk and fs = fs])
    case overflow
    then show ?thesis
      using assms(3) by simp
  qed (use assms(3) in simp_all)
qed

lemma handler_count:
  fixes env :: "(heap, 'f) act_env"
  assumes "kernel_env env" and "(name, h) \<in> set actions" and "h env tok w = Inr w'"
    and "mem_ok heap_ok heap_used (wmem w)"
  shows "mem_count (wmem w') \<le> Suc (mem_count (wmem w))"
proof -
  have "h \<in> snd ` set actions"
    using assms(2) by force
  then consider "h = act_memory_store"
    | "h \<in> {act_display, act_display_pixel, act_display_clear, act_audio_freq, act_audio_pcm, act_audio_stop}"
    | "h \<in> {act_memory_recall, act_file_read, act_file_write, act_net_fetch, act_cpu_freq_set,
        act_sleep_ms, act_hardware_query}"
    by (auto simp: actions_def)
  then show ?thesis
  proof cases
    case 1
    then show ?thesis
      using assms(1,3,4) by (auto simp: handler_defs Let_def kernel_env_def dest: kblocks.store_mem_ok)
  next
    case 2
    then show ?thesis
      using assms(3) by (auto simp: handler_defs Let_def split: option.splits)
  next
    case 3
    then show ?thesis
      using assms(3) by (auto simp: handler_defs Let_def split: option.splits prod.splits if_splits)
  qed
qed

text \<open>
  The rule's instance: the world stays well-formed, and as long as what can follow fits below the
  bound \<open>b\<close> the number of entries stays below it too.
\<close>

lemma action_loop_acted:
  fixes env :: "(heap, 'f) act_env"
  assumes env: "kernel_env env" "reads_bounded (env_fs env)" and "world_ok w" and "b \<le> 4095"
  shows "case action_loop actions env s w of
      Inl e \<Rightarrow> e \<in> {SignedOverflow, DivideByZero} \<or> e = BufferOverflow \<and> b < mem_count (wmem w) + length s div 13
    | Inr w' \<Rightarrow> acted w w' \<and> (mem_count (wmem w) + length s div 13 \<le> b \<longrightarrow> mem_count (wmem w') \<le> b)"
    (is "case ?run of Inl e \<Rightarrow> ?Q e | Inr w' \<Rightarrow> _")
proof -
  let ?P = "\<lambda>k w'. acted w w' \<and> (mem_count (wmem w) + length s div 13 \<le> b \<longrightarrow> mem_count (wmem w') + k \<le> b)"
  have "case ?run of Inl e \<Rightarrow> ?Q e | Inr w' \<Rightarrow> ?P 0 w'"
  proof (rule action_loop_rule [where P = ?P, OF _ _ actions_table])
    show "?P (length s div 13) w"
      using assms by (simp add: acted_def)
    fix name and h :: "(heap, 'f) handler" and tok k w1
    assume h: "(name, h) \<in> set actions" and P: "?P (Suc k) w1"
    show "case h env tok w1 of Inl e \<Rightarrow> ?Q e | Inr w' \<Rightarrow> ?P k w'"
    proof (cases "h env tok w1")
      case (Inl e)
      from h Inl env(2) show ?thesis
      proof (rule handler_fault)
        fix entry
        assume "aion_memory_store (env_malloc env) (env_release env) (env_junk env) (env_fs env) entry
            (wmem w1) = Inl e" "in_content entry \<noteq> None"
        then have "e = BufferOverflow \<and> 4095 \<le> mem_count (wmem w1)"
          using env(1) P by (intro store_fault) (auto simp: acted_def world_ok_def kernel_env_def)
        then show ?thesis
          using P Inl assms(4) by auto
      qed (use Inl in simp_all)
    next
      case (Inr w2)
      have "mem_count (wmem w2) \<le> Suc (mem_count (wmem w1))"
        using P by (intro handler_count [OF env(1) h Inr]) (simp add: acted_def world_ok_def)
      then show ?thesis
        using Inr P handler_acted [OF env(1) h Inr] by auto
    qed
  qed auto
  then show ?thesis
    by (cases ?run) simp_all
qed

subsection \<open>Paths that are written\<close>

lemma count_dots: "sublist ''..'' s \<Longrightarrow> 2 \<le> count_list s (CHR ''.'')"
  by (auto simp: sublist_def)

lemma one_dot_safe: "prefix ''/'' s \<Longrightarrow> count_list s (CHR ''.'') \<le> 1 \<Longrightarrow> safe_path s"
  using count_dots [of s] by (auto simp: safe_path_def)

lemma count_list_take: "count_list (take n s) c \<le> count_list s c"
  by (induction s arbitrary: n) (auto simp: take_Cons split: nat.splits)

lemma mem_path_safe: "safe_path (mem_path ty i)"
proof (rule one_dot_safe)
  have dot: "\<not> is_digit (CHR ''.'')"
    by (simp add: is_digit_def schar_def)
  then have "count_list (dec i) (CHR ''.'') = 0"
    using dec_digits [of i] by (auto simp: count_list_0_iff)
  then have "count_list (mem_type_dir ty @ dec i @ ''.mem'') (CHR ''.'') = 1"
    by (simp add: mem_type_dir_def EPISODIC_DIR_def SEMANTIC_DIR_def SELF_DIR_def)
  then show "count_list (mem_path ty i) (CHR ''.'') \<le> 1"
    using count_list_take [of 255 "mem_type_dir ty @ dec i @ ''.mem''" "CHR ''.''"]
    by (simp add: mem_path_def strlcut_def)
  show "prefix ''/'' (mem_path ty i)"
    by (simp add: mem_path_def strlcut_def mem_type_dir_def EPISODIC_DIR_def SEMANTIC_DIR_def SELF_DIR_def)
qed

lemma index_path_safe: "safe_path INDEX_PATH"
  by (rule one_dot_safe) (simp_all add: INDEX_PATH_def)

lemma flush_writes:
  assumes wr: "\<And>path data f. safe_path path \<Longrightarrow> Q f \<Longrightarrow> Q (snd (fs_write_file_usb fs path data f))"
    and "Q (fs_state st)" and run: "aion_memory_flush junk fs st = Inr st'"
  shows "Q (fs_state st')"
proof (cases "mem_dirty st = 0")
  case True
  then show ?thesis
    using assms by (simp add: aion_memory_flush_def)
next
  case False
  then obtain st1 idx where loop: "for_loop 0 (mem_count st) (flush_entry junk fs) (st, le_bytes 8 (mem_count st)) = Inr (st1, idx)"
    and st': "Inr st' = (let (r, f) = fs_write_file_usb fs INDEX_PATH idx (fs_state st1)
           in Inr (st1\<lparr>fs_state := f, mem_dirty := 0\<rparr>) :: ('b, 'a) amem checked)"
    using run by (auto simp: aion_memory_flush_def)
  have "Q (fs_state (fst (st1, idx)))"
  proof (rule for_loop_keeps [where P = "\<lambda>x. Q (fs_state (fst x))", OF _ _ loop])
    fix i x x'
    assume entry: "Q (fs_state (fst x))" "flush_entry junk fs i x = Inr x'"
    obtain s idx where x: "x = (s, idx)"
      by fastforce
    obtain r f where w: "fs_write_file_usb fs (mem_path (ment_type (mem_store s i)) i)
        (record_bytes (ram s) (mem_store s i)) (fs_state s) = (r, f)"
      by fastforce
    show "Q (fs_state (fst x'))"
      using entry w unfolding x
      using wr [OF mem_path_safe, of "fs_state s" "ment_type (mem_store s i)" i
          "record_bytes (ram s) (mem_store s i)"]
      by (auto simp: flush_entry_def Let_def split: if_splits)
  qed (use assms in simp)
  then show ?thesis
    using st' wr [OF index_path_safe, of "fs_state st1" idx] by (auto split: prod.splits)
qed

lemma store_writes:
  assumes wr: "\<And>path data f. safe_path path \<Longrightarrow> Q f \<Longrightarrow> Q (snd (fs_write_file_usb fs path data f))"
    and "Q (fs_state st)" and run: "aion_memory_store malloc release junk fs entry st = Inr st'"
  shows "Q (fs_state st')"
proof (cases "in_content entry")
  case None
  then show ?thesis
    using assms by (simp add: aion_memory_store_def)
next
  case (Some body)
  define st1 where "st1 = (if MAX_MEMORIES \<le> mem_count st then mem_evict release st else st)"
  obtain p st2 where dup: "mem_strdup malloc body (min (length body) MAX_CONTENT_LEN) st1 = (p, st2)"
    by fastforce
  have "fs_state st2 = fs_state st1" "fs_state st1 = fs_state st"
    using dup by (auto simp: mem_strdup_def st1_def mem_evict_def Let_def split: prod.splits if_splits)
  then have Q: "Q (fs_state st2)" "Q (fs_state (mem_append entry p (min (length body) MAX_CONTENT_LEN) st2))"
    using assms(2) by (simp_all add: mem_append_def)
  have "aion_memory_store malloc release junk fs entry st =
      (if p = 0 then Inr st2
       else let st = mem_append entry p (min (length body) MAX_CONTENT_LEN) st2
            in if 10 \<le> mem_dirty st then aion_memory_flush junk fs st else Inr st)"
    unfolding aion_memory_store_def Some option.case st1_def [symmetric] Let_def dup prod.case ..
  then show ?thesis
    using run Q flush_writes [OF wr Q(2)] by (auto simp: Let_def split: if_splits)
qed

lemma actions_write:
  assumes wr: "\<And>path data f. safe_path path \<Longrightarrow> Q f \<Longrightarrow> Q (snd (fs_write_file_usb (env_fs env) path data f))"
    and rd: "\<And>path n f. Q f \<Longrightarrow> Q (snd (snd (fs_read_file (env_fs env) path n f)))"
    and "Q (fs_state (wmem w))" and run: "action_loop actions env s w = Inr w'"
  shows "Q (fs_state (wmem w'))"
proof (rule action_loop_keeps [OF _ _ run, where P = "\<lambda>w. Q (fs_state (wmem w))"])
  fix name h tok and w1 w2
  assume h: "(name, h) \<in> set actions" "h env tok w1 = Inr w2" "Q (fs_state (wmem w1))"
  then show "Q (fs_state (wmem w2))"
  proof (rule handler_keeps)
    show "Q (fs_state (wmem (w\<lparr>wmem := m\<rparr>)))"
      if "aion_memory_store (env_malloc env) (env_release env) (env_junk env) (env_fs env) entry (wmem w) = Inr m"
        "Q (fs_state (wmem w))" for entry m w
      using store_writes [OF wr that(2,1)] by simp
    show "Q (fs_state (wmem (w\<lparr>wmem := (wmem w)\<lparr>fs_state := f\<rparr>\<rparr>)))"
      if "Q (fs_state (wmem w))" "fs_read_file (env_fs env) path n (fs_state (wmem w)) = (r, data, f)"
      for path n r data f w
      using rd [OF that(1), of path n] that(2) by simp
    show "Q (fs_state (wmem (w\<lparr>wmem := (wmem w)\<lparr>fs_state := f\<rparr>\<rparr>)))"
      if "Q (fs_state (wmem w))" "safe_path path"
        "fs_write_file_usb (env_fs env) path data (fs_state (wmem w)) = (r, f)"
      for path data r f w
      using wr [OF that(2,1), of data] that(3) by simp
  qed simp_all
qed (use assms(3) in simp)

subsection \<open>Feeding the results back\<close>

definition result_lines :: "string list \<Rightarrow> string" where
  "result_lines rs = concat (map result_line rs)"

lemma result_lines_length: "list_all (\<lambda>r. length r \<le> 245) rs \<Longrightarrow> length (result_lines rs) \<le> 255 * length rs"
  by (induction rs) (auto simp: result_lines_def result_line_def)

lemma results_str:
  assumes "results_ok w"
  shows "action_get_results_str w = (let buf = (if results w = [] then results_buf w else result_lines (results w))
    in Inr (buf, w\<lparr>results := [], results_buf := buf\<rparr>))"
proof (cases "results w = []")
  case False
  have "length (result_lines (results w)) \<le> 255 * 32"
    using assms result_lines_length [of "results w"] by (simp add: results_ok_def MAX_ACTION_RESULTS_def)
  then show ?thesis
    using False snprintf_all_start [of "map result_line (results w)" 8192 "results_buf w"]
    by (simp add: action_get_results_str_def MAX_ACTION_RESULTS_def result_lines_def Let_def)
qed (simp add: action_get_results_str_def)

subsection \<open>Storing and recalling by key\<close>

text \<open>A text with a character at two places only, split before one of them.\<close>

lemma split_before:
  assumes "c \<notin> set xs" and "xs @ c # ys = ps @ c # qs"
  obtains "ps = xs" "qs = ys" | us where "ps = xs @ c # us" "ys = us @ c # qs"
proof -
  obtain us where "xs = ps @ us \<and> us @ c # ys = c # qs \<or> xs @ us = ps \<and> c # ys = us @ c # qs"
    using assms(2) by (auto simp: append_eq_append_conv2)
  then show thesis
    using assms(1) that by (cases us) auto
qed

lemma two_splits:
  assumes "c \<notin> set xs" and "c \<notin> set ys" and "c \<notin> set zs"
    and "xs @ c # ys @ c # zs = ps @ c # qs"
  shows "ps = xs \<or> ps = xs @ c # ys"
  using assms(1,4)
proof (rule split_before)
  fix us
  assume us: "ps = xs @ c # us" "ys @ c # zs = us @ c # qs"
  from assms(2) us(2) show ?thesis
    by (rule split_before) (use us(1) assms(3) in auto)
qed simp

definition store_token :: "string \<Rightarrow> string \<Rightarrow> string" where
  "store_token k v = ''ACT:MEMORY_STORE key=\"'' @ k @ ''\" value=\"'' @ v @ ''\"''"

definition recall_token :: "string \<Rightarrow> string" where
  "recall_token k = ''ACT:MEMORY_RECALL key=\"'' @ k @ ''\"''"

definition plain_param :: "string \<Rightarrow> bool" where
  "plain_param s \<longleftrightarrow> cstr s \<and> CHR 0x22 \<notin> set s \<and> CHR ''='' \<notin> set s"

lemma store_token_key:
  assumes "plain_param k" and "length k \<le> 127"
  shows "param_str (store_token k v) ''key'' 128 = k"
proof -
  have "parse_param_str (store_token k v) ''key'' 128 = Some (take (128 - 1) k)"
    by (rule parse_param_str_found [where pre = "''ACT:MEMORY_STORE ''"])
      (use assms in \<open>simp_all add: store_token_def plain_param_def sublist_code\<close>)
  then show ?thesis
    using assms(2) by (simp add: param_str_def)
qed

lemma recall_token_key:
  assumes "plain_param k" and "length k \<le> 127"
  shows "param_str (recall_token k) ''key'' 128 = k"
proof -
  have "parse_param_str (recall_token k) ''key'' 128 = Some (take (128 - 1) k)"
    by (rule parse_param_str_found [where pre = "''ACT:MEMORY_RECALL ''" and rest = "[]"])
      (use assms in \<open>simp_all add: recall_token_def plain_param_def sublist_code\<close>)
  then show ?thesis
    using assms(2) by (simp add: param_str_def)
qed

lemma store_token_value:
  assumes "plain_param k" and "plain_param v" and "length v \<le> 1023"
  shows "param_str (store_token k v) ''value'' 1024 = v"
proof -
  let ?pre = "''ACT:MEMORY_STORE key=\"'' @ k @ ''\" ''"
  have "\<not> sublist (''value'' @ ''=\"'') (?pre @ ''value'' @ ''='')"
  proof
    assume "sublist (''value'' @ ''=\"'') (?pre @ ''value'' @ ''='')"
    then obtain ps qs where "?pre @ ''value'' @ ''='' = ps @ (''value'' @ ''=\"'') @ qs"
      by (auto simp: sublist_def)
    then have "''ACT:MEMORY_STORE key='' @ CHR 0x22 # k @ CHR 0x22 # '' value='' = (ps @ ''value='') @ CHR 0x22 # qs"
      by simp
    then have "ps @ ''value='' = ''ACT:MEMORY_STORE key='' \<or> ps @ ''value='' = ''ACT:MEMORY_STORE key='' @ CHR 0x22 # k"
      using assms(1) by (intro two_splits) (simp_all add: plain_param_def)
    then have "rev (ps @ ''value='') = rev ''ACT:MEMORY_STORE key='' \<or>
        rev (ps @ ''value='') = rev (''ACT:MEMORY_STORE key='' @ CHR 0x22 # k)"
      by metis
    then show False
      using assms(1) by (cases k rule: rev_cases) (auto simp: plain_param_def)
  qed
  then have "parse_param_str (store_token k v) ''value'' 1024 = Some (take (1024 - 1) v)"
    by (intro parse_param_str_found [where pre = ?pre and rest = "[]"])
      (use assms in \<open>simp_all add: store_token_def plain_param_def\<close>)
  then show ?thesis
    using assms(3) by (simp add: param_str_def)
qed

lemma store_token_importance:
  assumes "plain_param k" and "plain_param v"
  shows "parse_param_int (store_token k v) ''importance'' 1 = Inr 1"
proof -
  have "\<not> sublist ''importance='' (store_token k v)"
  proof
    assume "sublist ''importance='' (store_token k v)"
    then obtain ps qs where "store_token k v = ps @ ''importance='' @ qs"
      by (auto simp: sublist_def)
    then have "''ACT:MEMORY_STORE key'' @ CHR ''='' # (CHR 0x22 # k @ ''\" value'') @ CHR ''='' # (CHR 0x22 # v @ ''\"'') =
        (ps @ ''importance'') @ CHR ''='' # qs"
      by (simp add: store_token_def)
    then have "ps @ ''importance'' = ''ACT:MEMORY_STORE key'' \<or>
        ps @ ''importance'' = ''ACT:MEMORY_STORE key'' @ CHR ''='' # (CHR 0x22 # k @ ''\" value'')"
      using assms by (intro two_splits) (simp_all add: plain_param_def)
    then have "rev (ps @ ''importance'') = rev ''ACT:MEMORY_STORE key'' \<or>
        rev (ps @ ''importance'') = rev (''ACT:MEMORY_STORE key'' @ CHR ''='' # (CHR 0x22 # k @ ''\" value''))"
      by metis
    then show False
      by auto
  qed
  then have "strstr (store_token k v) ''importance='' = None"
    by (simp add: strstr_None)
  then show ?thesis
    by (simp add: parse_param_int_def strlcut_def)
qed

subsection \<open>A sound in hexadecimal\<close>

definition pcm_output :: "u8 list \<Rightarrow> string" where
  "pcm_output bs = ''<ACT:AUDIO_PCM data=\"'' @ hex_text bs @ ''\">''"

lemma hex_text_length: "length (hex_text bs) = 2 * length bs"
  by (induction bs) (simp_all add: hex_text_def)

lemma hex_text_in:
  assumes "\<And>n. n < 16 \<Longrightarrow> hex_char n \<in> H"
  shows "set (hex_text bs) \<subseteq> H"
proof -
  have "hex_char (unat b div 16) \<in> H" "hex_char (unat b mod 16) \<in> H" for b :: u8
    using unat_lt_256 [of b] by (intro assms; simp)+
  then show ?thesis
    by (induction bs) (auto simp: hex_text_def)
qed

lemma hex_text_set: "set (hex_text bs) \<subseteq> set ''0123456789abcdef''"
  by (rule hex_text_in, unfold hex_char_def, rule nth_mem) simp

lemma hex_text_plain: "c \<notin> set ''0123456789abcdef'' \<Longrightarrow> c \<notin> set (hex_text bs)"
  using hex_text_set by blast

lemma pcm_output_run:
  "action_parse_and_execute env (Some (pcm_output bs)) w =
    act_audio_pcm env (take 2047 (''ACT:AUDIO_PCM data=\"'' @ hex_text bs @ ''\"'')) w"
proof -
  let ?tok = "''ACT:AUDIO_PCM data=\"'' @ hex_text bs @ ''\"''"
  let ?acts = "actions :: (string \<times> ('a, 'b) handler) list"
  have "find_action ?acts ?tok = Some act_audio_pcm"
    by (simp add: actions_def)
  moreover have "CHR ''>'' \<notin> set ?tok"
    by (simp add: hex_text_plain)
  moreover have "\<forall>a \<in> set ?acts. CHR ''>'' \<notin> set (fst a)"
    using actions_names by blast
  ultimately have "action_loop ?acts env (CHR ''<'' # ?tok @ CHR ''>'' # []) w =
      rbind (act_audio_pcm env (take 2047 ?tok) w) (action_loop ?acts env [])"
    by (intro action_loop_token)
  moreover have "action_loop ?acts env [] = Inr"
    by (rule ext) (simp add: action_loop_plain)
  ultimately show ?thesis
    by (simp add: action_parse_and_execute_def pcm_output_def)
qed

lemma parse_data_hex:
  "parse_param_str (take 2047 (''ACT:AUDIO_PCM data=\"'' @ hex_text bs @ ''\"'')) ''data'' 4096 =
    (if length bs \<le> 1013 then Some (hex_text bs) else None)"
proof (cases "length bs \<le> 1013")
  case True
  have "parse_param_str (''ACT:AUDIO_PCM data=\"'' @ hex_text bs @ ''\"'') ''data'' 4096 =
      Some (take (4096 - 1) (hex_text bs))"
    by (rule parse_param_str_found [where pre = "''ACT:AUDIO_PCM ''" and rest = "[]"])
      (simp_all add: sublist_code hex_text_plain)
  then show ?thesis
    using True by (simp add: hex_text_length)
next
  case False
  have "strstr (''ACT:AUDIO_PCM '' @ (''data'' @ ''=\"'') @ take 2027 (hex_text bs)) (''data'' @ ''=\"'') =
      Some ((''data'' @ ''=\"'') @ take 2027 (hex_text bs))"
    by (rule strstr_first) (simp_all add: sublist_code)
  moreover have "take 2047 (''ACT:AUDIO_PCM data=\"'' @ hex_text bs @ ''\"'') =
      ''ACT:AUDIO_PCM data=\"'' @ take 2027 (hex_text bs)"
    using False by (simp add: hex_text_length)
  moreover have "strchr (take 2027 (hex_text bs)) (CHR 0x22) = None"
    using hex_text_plain [of "CHR 0x22" bs] by (auto simp: strchr_None dest: in_set_takeD)
  ultimately show ?thesis
    using False by (simp add: parse_param_str_def strlcut_def)
qed

subsection \<open>Properties\<close>

text \<open>C24: An output made of plain text and of tokens of known actions runs the handlers of these
  actions one after the other in the order of the text, each on the first 2047 characters of its
  token; and an output in which no action can start changes nothing.\<close>

theorem actions_in_order:
  assumes "list_all (\<lambda>(t, tok). CHR ''<'' \<notin> set t \<and> CHR ''>'' \<notin> set tok \<and>
      find_action (actions :: (string \<times> ('h, 'f) handler) list) tok \<noteq> None) segs"
    and "CHR ''<'' \<notin> set rest" and "\<not> sublist ''<ACT:'' silent"
  shows "action_parse_and_execute env (Some (output_of segs rest)) (w :: ('h, 'f) world) =
      run_tokens env (map snd segs) w \<and>
    action_parse_and_execute env (Some silent) w = Inr w"
  using action_loop_output [OF assms(1,2)] action_loop_silent [OF assms(3)]
  by (simp add: action_parse_and_execute_def)

text \<open>Two of the fourteen actions can never run: their names continue the name of an action that
  stands before them in the table. Without their entries every output does the same, and each of
  the other twelve names selects its own handler.\<close>

theorem actions_shadowed:
  "action_parse_and_execute env out w =
      (case out of None \<Rightarrow> Inr w | Some s \<Rightarrow> action_loop (filter (\<lambda>a. \<not> shadowed a) actions) env s w) \<and>
    list_all (\<lambda>a. find_action actions (fst a) = Some (snd a)) (filter (\<lambda>a. \<not> shadowed a) actions)"
proof
  show "action_parse_and_execute env out w =
      (case out of None \<Rightarrow> Inr w | Some s \<Rightarrow> action_loop (filter (\<lambda>a. \<not> shadowed a) actions) env s w)"
    unfolding action_parse_and_execute_def
    by (cases out) (simp_all add: action_loop_cong [OF find_action_unshadowed])
  show "list_all (\<lambda>a. find_action actions (fst a) = Some (snd a)) (filter (\<lambda>a. \<not> shadowed a) actions)"
    by (simp add: actions_def shadowed_def)
qed

text \<open>C12: Whatever the model says, acting on it through the kernel's heap keeps the memory of
  experiences and the screen well-formed, keeps the waiting results within their buffers and
  changes no byte of memory outside the frame buffer by drawing. With a file layer that respects
  the size of the buffer, the only faults it can run into are a number too large for 64 bits, a
  tone of frequency zero or above the sample rate, and the index of the memory running over; the
  last one only when fewer than one place per 13 characters of output is left in it.\<close>

theorem actions_keep_world:
  fixes env :: "(heap, 'f) act_env"
  assumes "kernel_env env" and "reads_bounded (env_fs env)" and "world_ok w"
  shows "case action_parse_and_execute env (Some out) w of
      Inl e \<Rightarrow> e \<in> {SignedOverflow, DivideByZero} \<or>
        e = BufferOverflow \<and> 4095 < mem_count (wmem w) + length out div 13
    | Inr w' \<Rightarrow> world_ok w' \<and> draws (wdisp w) (wdisp w')"
  using action_loop_acted [OF assms order_refl, of out]
  by (auto simp: action_parse_and_execute_def acted_def split: sum.splits)

definition stub_env :: "(heap, fs_state) act_env" where
  "stub_env = \<lparr>env_malloc = kmalloc, env_release = kfree, env_junk = (\<lambda>_. []), env_fs = fs_stub\<rparr>"

definition first_world :: "(heap, fs_state) world" where
  "first_world = \<lparr>wdisp = small_screen, whda = hda_static,
     wmem = mem_static \<lparr>heap_ptr = 16, heap_end = 65536\<rparr> fs_static, results = [], results_buf = [],
     pcm_bytes = replicate 2048 0, msr_writes = [], nops = 0\<rparr>"

lemma first_world_ok: "world_ok first_world"
proof -
  have "mem_ok heap_ok heap_used (wmem first_world)"
    by (simp add: first_world_def, rule mem_static_ok) (simp add: heap_ok_def HEAP_TOP_def)
  then show ?thesis
    by (simp add: world_ok_def first_world_def results_ok_def MAX_ACTION_RESULTS_def screen_ok_def cursor_ok_def
        geometry_ok_def small_screen_def)
qed

lemma stub_env_ok: "kernel_env stub_env" "reads_bounded (env_fs stub_env)"
  by (simp_all add: kernel_env_def stub_env_def reads_bounded_def fs_stub_def)

theorem actions_in_order_witness:
  "action_parse_and_execute stub_env (Some (output_of [(''a'', ''ACT:AUDIO_STOP''), ('''', ''ACT:SLEEP_MS ms=1'')] ''b''))
      first_world = run_tokens stub_env (map snd [(''a'', ''ACT:AUDIO_STOP''), ('''', ''ACT:SLEEP_MS ms=1'')]) first_world \<and>
    action_parse_and_execute stub_env (Some ''<b>'') first_world = Inr first_world"
  by (rule actions_in_order) (simp_all add: actions_def sublist_code)

theorem actions_keep_world_witness:
  "case action_parse_and_execute stub_env (Some ''<ACT:DISPLAY text=a><ACT:SLEEP_MS ms=2>'') first_world of
      Inl e \<Rightarrow> e \<in> {SignedOverflow, DivideByZero} \<or>
        e = BufferOverflow \<and> 4095 < mem_count (wmem first_world) + length ''<ACT:DISPLAY text=a><ACT:SLEEP_MS ms=2>'' div 13
    | Inr w' \<Rightarrow> world_ok w' \<and> draws (wdisp first_world) (wdisp w')"
  by (rule actions_keep_world [OF stub_env_ok first_world_ok])

text \<open>The results of the actions are fed back whole: from any well-formed world the text is the
  line of every waiting result in order, never cut off by the buffer, and none is waiting
  afterwards. With no result waiting the text is the one of the call before.\<close>

theorem results_fed_back:
  assumes "world_ok w"
  shows "action_get_results_str w = (let buf = (if results w = [] then results_buf w else result_lines (results w))
    in Inr (buf, w\<lparr>results := [], results_buf := buf\<rparr>))"
  using assms by (intro results_str) (simp add: world_ok_def)

theorem results_fed_back_witness:
  "action_get_results_str first_world = (let buf = (if results first_world = [] then results_buf first_world
      else result_lines (results first_world))
    in Inr (buf, first_world\<lparr>results := [], results_buf := buf\<rparr>))"
  by (rule results_fed_back [OF first_world_ok])

text \<open>C29: Whatever the model says, every file the actions write, through the write action and through
  the flush of the memory alike, has an absolute path without two dots in a row: what holds of
  the file system and is kept by reads and by writes to such paths holds afterwards.\<close>

theorem actions_write_safe_paths:
  assumes "\<And>path data f. safe_path path \<Longrightarrow> Q f \<Longrightarrow> Q (snd (fs_write_file_usb (env_fs env) path data f))"
    and "\<And>path n f. Q f \<Longrightarrow> Q (snd (snd (fs_read_file (env_fs env) path n f)))"
    and "Q (fs_state (wmem w))"
  shows "case action_parse_and_execute env out w of Inl e \<Rightarrow> True | Inr w' \<Rightarrow> Q (fs_state (wmem w'))"
  using actions_write [OF assms] assms(3)
  by (auto simp: action_parse_and_execute_def split: sum.splits option.splits)

text \<open>A file layer that notes the paths it is asked to write.\<close>

definition path_log_fs :: "string list fs_ops" where
  "path_log_fs = \<lparr>fs_read_file = (\<lambda>path n f. (-1, [], f)),
     fs_write_file_usb = (\<lambda>path data f. (int (length data), path # f)),
     fs_file_exists = (\<lambda>path f. path \<in> set f), fs_mkdir_usb = (\<lambda>path f. (0, f))\<rparr>"

theorem actions_write_safe_paths_witness:
  "case action_parse_and_execute \<lparr>env_malloc = kmalloc, env_release = kfree, env_junk = (\<lambda>_. []), env_fs = path_log_fs\<rparr>
      (Some ''<ACT:FILE_WRITE path=\"/a/../b\" data=\"x\"><ACT:FILE_WRITE path=\"/a\" data=\"x\">'')
      \<lparr>wdisp = small_screen, whda = hda_static, wmem = mem_static \<lparr>heap_ptr = 16, heap_end = 65536\<rparr> [],
       results = [], results_buf = [], pcm_bytes = [], msr_writes = [], nops = 0\<rparr> of
     Inl e \<Rightarrow> True | Inr w' \<Rightarrow> list_all safe_path (fs_state (wmem w'))"
  by (rule actions_write_safe_paths) (simp_all add: path_log_fs_def)

text \<open>C27: What the model stores under a key it finds again. In a well-formed world on the kernel's own heap, with room for
  one more text and fewer than 4095 entries, a store token with a key of at most 127 and a value of at most 1023 characters,
  neither with a quote, an equals sign or a NUL, appends one semantic entry of importance 1 and tick 0 with the text
  \<open>key: value\<close>. A search for the key then returns exactly the text of that entry, and the recall action records that the
  key was found: the line \<open>MEMORY_RECALL: key=%s value=%s\<close> as it stands, since results are recorded without being
  formatted, not the line for a key that was not found.\<close>

theorem stored_key_recalled:
  assumes "kernel_env env" and "world_ok w" and "mem_count (wmem w) < 4095"
    and "0 < heap_room (heap_state (wmem w))" and "plain_param k" and "plain_param v"
    and "length k \<le> 127" and "length v \<le> 1023"
  shows "\<exists>w'. act_memory_store env (store_token k v) w = Inr w' \<and>
    mem_view (wmem w') = mem_view (wmem w) @ [(MEM_SEMANTIC, 1, 0, k @ '': '' @ v)] \<and>
    aion_memory_search k (wmem w') = Some (content (mem_store (wmem w') (mem_count (wmem w)))) \<and>
    act_memory_recall env (recall_token k) w' = Inr (record_result ''MEMORY_RECALL: key=%s value=%s'' w')"
proof -
  let ?body = "k @ '': '' @ v"
  let ?entry = "\<lparr>in_type = MEM_SEMANTIC, in_importance = 1, in_tick = 0, in_content = Some ?body\<rparr>"
  have m: "mem_ok heap_ok heap_used (wmem w)"
    using assms(2) by (simp add: world_ok_def)
  have body: "in_content ?entry = Some ?body"
    by simp
  obtain m' where m': "aion_memory_store kmalloc kfree (env_junk env) (env_fs env) ?entry (wmem w) = Inr m'"
      and view: "mem_view m' = mem_view (wmem w) @ [new_experience ?entry ?body]"
    using kroomy.aion_memory_store_roomy [OF m assms(4) body assms(3)] by blast
  have new: "new_experience ?entry ?body = (MEM_SEMANTIC, 1, 0, ?body)"
    using assms(7,8) by (simp add: new_experience_def MAX_CONTENT_LEN_def)
  have "strlcut 1200 ?body = ?body"
    using assms(7,8) by (simp add: strlcut_def)
  then have run: "act_memory_store env (store_token k v) w =
      Inr (record_result ''MEMORY_STORE: key=%s stored'' (w\<lparr>wmem := m'\<rparr>))"
    using assms(1) m' unfolding act_memory_store_def store_token_key [OF assms(5,7)]
      store_token_value [OF assms(5,6,8)] store_token_importance [OF assms(5,6)]
    by (simp add: kernel_env_def)
  have count: "mem_count m' = Suc (mem_count (wmem w))"
    using view by (metis length_append_singleton length_mem_view)
  then have "entry_text (ram m') (mem_store m' (mem_count (wmem w))) = ?body"
    using mem_view_nth [of "mem_count (wmem w)" m'] view new
    by (simp add: nth_append entry_view_def)
  moreover have "c_string ?body = ?body"
    using assms(5,6) by (auto simp: c_string_def plain_param_def cstr_def takeWhile_eq_all_conv NUL_def)
  ultimately have "aion_memory_search k m' = Some (content (mem_store m' (mem_count (wmem w))))"
    by (simp add: aion_memory_search_def count strstr_prefix)
  then show ?thesis
    using run view new recall_token_key [OF assms(5,7)] by (simp add: act_memory_recall_def)
qed

theorem stored_key_recalled_witness:
  "\<exists>w'. act_memory_store stub_env (store_token ''name'' ''aion'') first_world = Inr w' \<and>
    mem_view (wmem w') = mem_view (wmem first_world) @ [(MEM_SEMANTIC, 1, 0, ''name'' @ '': '' @ ''aion'')] \<and>
    aion_memory_search ''name'' (wmem w') = Some (content (mem_store (wmem w') (mem_count (wmem first_world)))) \<and>
    act_memory_recall stub_env (recall_token ''name'') w' =
      Inr (record_result ''MEMORY_RECALL: key=%s value=%s'' w')"
  by (rule stored_key_recalled [OF stub_env_ok(1) first_world_ok])
    (simp_all add: first_world_def heap_room_def plain_param_def cstr_def NUL_def)

text \<open>A number printed in decimal reads back as itself when the key's first occurrence precedes it,
  and a number that does not fit a signed 64-bit integer overflows.\<close>

theorem number_param_roundtrip:
  assumes "\<not> sublist (key @ ''='') (pre @ key)" and "length key \<le> 62" and "rest = [] \<or> \<not> is_digit (hd rest)"
  shows "parse_param_int (pre @ key @ ''='' @ dec n @ rest) key out =
    (if n < 2 ^ 63 then Inr (int n) else Inl SignedOverflow)"
  using parse_param_int_found [OF _ assms(1,2)] parse_digits_dec [OF assms(3)] by simp

theorem number_param_roundtrip_witness:
  "parse_param_int (''ACT:SLEEP_MS '' @ ''ms'' @ ''='' @ dec 250 @ ''>'') ''ms'' 0 =
    (if (250 :: nat) < 2 ^ 63 then Inr (int 250) else Inl SignedOverflow)"
  by (rule number_param_roundtrip) (simp_all add: sublist_code is_digit_def schar_def)

text \<open>Bytes of sound written in hexadecimal reach the audio device unchanged, but only up to 1013
  of them: a longer token is cut before its closing quote and does nothing at all, although the
  buffers have room for 2047.\<close>

theorem sound_roundtrip:
  "action_parse_and_execute env (Some (pcm_output bs)) w =
    (if length bs \<le> 1013
     then Inr (record_result ''AUDIO_PCM: sent %d bytes to DAC''
       (w\<lparr>pcm_bytes := bs @ drop (length bs) (pcm_bytes w),
          whda := audio_play_pcm (of_nat (length bs)) (whda w)\<rparr>))
     else Inr w)"
  unfolding pcm_output_run act_audio_pcm_def parse_data_hex
  by (simp add: hex_bytes_text)

definition perf_write :: "u32 \<times> u32 \<times> u32 \<Rightarrow> bool" where
  "perf_write = (\<lambda>(msr, lo, hi). msr = 0x199 \<and> hi = 0 \<and> lo AND 0xFF = 0 \<and> 4 \<le> drop_bit 8 lo \<and> drop_bit 8 lo \<le> 34)"

text \<open>C39: Whatever the model says, the processor frequency stays within the limits the code states: every
  write to a model-specific register is to the performance control register, with a ratio between
  4 and 34 in bits 8 to 15.\<close>

theorem frequency_in_limits:
  assumes "list_all perf_write (msr_writes w)"
  shows "case action_parse_and_execute env out w of Inl e \<Rightarrow> True | Inr w' \<Rightarrow> list_all perf_write (msr_writes w')"
proof -
  have all: "list_all (\<lambda>n. perf_write (0x199, ucast (push_bit 8 (of_nat n :: u64)), 0)) [4..<35]"
    by code_simp
  have ratio: "perf_write (0x199, ucast (push_bit 8 (of_int r :: u64)), 0)" if "4 \<le> r" "r \<le> 34" for r :: int
  proof -
    have "nat r \<in> {4..<35}" and r: "(of_int r :: u64) = of_nat (nat r)"
      using that by (simp_all add: le_nat_iff nat_less_iff)
    then show ?thesis
      unfolding r using all by (simp only: list_all_iff set_upt)
  qed
  have "list_all perf_write (msr_writes w')" if "action_loop actions env s w = Inr w'" for s w'
  proof (rule action_loop_keeps [OF _ _ that, where P = "\<lambda>w. list_all perf_write (msr_writes w)"])
    fix name h tok w1 w2
    assume h: "(name, h) \<in> set actions" "h env tok w1 = Inr w2" "list_all perf_write (msr_writes w1)"
    then show "list_all perf_write (msr_writes w2)"
      by (rule handler_keeps) (simp_all add: ratio)
  qed (use assms in simp)
  then show ?thesis
    using assms by (auto simp: action_parse_and_execute_def split: sum.splits option.splits)
qed

theorem frequency_in_limits_witness:
  "case action_parse_and_execute stub_env (Some ''<ACT:CPU_FREQ_SET mhz=9000>'') first_world of
     Inl e \<Rightarrow> True | Inr w' \<Rightarrow> list_all perf_write (msr_writes w')"
  by (rule frequency_in_limits) (simp add: first_world_def)

end
