(* ===== verification/Llm.thy ===== *)
theory Llm
  imports CString Interfaces
begin

section \<open>The language model runtime\<close>

text \<open>
  \<^verbatim>\<open>consciousness/runtime/llm.c\<close>: the start of the model, the context of tokens lived through so
  far and its compression, and the generation of an answer. The library \<^verbatim>\<open>llama.cpp\<close> is a record
  of its functions over a state of its own; pointers are addresses and 0 is \<open>NULL\<close>.
\<close>

subsection \<open>The library\<close>

type_synonym token = int

datatype sampler = TopP | Temp | Penalties int

record 'l llama =
  llama_load_model_from_file :: "string \<Rightarrow> int \<Rightarrow> 'l \<Rightarrow> u64 \<times> 'l"
  llama_new_context_with_model :: "u64 \<Rightarrow> int \<Rightarrow> int \<Rightarrow> int \<Rightarrow> 'l \<Rightarrow> u64 \<times> 'l"
  llama_free_model :: "u64 \<Rightarrow> 'l \<Rightarrow> 'l"
  llama_free :: "u64 \<Rightarrow> 'l \<Rightarrow> 'l"
  llama_tokenize :: "u64 \<Rightarrow> string \<Rightarrow> nat \<Rightarrow> bool \<Rightarrow> 'l \<Rightarrow> int \<times> token list"
  llama_kv_cache_clear :: "u64 \<Rightarrow> 'l \<Rightarrow> 'l"
  llama_decode :: "u64 \<Rightarrow> token list \<Rightarrow> 'l \<Rightarrow> int \<times> 'l"
  llama_sampler_chain_init :: "'l \<Rightarrow> u64 \<times> 'l"
  llama_sampler_chain_add :: "u64 \<Rightarrow> sampler \<Rightarrow> 'l \<Rightarrow> 'l"
  llama_sampler_free :: "u64 \<Rightarrow> 'l \<Rightarrow> 'l"
  llama_sampler_sample :: "u64 \<Rightarrow> u64 \<Rightarrow> 'l \<Rightarrow> token \<times> 'l"
  llama_token_is_eog :: "u64 \<Rightarrow> token \<Rightarrow> bool"
  llama_token_to_piece :: "u64 \<Rightarrow> token \<Rightarrow> nat \<Rightarrow> int \<times> string"

subsection \<open>State\<close>

definition MODEL_PATH :: string where "MODEL_PATH = ''/AION/consciousness.bin''"
definition CTX_SIZE :: nat where "CTX_SIZE = 4096"
definition BATCH_SIZE :: nat where "BATCH_SIZE = 512"
definition N_THREADS :: nat where "N_THREADS = 4"

record 'l llm =
  model :: u64
  ctx :: u64
  ready :: bool
  context_tokens :: "nat \<Rightarrow> token"
  context_len :: nat
  lib :: 'l
  llm_msr :: "(u32 \<times> u32 \<times> u32) list"

definition llm_static :: "'l \<Rightarrow> 'l llm" where
  "llm_static l = \<lparr>model = 0, ctx = 0, ready = False, context_tokens = (\<lambda>_. 0), context_len = 0, lib = l,
     llm_msr = []\<rparr>"

definition set_ratio :: "u64 \<Rightarrow> 'l llm \<Rightarrow> 'l llm" where
  "set_ratio ratio st = st\<lparr>llm_msr := llm_msr st @ [(0x199, ucast (push_bit 8 ratio), 0)]\<rparr>"

subsection \<open>Start and end\<close>

definition llm_init :: "'l llama \<Rightarrow> 'l llm \<Rightarrow> int \<times> 'l llm" where
  "llm_init api st =
     (let st = set_ratio 34 st;
          (m, l) = llama_load_model_from_file api MODEL_PATH 0 (lib st);
          st = st\<lparr>model := m, lib := l\<rparr>
      in if m = 0 then (-1, st)
         else
           let (c, l) = llama_new_context_with_model api m (int CTX_SIZE) (int BATCH_SIZE) (int N_THREADS) (lib st);
               st = st\<lparr>ctx := c, lib := l\<rparr>
           in if c = 0 then (-2, st\<lparr>lib := llama_free_model api m (lib st)\<rparr>)
              else (0, set_ratio 16 (st\<lparr>ready := True\<rparr>)))"

definition llm_is_ready :: "'l llm \<Rightarrow> bool" where "llm_is_ready st = ready st"
definition llm_context_len :: "'l llm \<Rightarrow> nat" where "llm_context_len st = context_len st"

definition llm_shutdown :: "'l llama \<Rightarrow> 'l llm \<Rightarrow> 'l llm" where
  "llm_shutdown api st =
     (let st = (if ctx st \<noteq> 0 then st\<lparr>lib := llama_free api (ctx st) (lib st), ctx := 0\<rparr> else st);
          st = (if model st \<noteq> 0 then st\<lparr>lib := llama_free_model api (model st) (lib st), model := 0\<rparr> else st)
      in st\<lparr>ready := False\<rparr>)"

subsection \<open>Feeding\<close>

definition tokens_at :: "(nat \<Rightarrow> token) \<Rightarrow> nat \<Rightarrow> nat \<Rightarrow> token list" where
  "tokens_at toks i n = map (\<lambda>j. toks (i + j)) [0..<n]"

definition put_tokens :: "nat \<Rightarrow> token list \<Rightarrow> (nat \<Rightarrow> token) \<Rightarrow> (nat \<Rightarrow> token)" where
  "put_tokens i ts toks = (\<lambda>j. if i \<le> j \<and> j < i + length ts then ts ! (j - i) else toks j)"

text \<open>
  The oldest tokens are forgotten; a negative distance would move tokens from before the array.
\<close>

definition compress :: "'l llama \<Rightarrow> 'l llm \<Rightarrow> 'l llm checked" where
  "compress api st =
     (let keep = CTX_SIZE * 3 div 4
      in if context_len st < keep then Inl BufferOverflow
         else
           let st = st\<lparr>context_tokens :=
                 put_tokens 0 (tokens_at (context_tokens st) (context_len st - keep) keep) (context_tokens st),
                 context_len := keep\<rparr>;
               st = st\<lparr>lib := llama_kv_cache_clear api (ctx st) (lib st)\<rparr>
           in Inr (st\<lparr>lib := snd (llama_decode api (ctx st)
                 (tokens_at (context_tokens st) 0 (context_len st)) (lib st))\<rparr>))"

definition llm_feed :: "'l llama \<Rightarrow> string option \<Rightarrow> 'l llm \<Rightarrow> (int \<times> 'l llm) checked" where
  "llm_feed api input st =
     (case (if ready st then input else None) of
        None \<Rightarrow> Inr (-1, st)
      | Some s \<Rightarrow>
          let (n, new_tokens) = llama_tokenize api (ctx st) s 512 (context_len st = 0) (lib st)
          in if n < 0 then Inr (-1, st)
             else if 512 < n then Inl BufferOverflow
             else
               rbind (if CTX_SIZE - 128 < context_len st + nat n then compress api st else Inr st) (\<lambda>st.
                 if CTX_SIZE < context_len st + nat n then Inl BufferOverflow
                 else
                   let st = st\<lparr>context_tokens :=
                         put_tokens (context_len st) (take (nat n) new_tokens) (context_tokens st),
                         context_len := context_len st + nat n\<rparr>;
                       (r, l) = llama_decode api (ctx st) (take (nat n) new_tokens) (lib st)
                   in Inr (r, st\<lparr>lib := l\<rparr>)))"

subsection \<open>Thinking\<close>

text \<open>The loop, on the rounds left and the output so far.\<close>

primrec think_loop :: "'l llama \<Rightarrow> u64 \<Rightarrow> int \<Rightarrow> nat \<Rightarrow> string \<Rightarrow> 'l llm \<Rightarrow> (string \<times> 'l llm) checked" where
  "think_loop api sampler out_sz 0 out st = Inr (out, st)"
| "think_loop api sampler out_sz (Suc left) out st =
     (let (tok, l) = llama_sampler_sample api sampler (ctx st) (lib st);
          st = st\<lparr>lib := l\<rparr>
      in if llama_token_is_eog api (ctx st) tok then Inr (out, st)
         else
           let (plen, piece) = llama_token_to_piece api (ctx st) tok 63
           in if plen < 0 then Inr (out, st)
              else if 64 \<le> plen then Inl BufferOverflow
              else
                let out = (if int (length out) + plen < out_sz - 1 then out @ take (nat plen) piece else out);
                    st = (if context_len st < CTX_SIZE - 1
                          then st\<lparr>context_tokens := (context_tokens st)(context_len st := tok),
                                 context_len := context_len st + 1\<rparr>
                          else st);
                    (r, l) = llama_decode api (ctx st) [tok] (lib st);
                    st = st\<lparr>lib := l\<rparr>
                in if r \<noteq> 0 then Inr (out, st) else think_loop api sampler out_sz left out st)"

definition llm_think ::
  "'l llama \<Rightarrow> string \<Rightarrow> int \<Rightarrow> int \<Rightarrow> 'l llm \<Rightarrow> (int \<times> string \<times> 'l llm) checked" where
  "llm_think api out_buf out_sz max_tokens st =
     (if \<not> ready st \<or> context_len st = 0 then Inr (-1, out_buf, st)
      else
        let (sampler, l) = llama_sampler_chain_init api (lib st);
            l = llama_sampler_chain_add api sampler TopP l;
            l = llama_sampler_chain_add api sampler Temp l;
            l = llama_sampler_chain_add api sampler (Penalties (int CTX_SIZE)) l
        in rbind (think_loop api sampler out_sz (nat max_tokens) [] (st\<lparr>lib := l\<rparr>)) (\<lambda>(out, st).
             if out_sz \<le> int (length out) then Inl BufferOverflow
             else Inr (int (length out), out, st\<lparr>lib := llama_sampler_free api sampler (lib st)\<rparr>)))"

subsection \<open>What the code relies on\<close>

text \<open>
  The documented bounds of two calls: a call that is given a buffer says how many of its places
  it filled, which are no more than there are, or a negative number.
\<close>

definition api_bounded :: "'l llama \<Rightarrow> bool" where
  "api_bounded api \<longleftrightarrow>
     (\<forall>c s k bos l. (case llama_tokenize api c s k bos l of (n, toks) \<Rightarrow>
        n \<le> int k \<and> (0 \<le> n \<longrightarrow> length toks = nat n))) \<and>
     (\<forall>c tok k. (case llama_token_to_piece api c tok k of (n, piece) \<Rightarrow>
        n \<le> int k \<and> (0 \<le> n \<longrightarrow> length piece = nat n)))"

text \<open>What the library has evaluated since its cache was last cleared.\<close>

definition evaluates :: "'l llama \<Rightarrow> ('l \<Rightarrow> token list) \<Rightarrow> bool" where
  "evaluates api kv \<longleftrightarrow>
     (\<forall>c l. kv (llama_kv_cache_clear api c l) = []) \<and>
     (\<forall>c b l. case llama_decode api c b l of (r, l') \<Rightarrow> kv l' = (if r = 0 then kv l @ b else kv l)) \<and>
     (\<forall>l. kv (snd (llama_sampler_chain_init api l)) = kv l) \<and>
     (\<forall>c s l. kv (llama_sampler_chain_add api c s l) = kv l) \<and>
     (\<forall>c l. kv (llama_sampler_free api c l) = kv l) \<and>
     (\<forall>s c l. kv (snd (llama_sampler_sample api s c l)) = kv l)"

lemma api_tokenize:
  "api_bounded api \<Longrightarrow> llama_tokenize api c s k bos l = (n, toks) \<Longrightarrow> 0 \<le> n \<Longrightarrow> n \<le> int k \<and> length toks = nat n"
  unfolding api_bounded_def by (metis (mono_tags, lifting) case_prod_conv)

lemma api_piece:
  "api_bounded api \<Longrightarrow> llama_token_to_piece api c tok k = (n, piece) \<Longrightarrow> 0 \<le> n \<Longrightarrow> n \<le> int k \<and> length piece = nat n"
  unfolding api_bounded_def by (metis (mono_tags, lifting) case_prod_conv)

subsection \<open>The context as a list\<close>

definition lived :: "'l llm \<Rightarrow> token list" where
  "lived st = tokens_at (context_tokens st) 0 (context_len st)"

lemma length_tokens_at [simp]: "length (tokens_at toks i n) = n"
  by (simp add: tokens_at_def)

lemma tokens_at_nth [simp]: "j < n \<Longrightarrow> tokens_at toks i n ! j = toks (i + j)"
  by (simp add: tokens_at_def)

lemma length_lived [simp]: "length (lived st) = context_len st"
  by (simp add: lived_def)

lemma tokens_at_put: "tokens_at (put_tokens i ts toks) 0 (i + length ts) = tokens_at toks 0 i @ ts"
  by (rule nth_equalityI) (auto simp: put_tokens_def nth_append)

lemma tokens_at_put_here: "tokens_at (put_tokens 0 (tokens_at toks i n) toks) 0 n = tokens_at toks i n"
  by (rule nth_equalityI) (auto simp: put_tokens_def)

lemma tokens_at_drop: "i \<le> m \<Longrightarrow> tokens_at toks i (m - i) = drop i (tokens_at toks 0 m)"
  by (rule nth_equalityI) auto

lemma tokens_at_snoc: "tokens_at (toks(n := tok)) 0 (n + 1) = tokens_at toks 0 n @ [tok]"
  by (rule nth_equalityI) (auto simp: nth_append less_Suc_eq)

lemma lived_fields [simp]:
  "lived (st\<lparr>lib := l\<rparr>) = lived st" "lived (st\<lparr>ready := b\<rparr>) = lived st"
  by (simp_all add: lived_def)

subsection \<open>Feeding\<close>

lemma compress_spec:
  assumes "3072 \<le> context_len st"
  shows "\<exists>st'. compress api st = Inr st' \<and> lived st' = drop (context_len st - 3072) (lived st) \<and>
    context_len st' = 3072 \<and> ready st' = ready st \<and> ctx st' = ctx st \<and> model st' = model st \<and>
    lib st' = snd (llama_decode api (ctx st) (lived st') (llama_kv_cache_clear api (ctx st) (lib st)))"
proof -
  let ?moved = "tokens_at (context_tokens st) (context_len st - 3072) 3072"
  have moved: "?moved = drop (context_len st - 3072) (lived st)"
    using tokens_at_drop [of "context_len st - 3072" "context_len st" "context_tokens st"] assms
    by (simp add: lived_def)
  have "compress api st = Inr (st\<lparr>context_tokens := put_tokens 0 ?moved (context_tokens st), context_len := 3072,
      lib := snd (llama_decode api (ctx st) ?moved (llama_kv_cache_clear api (ctx st) (lib st)))\<rparr>)"
    using assms tokens_at_put_here [of "context_tokens st" "context_len st - 3072" 3072]
    by (simp add: compress_def CTX_SIZE_def)
  then show ?thesis
    using tokens_at_put_here [of "context_tokens st" "context_len st - 3072" 3072]
    by (simp add: lived_def flip: moved [unfolded lived_def])
qed

definition room_made :: "token list \<Rightarrow> nat \<Rightarrow> token list" where
  "room_made ts n = (if 3968 < length ts + n then drop (length ts - 3072) ts else ts)"

lemma feed_spec:
  assumes "api_bounded api" and "context_len st \<le> 4095" and "ready st"
    and call: "llama_tokenize api (ctx st) s 512 (context_len st = 0) (lib st) = (n, toks)"
  shows "if n < 0 then llm_feed api (Some s) st = Inr (-1, st)
    else \<exists>r st'. llm_feed api (Some s) st = Inr (r, st') \<and> lived st' = room_made (lived st) (nat n) @ toks \<and>
      context_len st' \<le> 3968 \<and> ready st' = ready st \<and> ctx st' = ctx st \<and> model st' = model st"
proof (cases "n < 0")
  case True
  then show ?thesis
    using assms(3) call by (simp add: llm_feed_def)
next
  case False
  then have n: "n \<le> 512" "length toks = nat n"
    using api_tokenize [OF assms(1) call] by simp_all
  let ?add = "\<lambda>st. if CTX_SIZE < context_len st + nat n then Inl BufferOverflow
      else let st = st\<lparr>context_tokens := put_tokens (context_len st) (take (nat n) toks) (context_tokens st),
                 context_len := context_len st + nat n\<rparr>;
               (r, l) = llama_decode api (ctx st) (take (nat n) toks) (lib st)
           in Inr (r, st\<lparr>lib := l\<rparr>)"
  have feed: "llm_feed api (Some s) st =
      rbind (if 3968 < context_len st + nat n then compress api st else Inr st) ?add"
    using assms(3) call n False by (simp add: llm_feed_def CTX_SIZE_def)
  have add: "\<exists>r st'. ?add s1 = Inr (r, st') \<and> lived st' = lived s1 @ toks \<and> context_len st' = context_len s1 + nat n \<and>
      ready st' = ready s1 \<and> ctx st' = ctx s1 \<and> model st' = model s1" if "context_len s1 + nat n \<le> 3968" for s1
    using that n tokens_at_put [of "context_len s1" toks "context_tokens s1"]
    by (auto simp: CTX_SIZE_def lived_def Let_def split: prod.splits)
  show ?thesis
  proof (cases "3968 < context_len st + nat n")
    case True
    then have keep: "3072 \<le> context_len st"
      using n False by simp
    obtain s1 where s1: "compress api st = Inr s1" "lived s1 = drop (context_len st - 3072) (lived st)"
        "context_len s1 = 3072" "ready s1 = ready st" "ctx s1 = ctx st" "model s1 = model st"
      using compress_spec [OF keep, of api] by blast
    have small: "context_len s1 + nat n \<le> 3968"
      using s1(3) n by simp
    obtain r st' where "?add s1 = Inr (r, st')" "lived st' = lived s1 @ toks" "context_len st' = context_len s1 + nat n"
        "ready st' = ready s1" "ctx st' = ctx s1" "model st' = model s1"
      using add [OF small] by blast
    then show ?thesis
      using small s1 True False by (simp add: feed room_made_def)
  next
    case small: False
    then have "context_len st + nat n \<le> 3968"
      by simp
    then obtain r st' where "?add st = Inr (r, st')" "lived st' = lived st @ toks" "context_len st' = context_len st + nat n"
        "ready st' = ready st" "ctx st' = ctx st" "model st' = model st"
      using add [of st] by blast
    then show ?thesis
      using small False by (simp add: feed room_made_def)
  qed
qed

subsection \<open>Thinking\<close>

text \<open>One round of the loop: it stops before a token, or takes one into the context and the output.\<close>

definition token_taken :: "int \<Rightarrow> token \<Rightarrow> string \<times> 'l llm \<Rightarrow> string \<times> 'l llm \<Rightarrow> bool" where
  "token_taken out_sz tok = (\<lambda>(out, st) (out', st'). (\<exists>more. out' = out @ more) \<and>
     (int (length out') < out_sz - 1 \<or> out' = []) \<and> lived st' = lived st @ take (4095 - context_len st) [tok] \<and>
     context_len st' = min 4095 (context_len st + 1) \<and> ready st' = ready st \<and> ctx st' = ctx st \<and> model st' = model st)"

lemma think_step:
  assumes "api_bounded api" and "context_len st \<le> 4095" and "int (length out) < out_sz - 1 \<or> out = []"
  obtains (stop) l where "think_loop api sampler out_sz (Suc left) out st = Inr (out, st\<lparr>lib := l\<rparr>)"
  | (last) tok out' st' where "think_loop api sampler out_sz (Suc left) out st = Inr (out', st')"
      "token_taken out_sz tok (out, st) (out', st')"
  | (more) tok out' st' where
      "think_loop api sampler out_sz (Suc left) out st = think_loop api sampler out_sz left out' st'"
      "token_taken out_sz tok (out, st) (out', st')"
proof -
  obtain tok l where sample: "llama_sampler_sample api sampler (ctx st) (lib st) = (tok, l)"
    by fastforce
  obtain plen piece where pc: "llama_token_to_piece api (ctx st) tok 63 = (plen, piece)"
    by fastforce
  show thesis
  proof (cases "llama_token_is_eog api (ctx st) tok \<or> plen < 0")
    case True
    then show thesis
      by (intro stop [of l]) (auto simp: sample pc Let_def)
  next
    case False
    then have p: "plen \<le> 63" "length piece = nat plen" "\<not> plen < 0"
      using api_piece [OF assms(1) pc] by simp_all
    obtain r l' where dec: "llama_decode api (ctx st) [tok] l = (r, l')"
      by fastforce
    define out1 where "out1 = (if int (length out) + plen < out_sz - 1 then out @ piece else out)"
    define s1 where "s1 = (if context_len st < 4095
        then st\<lparr>lib := l, context_tokens := (context_tokens st)(context_len st := tok), context_len := context_len st + 1\<rparr>
        else st\<lparr>lib := l\<rparr>)\<lparr>lib := l'\<rparr>"
    have "lived s1 = lived st @ take (4095 - context_len st) [tok]" "context_len s1 = min 4095 (context_len st + 1)"
      using assms(2) tokens_at_snoc [of "context_tokens st" "context_len st" tok]
      by (auto simp: s1_def lived_def take_Cons')
    then have taken: "token_taken out_sz tok (out, st) (out1, s1)"
      using assms(3) p by (auto simp: token_taken_def out1_def s1_def)
    have "think_loop api sampler out_sz (Suc left) out st =
        (if r \<noteq> 0 then Inr (out1, s1) else think_loop api sampler out_sz left out1 s1)"
      using False p dec by (auto simp: sample pc out1_def s1_def CTX_SIZE_def Let_def)
    then show thesis
      using last [OF _ taken] more [OF _ taken] by (cases "r = 0") simp_all
  qed
qed

lemma think_loop_spec:
  assumes "api_bounded api" and "context_len st \<le> 4095" and "int (length out) < out_sz - 1 \<or> out = []"
  shows "\<exists>toks out' st'. think_loop api sampler out_sz left out st = Inr (out @ out', st') \<and> length toks \<le> left \<and>
    lived st' = lived st @ take (4095 - context_len st) toks \<and> ready st' = ready st \<and> ctx st' = ctx st \<and>
    model st' = model st \<and> (int (length (out @ out')) < out_sz - 1 \<or> out @ out' = [])"
  using assms(2,3)
proof (induction left arbitrary: out st)
  case 0
  then show ?case
    by (intro exI [of _ "[]"] exI [of _ st]) simp
next
  case (Suc left)
  from assms(1) Suc.prems show ?case
  proof (cases rule: think_step [where sampler = sampler and left = left])
    case (stop l)
    then show ?thesis
      using Suc.prems by (intro exI [of _ "[]"] exI [of _ "st\<lparr>lib := l\<rparr>"]) simp
  next
    case (last tok out1 s1)
    then show ?thesis
      by (intro exI [of _ "[tok]"]) (auto simp: token_taken_def)
  next
    case (more tok out1 s1)
    then have c: "context_len s1 \<le> 4095" "int (length out1) < out_sz - 1 \<or> out1 = []"
      by (simp_all add: token_taken_def)
    obtain toks out' st' where IH: "think_loop api sampler out_sz left out1 s1 = Inr (out1 @ out', st')"
        "length toks \<le> left" "lived st' = lived s1 @ take (4095 - context_len s1) toks"
        "ready st' = ready s1" "ctx st' = ctx s1" "model st' = model s1"
        "int (length (out1 @ out')) < out_sz - 1 \<or> out1 @ out' = []"
      using Suc.IH [OF c] by auto
    have "take (4095 - context_len st) [tok] @ take (4095 - context_len s1) toks = take (4095 - context_len st) (tok # toks)"
      using Suc.prems(1) more(2) by (cases "context_len st < 4095") (auto simp: token_taken_def take_Cons')
    then show ?thesis
      using IH more by (intro exI [of _ "tok # toks"]) (auto simp: token_taken_def)
  qed
qed

lemma llm_think_spec:
  assumes "api_bounded api" and "context_len st \<le> 4095" and "ready st" and "context_len st \<noteq> 0" and "1 \<le> out_sz"
  shows "\<exists>toks out st'. llm_think api buf out_sz max_tokens st = Inr (int (length out), out, st') \<and>
    length toks \<le> nat max_tokens \<and> lived st' = lived st @ take (4095 - context_len st) toks \<and>
    context_len st' \<le> 4095 \<and> ready st' = ready st \<and> ctx st' = ctx st \<and> model st' = model st \<and>
    (int (length out) < out_sz - 1 \<or> out = [])"
proof -
  obtain sampler l0 where chain: "llama_sampler_chain_init api (lib st) = (sampler, l0)"
    by fastforce
  define l where "l = llama_sampler_chain_add api sampler (Penalties (int CTX_SIZE))
      (llama_sampler_chain_add api sampler Temp (llama_sampler_chain_add api sampler TopP l0))"
  let ?st = "st\<lparr>lib := l\<rparr>"
  obtain toks out st' where t: "think_loop api sampler out_sz (nat max_tokens) [] ?st = Inr (out, st')"
      "length toks \<le> nat max_tokens" "lived st' = lived st @ take (4095 - context_len st) toks"
      "ready st' = ready st" "ctx st' = ctx st" "model st' = model st" "int (length out) < out_sz - 1 \<or> out = []"
    using think_loop_spec [OF assms(1), of ?st "[]" out_sz sampler "nat max_tokens"] assms(2) by auto
  let ?freed = "st'\<lparr>lib := llama_sampler_free api sampler (lib st')\<rparr>"
  have "llm_think api buf out_sz max_tokens st = Inr (int (length out), out, ?freed)"
    using assms(3-5) t(1,7) chain by (auto simp: llm_think_def l_def Let_def)
  moreover have "context_len st' \<le> 4095"
    using arg_cong [OF t(3), of length] assms(2) by simp
  ultimately show ?thesis
    using t by (intro exI [of _ toks] exI [of _ out] exI [of _ ?freed]) simp
qed

subsection \<open>Any sequence of calls\<close>

datatype llm_op = Feed "string option" | Think string int int

primrec llm_step :: "'l llama \<Rightarrow> llm_op \<Rightarrow> 'l llm \<Rightarrow> 'l llm checked" where
  "llm_step api (Feed input) st = rbind (llm_feed api input st) (\<lambda>(r, st). Inr st)"
| "llm_step api (Think buf out_sz max_tokens) st =
     rbind (llm_think api buf out_sz max_tokens st) (\<lambda>(r, out, st). Inr st)"

definition llm_inv :: "'l llm \<Rightarrow> bool" where "llm_inv st \<longleftrightarrow> context_len st \<le> 4095"

definition llm_allowed :: "'l llama \<Rightarrow> llm_op \<Rightarrow> 'l llm \<Rightarrow> bool" where
  "llm_allowed api op st \<longleftrightarrow> api_bounded api \<and> (case op of Feed input \<Rightarrow> True | Think buf out_sz n \<Rightarrow> 1 \<le> out_sz)"

lemma llm_step_inv:
  assumes "llm_inv st" and "llm_allowed api op st"
  shows "\<exists>st'. llm_step api op st = Inr st' \<and> llm_inv st'"
proof (cases op)
  case (Feed input)
  show ?thesis
  proof (cases "if ready st then input else None")
    case None
    then show ?thesis
      using assms(1) Feed by (simp add: llm_feed_def)
  next
    case (Some s)
    then have r: "ready st" "input = Some s"
      by (simp_all split: if_splits)
    obtain n toks where call: "llama_tokenize api (ctx st) s 512 (context_len st = 0) (lib st) = (n, toks)"
      by fastforce
    show ?thesis
      using feed_spec [OF _ _ r(1) call] assms Feed r(2)
      by (fastforce simp: llm_inv_def llm_allowed_def split: if_splits)
  qed
next
  case (Think buf out_sz k)
  show ?thesis
  proof (cases "\<not> ready st \<or> context_len st = 0")
    case True
    then show ?thesis
      using assms(1) Think by (auto simp: llm_think_def)
  next
    case False
    then show ?thesis
      using llm_think_spec [of api st out_sz buf k] assms Think
      by (fastforce simp: llm_inv_def llm_allowed_def)
  qed
qed

interpretation llm_sys: invariant_system "llm_step api" "llm_allowed api" llm_inv for api
proof
  show "\<exists>s'. llm_step api op s = Inr s'" if "llm_inv s" "llm_allowed api op s" for op s
    using llm_step_inv [OF that] by blast
  show "llm_inv s'" if "llm_inv s" "llm_allowed api op s" "llm_step api op s = Inr s'" for op s s'
    using llm_step_inv [OF that(1,2)] that(3) by auto
qed

subsection \<open>What the model has evaluated\<close>

text \<open>The limit on a batch the context was created with.\<close>

definition refuses_long :: "'l llama \<Rightarrow> bool" where
  "refuses_long api \<longleftrightarrow> (\<forall>c b l. BATCH_SIZE < length b \<longrightarrow> fst (llama_decode api c b l) \<noteq> 0)"

lemma evaluates_decode:
  "evaluates api kv \<Longrightarrow> llama_decode api c b l = (r, l') \<Longrightarrow> kv l' = (if r = 0 then kv l @ b else kv l)"
  unfolding evaluates_def by (metis (mono_tags, lifting) case_prod_conv)

lemma feed_evaluated:
  assumes "evaluates api kv" and "kv (lib st) = lived st" and "ready st" and "context_len st \<le> 4095"
    and "llama_tokenize api (ctx st) s 512 (context_len st = 0) (lib st) = (n, toks)"
    and "api_bounded api" and "0 \<le> n" and run: "llm_feed api (Some s) st = Inr (0, st')"
  shows "if context_len st + nat n \<le> 3968 then kv (lib st') = lived st'
    else refuses_long api \<longrightarrow> kv (lib st') = toks"
proof -
  have n: "n \<le> 512" "length toks = nat n"
    using api_tokenize [OF assms(6,5,7)] by simp_all
  show ?thesis
  proof (cases "context_len st + nat n \<le> 3968")
    case True
    obtain r l where dec: "llama_decode api (ctx st) toks (lib st) = (r, l)"
      by fastforce
    then have "r = 0" "st' = st\<lparr>context_tokens := put_tokens (context_len st) toks (context_tokens st),
        context_len := context_len st + nat n, lib := l\<rparr>"
      using run assms(3,5,7) n True by (auto simp: llm_feed_def CTX_SIZE_def split: if_splits)
    then show ?thesis
      using evaluates_decode [OF assms(1) dec] assms(2) n True tokens_at_put [of "context_len st" toks "context_tokens st"]
      by (simp add: lived_def)
  next
    case False
    then have keep: "3072 \<le> context_len st"
      using n by simp
    obtain s1 where s1: "compress api st = Inr s1" "context_len s1 = 3072"
        "lib s1 = snd (llama_decode api (ctx st) (lived s1) (llama_kv_cache_clear api (ctx st) (lib st)))"
      using compress_spec [OF keep, of api] by blast
    obtain r l where dec: "llama_decode api (ctx s1) toks (lib s1) = (r, l)"
      by fastforce
    have "r = 0" "lib st' = l"
      using run assms(3,5,7) n False s1(1,2) dec by (auto simp: llm_feed_def CTX_SIZE_def split: if_splits)
    then have "kv (lib st') = kv (lib s1) @ toks"
      using evaluates_decode [OF assms(1) dec] by simp
    moreover have "kv (lib s1) = []" if "refuses_long api"
    proof -
      obtain r' l' where d: "llama_decode api (ctx st) (lived s1) (llama_kv_cache_clear api (ctx st) (lib st)) = (r', l')"
        by fastforce
      have "BATCH_SIZE < length (lived s1)"
        by (simp add: s1(2) BATCH_SIZE_def)
      then have "r' \<noteq> 0"
        using that d unfolding refuses_long_def by (metis fst_conv)
      then show ?thesis
        using evaluates_decode [OF assms(1) d] s1(3) d assms(1) by (simp add: evaluates_def)
    qed
    ultimately show ?thesis
      using False by simp
  qed
qed

subsection \<open>Properties\<close>

text \<open>A library that behaves: its state is what it has evaluated, a token is a character.\<close>

definition echo_llama :: "token list llama" where
  "echo_llama = \<lparr>llama_load_model_from_file = (\<lambda>path n l. (0x1000, l)),
     llama_new_context_with_model = (\<lambda>m n b t l. (0x2000, l)),
     llama_free_model = (\<lambda>m l. l), llama_free = (\<lambda>c l. l),
     llama_tokenize = (\<lambda>c s k bos l. (int (length (take k s)), map (\<lambda>x. int (of_char x)) (take k s))),
     llama_kv_cache_clear = (\<lambda>c l. []),
     llama_decode = (\<lambda>c b l. if BATCH_SIZE < length b then (1, l) else (0, l @ b)),
     llama_sampler_chain_init = (\<lambda>l. (0x3000, l)), llama_sampler_chain_add = (\<lambda>c s l. l),
     llama_sampler_free = (\<lambda>c l. l), llama_sampler_sample = (\<lambda>s c l. (66, l)),
     llama_token_is_eog = (\<lambda>c tok. tok = 0),
     llama_token_to_piece = (\<lambda>c tok k. (int (length (take k ''B'')), take k ''B''))\<rparr>"

lemma echo_llama_ok: "api_bounded echo_llama" "evaluates echo_llama (\<lambda>l. l)" "refuses_long echo_llama"
  by (simp_all add: api_bounded_def evaluates_def refuses_long_def echo_llama_def)

definition awake :: "nat \<Rightarrow> token list llm" where
  "awake n = \<lparr>model = 0x1000, ctx = 0x2000, ready = True, context_tokens = (\<lambda>_. 65), context_len = n,
     lib = replicate n 65, llm_msr = []\<rparr>"

lemma awake_lived: "lived (awake n) = replicate n 65"
  by (rule nth_equalityI) (simp_all add: lived_def awake_def)

text \<open>C30: With a library that keeps to the sizes of the buffers it is given, any sequence of texts fed and
  answers generated runs without touching memory outside the token array, the piece or the output
  buffer, and the context never holds more than 4095 tokens.\<close>

theorem llm_runs_safe:
  assumes "api_bounded api" and "context_len st \<le> 4095"
    and "list_all (\<lambda>op. case op of Feed input \<Rightarrow> True | Think buf out_sz n \<Rightarrow> 1 \<le> out_sz) ops"
  shows "\<exists>st'. llm_sys.run api st ops st' \<and> context_len st' \<le> 4095"
proof -
  have "\<exists>st'. llm_sys.run api st ops st' \<and> llm_inv st'"
    using assms by (intro llm_sys.run_total) (auto simp: llm_inv_def llm_allowed_def list_all_iff)
  then show ?thesis
    by (simp add: llm_inv_def)
qed

theorem llm_runs_safe_witness:
  "\<exists>st'. llm_sys.run echo_llama (awake 4000) [Feed (Some ''boot''), Think [] 4096 256, Feed None] st' \<and>
    context_len st' \<le> 4095"
  by (rule llm_runs_safe [OF echo_llama_ok(1)]) (simp_all add: awake_def)

text \<open>C31: A text fed becomes the newest tokens of the context. When they would leave fewer than 128 places
  free, all but the newest 3072 tokens are forgotten first; nothing else of the context changes,
  and it then holds at most 3968 tokens. A text the tokenizer rejects changes nothing.\<close>

theorem feed_appends:
  assumes "api_bounded api" and "context_len st \<le> 4095" and "ready st"
    and "llama_tokenize api (ctx st) s 512 (context_len st = 0) (lib st) = (n, toks)"
  shows "if n < 0 then llm_feed api (Some s) st = Inr (-1, st)
    else \<exists>r st'. llm_feed api (Some s) st = Inr (r, st') \<and> lived st' = room_made (lived st) (nat n) @ toks \<and>
      context_len st' \<le> 3968 \<and> ready st' = ready st \<and> ctx st' = ctx st \<and> model st' = model st"
  using assms by (rule feed_spec)

theorem feed_appends_witness:
  "if (2 :: int) < 0 then llm_feed echo_llama (Some ''AB'') (awake 3967) = Inr (-1, awake 3967)
    else \<exists>r st'. llm_feed echo_llama (Some ''AB'') (awake 3967) = Inr (r, st') \<and>
      lived st' = room_made (lived (awake 3967)) (nat 2) @ [65, 66] \<and>
      context_len st' \<le> 3968 \<and> ready st' = ready (awake 3967) \<and> ctx st' = ctx (awake 3967) \<and>
      model st' = model (awake 3967)"
  by (rule feed_appends [OF echo_llama_ok(1)]) (simp_all add: awake_def echo_llama_def)

text \<open>An answer ends after at most the tokens asked for; its text with the closing NUL fits the
  buffer with a place to spare, its length is what is returned, and the context grows by the tokens
  generated as long as it has fewer than 4095: what is generated beyond is not remembered.\<close>

theorem think_output:
  assumes "api_bounded api" and "context_len st \<le> 4095" and "ready st" and "context_len st \<noteq> 0" and "1 \<le> out_sz"
  shows "\<exists>toks out st'. llm_think api buf out_sz max_tokens st = Inr (int (length out), out, st') \<and>
    length toks \<le> nat max_tokens \<and> lived st' = lived st @ take (4095 - context_len st) toks \<and>
    context_len st' \<le> 4095 \<and> (int (length out) < out_sz - 1 \<or> out = [])"
  using llm_think_spec [OF assms, of buf max_tokens] by blast

theorem think_output_witness:
  "\<exists>toks out st'. llm_think echo_llama [] 4096 256 (awake 3968) = Inr (int (length out), out, st') \<and>
    length toks \<le> nat 256 \<and> lived st' = lived (awake 3968) @ take (4095 - context_len (awake 3968)) toks \<and>
    context_len st' \<le> 4095 \<and> (int (length out) < 4096 - 1 \<or> out = [])"
  by (rule think_output [OF echo_llama_ok(1)]) (simp_all add: awake_def)

text \<open>C32: What one feed leaves the model with. Take a library that evaluates a batch whole when it accepts it and else
  leaves its cache as it was, keeps its bounds, and refuses batches above the 512 tokens the context was created with; a ready
  model whose cache holds exactly the context the code keeps, of at most 4095 tokens; a text that tokenizes to
  \<open>n\<close> tokens; and a feed of it that returns 0. If the tokens fit without compression, the cache again holds exactly
  the context. If they do not, the compression evaluates 3072 tokens in one batch, whose refusal is not looked at: the code's
  context is its newest tokens and the new ones, and the cache holds the new tokens only.\<close>

theorem context_evaluated:
  assumes "evaluates api kv" and "refuses_long api" and "api_bounded api" and "kv (lib st) = lived st"
    and "ready st" and "context_len st \<le> 4095" and "0 \<le> n"
    and "llama_tokenize api (ctx st) s 512 (context_len st = 0) (lib st) = (n, toks)"
    and "llm_feed api (Some s) st = Inr (0, st')"
  shows "if context_len st + nat n \<le> 3968 then kv (lib st') = lived st'
    else kv (lib st') = toks \<and> lived st' = room_made (lived st) (nat n) @ toks"
proof -
  have "lived st' = room_made (lived st) (nat n) @ toks"
    using feed_spec [OF assms(3,6,5,8)] assms(7,9) by auto
  then show ?thesis
    using feed_evaluated [OF assms(1,4,5,6,8,3,7,9)] assms(2) by (simp split: if_splits)
qed

theorem context_evaluated_witness:
  "\<exists>st'. llm_feed echo_llama (Some ''AB'') (awake 3967) = Inr (0, st') \<and>
    (if context_len (awake 3967) + nat 2 \<le> 3968 then lib st' = lived st'
     else lib st' = [65, 66] \<and> lived st' = room_made (lived (awake 3967)) (nat 2) @ [65, 66])"
proof -
  obtain st' where run: "llm_feed echo_llama (Some ''AB'') (awake 3967) = Inr (0, st')"
    by (simp add: llm_feed_def awake_def echo_llama_def compress_def CTX_SIZE_def BATCH_SIZE_def Let_def)
  have lib: "lib (awake 3967) = lived (awake 3967)"
    by (simp add: awake_lived) (simp add: awake_def)
  show ?thesis
    using context_evaluated [OF echo_llama_ok(2,3,1) lib _ _ _ _ run, of 2 "[65, 66]"] run
    by (auto simp: awake_def echo_llama_def)
qed

text \<open>The model is ready exactly after a start that returns 0, and the processor is back at its normal
  frequency only then: both failures leave it at the highest. The second one also leaves the
  pointer to the model it has released, and a shutdown releases that model again.\<close>

theorem llm_init_outcome:
  "case llm_init api st of (r, st') \<Rightarrow>
    if r = 0 then ready st' \<and> model st' \<noteq> 0 \<and> ctx st' \<noteq> 0 \<and>
      llm_msr st' = llm_msr st @ [(0x199, 0x2200, 0), (0x199, 0x1000, 0)]
    else ready st' = ready st \<and> llm_msr st' = llm_msr st @ [(0x199, 0x2200, 0)] \<and>
      (if r = -2 then model st' \<noteq> 0 \<and> ctx st' = 0 \<and> (\<exists>l. lib st' = llama_free_model api (model st') l) \<and>
         lib (llm_shutdown api st') = llama_free_model api (model st') (lib st')
       else r = -1 \<and> model st' = 0)"
  by (auto simp: llm_init_def llm_shutdown_def set_ratio_def Let_def split: prod.splits)

end
