(* ===== verification/Consciousness.thy ===== *)
theory Consciousness
  imports Action Llm Senses MemoryMgr
begin

section \<open>The life of the program\<close>

text \<open>
  \<^verbatim>\<open>consciousness/core/consciousness.c\<close>: waking up, and one round of the loop that never ends:
  sense, feed, think, act, remember. What a round reads of the machine (the time-stamp counter, the
  device memory, the state of the drivers, of the frames and of the swap) is its argument.
\<close>

subsection \<open>State\<close>

record surroundings =
  now :: u64
  devmem :: byte_mem
  s_cam :: cam
  s_mic :: mic
  s_net :: NetworkStatus
  s_fs :: fs_state
  s_pmm :: pmm
  s_swap :: swap

record ('h, 'f, 'l) mind =
  life_tick :: u64
  output_buf :: string
  sense_buf :: string
  mworld :: "('h, 'f) world"
  mllm :: "'l llm"
  msenses :: senses

definition FIRST_SIGNAL :: string where
  "FIRST_SIGNAL = ''boot:0 '' @ ''ram:4096MB '' @ ''storage:128GB '' @ ''display:1366x768 '' @
     ''audio:present '' @ ''camera:present '' @ ''mic:present '' @ ''network:present'' @ [CHR 0x0A]"

text \<open>Start-up either ends or halts the processor for good.\<close>

datatype 'a start = Awake 'a | Halted 'a

subsection \<open>Waking up\<close>

definition consciousness_init ::
  "('h, 'f) act_env \<Rightarrow> 'l llama \<Rightarrow> u64 \<Rightarrow> ('h, 'f, 'l) mind \<Rightarrow> ('h, 'f, 'l) mind start checked" where
  "consciousness_init env api tsc m =
     rbind (senses_init tsc (msenses m)) (\<lambda>s.
       let m = m\<lparr>msenses := s\<rparr>;
           m = m\<lparr>mworld := (mworld m)\<lparr>wmem := aion_memory_init (env_fs env) (wmem (mworld m))\<rparr>\<rparr>;
           (r, l) = llm_init api (mllm m);
           m = m\<lparr>mllm := l\<rparr>
       in if r \<noteq> 0 then Inr (Halted m)
          else if \<not> aion_memory_has_store (env_fs env) (wmem (mworld m))
          then rbind (llm_feed api (Some FIRST_SIGNAL) (mllm m)) (\<lambda>(r, l). Inr (Awake (m\<lparr>mllm := l\<rparr>)))
          else rbind (aion_memory_load_all (env_malloc env) (env_fs env) (wmem (mworld m))) (\<lambda>mem.
                 Inr (Awake (m\<lparr>mworld := (mworld m)\<lparr>wmem := mem\<rparr>\<rparr>))))"

subsection \<open>Sensing\<close>

definition udec :: "'a::len word \<Rightarrow> string" where "udec w = dec (unat w)"

definition bdec :: "bool \<Rightarrow> string" where "bdec b = (if b then ''1'' else ''0'')"

text \<open>The pieces printed one after the other into the buffer.\<close>

definition sense_pieces :: "u64 \<Rightarrow> SenseSnapshot \<Rightarrow> MemoryStatus \<Rightarrow> string list" where
  "sense_pieces t snap mem =
     [''t:'' @ udec t @ '' ''] @
     (if camera_available snap
      then [''cam:'' @ udec (snap_width (camera_frame snap)) @ '','' @ udec (snap_height (camera_frame snap)) @
            '',luma:'' @ udec (mean_luma (camera_frame snap)) @
            '',delta:'' @ udec (motion_delta (camera_frame snap)) @ '' '']
      else []) @
     (if mic_available snap
      then [''mic:rms:'' @ udec (amplitude_rms (mic_snap snap)) @ '',silence:'' @
            bdec (is_silence (mic_snap snap)) @ '' '']
      else []) @
     (if network_available snap
      then [''net:'' @ bdec (connected (network snap)) @ '',rx:'' @ udec (rx_total (network snap)) @ '' '']
      else []) @
     [''mem_free:'' @ udec (free_physical mem div (1024 * 1024)) @ [CHR 0x0A]]"

definition sense_signal :: "u64 \<Rightarrow> SenseSnapshot \<Rightarrow> MemoryStatus \<Rightarrow> string \<Rightarrow> string checked" where
  "sense_signal t snap mem buf =
     rbind (snprintf_all 2048 (sense_pieces t snap mem) (0, buf)) (\<lambda>(pos, buf).
       if 2048 \<le> pos then Inl BufferOverflow else Inr (take pos buf))"

subsection \<open>One round of life\<close>

text \<open>What a thought leads to: its actions, and its place in the memory of experiences.\<close>

definition act_and_remember ::
  "('h, 'f) act_env \<Rightarrow> u64 \<Rightarrow> string \<Rightarrow> ('h, 'f) world \<Rightarrow> ('h, 'f) world checked" where
  "act_and_remember env t out w =
     rbind (action_parse_and_execute env (Some (c_string out)) w) (\<lambda>w.
       let entry = \<lparr>in_type = MEM_EPISODIC, in_importance = 1, in_tick = t, in_content = Some (c_string out)\<rparr>
       in rbind (aion_memory_store (env_malloc env) (env_release env) (env_junk env) (env_fs env) entry (wmem w))
            (\<lambda>mem. Inr (w\<lparr>wmem := mem\<rparr>)))"

definition perceive_and_think ::
  "'l llama \<Rightarrow> surroundings \<Rightarrow> ('h, 'f, 'l) mind \<Rightarrow> (int \<times> ('h, 'f, 'l) mind) checked" where
  "perceive_and_think api sur m =
     (let m = m\<lparr>life_tick := life_tick m + 1\<rparr>
      in rbind (senses_capture (now sur) (devmem sur) (s_cam sur) (s_mic sur) (s_net sur) (s_fs sur) (msenses m))
           (\<lambda>(snap, s).
         let m = m\<lparr>msenses := s\<rparr>
         in rbind (sense_signal (life_tick m) snap (memory_get_status (s_pmm sur) (s_swap sur)) (sense_buf m)) (\<lambda>sig.
            let m = m\<lparr>sense_buf := sig\<rparr>
            in rbind (llm_feed api (Some sig) (mllm m)) (\<lambda>(r, l).
               let m = m\<lparr>mllm := l\<rparr>
               in rbind (llm_think api (output_buf m) 4096 256 (mllm m)) (\<lambda>(len, out, l).
                  Inr (len, m\<lparr>mllm := l, output_buf := out\<rparr>))))))"

definition live_tick ::
  "('h, 'f) act_env \<Rightarrow> 'l llama \<Rightarrow> surroundings \<Rightarrow> ('h, 'f, 'l) mind \<Rightarrow> ('h, 'f, 'l) mind checked" where
  "live_tick env api sur m =
     rbind (perceive_and_think api sur m) (\<lambda>(len, m).
       if len \<le> 0 then Inr m
       else rbind (act_and_remember env (life_tick m) (output_buf m) (mworld m)) (\<lambda>w. Inr (m\<lparr>mworld := w\<rparr>)))"

text \<open>The loop for as long as it is watched: one round for each state of the surroundings.\<close>

primrec consciousness_run ::
  "('h, 'f) act_env \<Rightarrow> 'l llama \<Rightarrow> surroundings list \<Rightarrow> ('h, 'f, 'l) mind \<Rightarrow> ('h, 'f, 'l) mind checked" where
  "consciousness_run env api [] m = Inr m"
| "consciousness_run env api (sur # surs) m =
     rbind (live_tick env api sur m) (consciousness_run env api surs)"

definition consciousness_get_tick :: "('h, 'f, 'l) mind \<Rightarrow> u64" where
  "consciousness_get_tick m = life_tick m"

subsection \<open>The signal fits its buffer\<close>

lemma udec_length: "LENGTH('a::len) \<le> 64 \<Longrightarrow> length (udec (w :: 'a word)) \<le> 20"
proof -
  assume len: "LENGTH('a) \<le> 64"
  have "unat w < 2 ^ LENGTH('a)"
    by simp
  also have "(2 :: nat) ^ LENGTH('a) \<le> 2 ^ 64"
    using len by (intro power_increasing) simp_all
  also have "(2 :: nat) ^ 64 \<le> 10 ^ Suc 19"
    by simp
  finally show ?thesis
    using dec_length [of "unat w" 19] by (simp add: udec_def)
qed

lemma sense_pieces_length: "length (concat (sense_pieces t snap mem)) \<le> 400"
  using udec_length [of t] udec_length [of "snap_width (camera_frame snap)"] udec_length [of "snap_height (camera_frame snap)"]
    udec_length [of "mean_luma (camera_frame snap)"] udec_length [of "motion_delta (camera_frame snap)"]
    udec_length [of "amplitude_rms (mic_snap snap)"] udec_length [of "rx_total (network snap)"]
    udec_length [of "free_physical mem div (1024 * 1024)"]
  by (simp add: sense_pieces_def bdec_def)

lemma sense_signal_exact: "sense_signal t snap mem buf = Inr (concat (sense_pieces t snap mem))"
proof -
  have "snprintf_all 2048 (sense_pieces t snap mem) (0, buf) =
      Inr (length (concat (sense_pieces t snap mem)), concat (sense_pieces t snap mem))"
    using sense_pieces_length [of t snap mem] by (intro snprintf_all_start) (simp_all add: sense_pieces_def)
  then show ?thesis
    using sense_pieces_length [of t snap mem] by (simp add: sense_signal_def)
qed

subsection \<open>What a round keeps\<close>

definition surroundings_ok :: "surroundings \<Rightarrow> bool" where
  "surroundings_ok sur \<longleftrightarrow> (cam_ready (s_cam sur) \<longrightarrow>
     cam_width (cam_frame (s_cam sur)) * cam_height (cam_frame (s_cam sur)) \<noteq> 0)"

definition mind_ok :: "(heap, 'f, 'l) mind \<Rightarrow> bool" where
  "mind_ok m \<longleftrightarrow> world_ok (mworld m) \<and> context_len (mllm m) \<le> 4095 \<and> ticks_per_ms (msenses m) \<noteq> 0"

lemma senses_capture_total:
  assumes "surroundings_ok sur" and "ticks_per_ms s \<noteq> 0"
  shows "\<exists>snap s'. senses_capture (now sur) (devmem sur) (s_cam sur) (s_mic sur) (s_net sur) (s_fs sur) s =
    Inr (snap, s') \<and> ticks_per_ms s' = ticks_per_ms s"
  using assms
  by (auto simp: senses_capture_def get_uptime_ms_def cam_get_latest_frame_def capture_camera_def
      surroundings_ok_def Let_def)

lemma llm_feed_total:
  assumes "api_bounded api" and "context_len st \<le> 4095"
  shows "\<exists>r st'. llm_feed api input st = Inr (r, st') \<and> context_len st' \<le> 4095 \<and> ready st' = ready st \<and>
    (context_len st \<noteq> 0 \<longrightarrow> context_len st' \<noteq> 0)"
proof (cases "if ready st then input else None")
  case None
  then show ?thesis
    using assms(2) by (simp add: llm_feed_def)
next
  case (Some s)
  then have r: "ready st" "input = Some s"
    by (simp_all split: if_splits)
  obtain n toks where call: "llama_tokenize api (ctx st) s 512 (context_len st = 0) (lib st) = (n, toks)"
    by fastforce
  show ?thesis
  proof (cases "n < 0")
    case True
    then show ?thesis
      using feed_spec [OF assms r(1) call] r(2) assms(2) by simp
  next
    case False
    then obtain ret st' where f: "llm_feed api (Some s) st = Inr (ret, st')"
        "lived st' = room_made (lived st) (nat n) @ toks" "context_len st' \<le> 3968" "ready st' = ready st"
      using feed_spec [OF assms r(1) call] by auto
    have "context_len st' \<noteq> 0" if "context_len st \<noteq> 0"
      using arg_cong [OF f(2), of length] that length_lived [of st] length_lived [of st']
      by (auto simp: room_made_def simp del: length_lived split: if_splits)
    then show ?thesis
      using f r(2) by simp
  qed
qed

lemma llm_think_total:
  assumes "api_bounded api" and "context_len st \<le> 4095"
  shows "\<exists>len out st'. llm_think api buf 4096 256 st = Inr (len, out, st') \<and> context_len st' \<le> 4095 \<and>
    ready st' = ready st \<and>
    (if ready st \<and> context_len st \<noteq> 0 then len = int (length out) \<and> length out \<le> 4094 else len = -1 \<and> out = buf)"
proof (cases "ready st \<and> context_len st \<noteq> 0")
  case True
  then obtain toks out st' where "llm_think api buf 4096 256 st = Inr (int (length out), out, st')"
      "context_len st' \<le> 4095" "ready st' = ready st" "int (length out) < 4096 - 1 \<or> out = []"
    using llm_think_spec [OF assms, of 4096 buf 256] by auto
  then show ?thesis
    using True by auto
next
  case False
  then show ?thesis
    using assms(2) by (auto simp: llm_think_def)
qed

lemma length_c_string: "length (c_string s) \<le> length s"
  by (simp add: c_string_def length_takeWhile_le)

text \<open>A round up to the thought always returns.\<close>

lemma perceive_and_think_total:
  assumes "api_bounded api" and "mind_ok m" and "surroundings_ok sur"
  shows "\<exists>len m1. perceive_and_think api sur m = Inr (len, m1) \<and> mworld m1 = mworld m \<and>
    life_tick m1 = life_tick m + 1 \<and> mind_ok m1 \<and> (0 < len \<longrightarrow> length (output_buf m1) \<le> 4094) \<and>
    (ready (mllm m) \<and> context_len (mllm m) \<noteq> 0 \<longrightarrow> len = int (length (output_buf m1)))"
proof -
  obtain snap s where sense: "senses_capture (now sur) (devmem sur) (s_cam sur) (s_mic sur) (s_net sur) (s_fs sur)
      (msenses m) = Inr (snap, s)" "ticks_per_ms s = ticks_per_ms (msenses m)"
    using senses_capture_total [OF assms(3), of "msenses m"] assms(2) by (auto simp: mind_ok_def)
  define sig where "sig = concat (sense_pieces (life_tick m + 1) snap (memory_get_status (s_pmm sur) (s_swap sur)))"
  have small: "context_len (mllm m) \<le> 4095"
    using assms(2) by (simp add: mind_ok_def)
  obtain r l where feed: "llm_feed api (Some sig) (mllm m) = Inr (r, l)" "context_len l \<le> 4095"
      "ready l = ready (mllm m)" "context_len (mllm m) \<noteq> 0 \<longrightarrow> context_len l \<noteq> 0"
    using llm_feed_total [OF assms(1) small, of "Some sig"] by blast
  obtain len out l' where think: "llm_think api (output_buf m) 4096 256 l = Inr (len, out, l')" "context_len l' \<le> 4095"
      "if ready l \<and> context_len l \<noteq> 0 then len = int (length out) \<and> length out \<le> 4094
       else len = -1 \<and> out = output_buf m"
    using llm_think_total [OF assms(1) feed(2), of "output_buf m"] by blast
  let ?m1 = "m\<lparr>life_tick := life_tick m + 1, msenses := s, sense_buf := sig, mllm := l', output_buf := out\<rparr>"
  have "perceive_and_think api sur m = Inr (len, ?m1)"
    using sense feed think by (simp add: perceive_and_think_def sense_signal_exact sig_def Let_def)
  moreover have "mind_ok ?m1"
    using assms(2) sense(2) think(2) by (simp add: mind_ok_def)
  moreover have "0 < len \<longrightarrow> length out \<le> 4094"
      "ready (mllm m) \<and> context_len (mllm m) \<noteq> 0 \<longrightarrow> len = int (length out)"
    using think(3) feed(3,4) by (auto split: if_splits)
  ultimately show ?thesis
    by (intro exI [of _ len] exI [of _ ?m1]) simp
qed

lemma act_and_remember_ok:
  fixes env :: "(heap, 'f) act_env"
  assumes env: "kernel_env env" "reads_bounded (env_fs env)" and w: "world_ok w" and "length out \<le> 4094"
  shows "case act_and_remember env t out w of
      Inl e \<Rightarrow> e \<in> {SignedOverflow, DivideByZero} \<or> e = BufferOverflow \<and> 3780 < mem_count (wmem w)
    | Inr w' \<Rightarrow> acted w w'"
proof -
  let ?s = "c_string out"
  let ?run = "action_loop actions env ?s w"
  have "length ?s div 13 \<le> 4094 div 13"
    using assms(4) length_c_string [of out] by (intro div_le_mono) simp
  then have s: "length ?s div 13 \<le> 314"
    by simp
  have "4094 \<le> (4095 :: nat)"
    by simp
  note acts = action_loop_acted [OF env w this, of ?s]
  show ?thesis
  proof (cases ?run)
    case (Inl e)
    then show ?thesis
      using acts s by (auto simp: act_and_remember_def action_parse_and_execute_def)
  next
    case (Inr w1)
    let ?store = "aion_memory_store kmalloc kfree (env_junk env) (env_fs env)
        \<lparr>in_type = MEM_EPISODIC, in_importance = 1, in_tick = t, in_content = Some ?s\<rparr> (wmem w1)"
    have run: "act_and_remember env t out w = rbind ?store (\<lambda>mem. Inr (w1\<lparr>wmem := mem\<rparr>))"
      using Inr env(1) by (simp add: act_and_remember_def action_parse_and_execute_def kernel_env_def)
    have w1: "acted w w1" "mem_count (wmem w) + length ?s div 13 \<le> 4094 \<longrightarrow> mem_count (wmem w1) \<le> 4094"
      using acts Inr by simp_all
    then have mem: "mem_ok heap_ok heap_used (wmem w1)"
      by (simp add: acted_def world_ok_def)
    show ?thesis
    proof (cases ?store)
      case (Inl e)
      then have "e = BufferOverflow \<and> 4095 \<le> mem_count (wmem w1)"
        by (intro store_fault [OF mem]) simp_all
      then show ?thesis
        using w1(2) s Inl run by simp
    next
      case (Inr mem')
      have "mem_ok heap_ok heap_used mem'"
        using kblocks.store_mem_ok [OF mem Inr] by simp
      then show ?thesis
        using Inr run w1(1) by (simp add: acted_def world_ok_def)
    qed
  qed
qed

lemma live_tick_ok:
  fixes env :: "(heap, 'f) act_env"
  assumes env: "kernel_env env" "reads_bounded (env_fs env)" and api: "api_bounded api" and m: "mind_ok m"
    and sur: "surroundings_ok sur"
  shows "case live_tick env api sur m of
      Inl e \<Rightarrow> e \<in> {SignedOverflow, DivideByZero} \<or> e = BufferOverflow \<and> 3780 < mem_count (wmem (mworld m))
    | Inr m' \<Rightarrow> mind_ok m' \<and> life_tick m' = life_tick m + 1 \<and>
        draws (wdisp (mworld m)) (wdisp (mworld m'))"
proof -
  obtain len m1 where m1: "perceive_and_think api sur m = Inr (len, m1)" "mworld m1 = mworld m"
      "life_tick m1 = life_tick m + 1" "mind_ok m1" "0 < len \<longrightarrow> length (output_buf m1) \<le> 4094"
    using perceive_and_think_total [OF api m sur] by blast
  show ?thesis
  proof (cases "len \<le> 0")
    case True
    then show ?thesis
      using m1 by (simp add: live_tick_def)
  next
    case False
    have w: "world_ok (mworld m)"
      using m by (simp add: mind_ok_def)
    show ?thesis
      using act_and_remember_ok [OF env w, of "output_buf m1" "life_tick m1"] m1 False
      by (cases "act_and_remember env (life_tick m1) (output_buf m1) (mworld m)")
        (simp_all add: live_tick_def mind_ok_def acted_def)
  qed
qed

subsection \<open>A life\<close>

lemma consciousness_run_ok:
  fixes env :: "(heap, 'f) act_env"
  assumes "kernel_env env" and "reads_bounded (env_fs env)" and "api_bounded api" and "mind_ok m"
    and "list_all surroundings_ok surs"
  shows "case consciousness_run env api surs m of
      Inl e \<Rightarrow> e \<in> {SignedOverflow, DivideByZero, BufferOverflow}
    | Inr m' \<Rightarrow> mind_ok m' \<and> life_tick m' = life_tick m + of_nat (length surs) \<and>
        draws (wdisp (mworld m)) (wdisp (mworld m'))"
  using assms(4,5)
proof (induction surs arbitrary: m)
  case (Cons sur surs)
  have sur: "surroundings_ok sur" "list_all surroundings_ok surs"
    using Cons.prems(2) by simp_all
  note tick = live_tick_ok [OF assms(1-3) Cons.prems(1) sur(1)]
  show ?case
  proof (cases "live_tick env api sur m")
    case (Inl e)
    then show ?thesis
      using tick by auto
  next
    case (Inr m1)
    then have m1: "mind_ok m1" "life_tick m1 = life_tick m + 1" "draws (wdisp (mworld m)) (wdisp (mworld m1))"
      using tick by simp_all
    show ?thesis
      using Cons.IH [OF m1(1) sur(2)] Inr m1(2,3) draws_trans
      by (auto simp: algebra_simps split: sum.splits)
  qed
qed simp

definition piled :: "string list \<Rightarrow> string \<Rightarrow> ('h, 'f) world \<Rightarrow> bool" where
  "piled rs buf w \<longleftrightarrow> prefix rs (results w) \<and> (MAX_ACTION_RESULTS \<le> length rs \<longrightarrow> results w = rs) \<and> results_buf w = buf"

lemma handler_piled:
  assumes "(name, h) \<in> set actions" and "h env tok w = Inr w'" and "piled rs buf w"
  shows "piled rs buf w'"
  using assms by (rule handler_keeps) (auto simp: piled_def record_result_def prefix_def)

lemma live_tick_piled:
  assumes "live_tick env api sur m = Inr m'" and "piled rs buf (mworld m)"
  shows "piled rs buf (mworld m')"
proof -
  have act: "piled rs buf w'" if "action_parse_and_execute env (Some s) w = Inr w'" "piled rs buf w" for s w w'
  proof (rule action_loop_keeps [where P = "piled rs buf"])
    show "action_loop actions env s w = Inr w'"
      using that(1) by (simp add: action_parse_and_execute_def)
  qed (use that(2) handler_piled in auto)
  have upd: "piled rs buf (w\<lparr>wmem := mem\<rparr>) = piled rs buf w" for w :: "('a, 'b) world" and mem
    by (simp add: piled_def)
  show ?thesis
    using assms
    by (auto simp: live_tick_def perceive_and_think_def act_and_remember_def Let_def upd split: prod.splits if_splits intro: act)
qed

lemma consciousness_run_piled:
  "consciousness_run env api surs m = Inr m' \<Longrightarrow> piled rs buf (mworld m) \<Longrightarrow> piled rs buf (mworld m')"
proof (induction surs arbitrary: m)
  case (Cons sur surs)
  then show ?case
    using live_tick_piled by fastforce
qed simp
lemma act_and_remember_silent:
  fixes env :: "(heap, 'f) act_env"
  assumes "kernel_env env" and "world_ok w" and "mem_count (wmem w) < 4095"
    and "0 < heap_room (heap_state (wmem w))" and "length out \<le> 4094" and "\<not> sublist ''<ACT:'' (c_string out)"
  shows "\<exists>w'. act_and_remember env t out w = Inr w' \<and>
    mem_view (wmem w') = mem_view (wmem w) @ [(MEM_EPISODIC, 1, t, c_string out)]"
proof -
  let ?entry = "\<lparr>in_type = MEM_EPISODIC, in_importance = 1, in_tick = t, in_content = Some (c_string out)\<rparr>"
  have mem: "mem_ok heap_ok heap_used (wmem w)"
    using assms(2) by (simp add: world_ok_def)
  have body: "in_content ?entry = Some (c_string out)"
    by simp
  obtain m' where m': "aion_memory_store kmalloc kfree (env_junk env) (env_fs env) ?entry (wmem w) = Inr m'"
      "mem_view m' = mem_view (wmem w) @ [new_experience ?entry (c_string out)]"
    using kroomy.aion_memory_store_roomy [OF mem assms(4) body assms(3)] by blast
  have "new_experience ?entry (c_string out) = (MEM_EPISODIC, 1, t, c_string out)"
    using assms(5) length_c_string [of out] by (simp add: new_experience_def MAX_CONTENT_LEN_def)
  then show ?thesis
    using m' assms(1) action_loop_silent [OF assms(6), of env w]
    by (simp add: act_and_remember_def action_parse_and_execute_def kernel_env_def)
qed

subsection \<open>Properties\<close>

text \<open>A mind in the first world, with a camera that has not been found.\<close>

definition first_mind :: "nat \<Rightarrow> (heap, fs_state, token list) mind" where
  "first_mind n = \<lparr>life_tick = 0, output_buf = [], sense_buf = [], mworld = first_world, mllm = awake n,
     msenses = senses_static\<rparr>"

definition dark :: surroundings where
  "dark = \<lparr>now = 0, devmem = (\<lambda>_. 0), s_cam = cam_static, s_mic = mic_static, s_net = net_static,
     s_fs = fs_static, s_pmm = pmm_static, s_swap = swap_static\<rparr>"

lemma first_mind_ok: "n \<le> 4095 \<Longrightarrow> mind_ok (first_mind n)" "surroundings_ok dark"
  using first_world_ok
  by (simp_all add: mind_ok_def first_mind_def awake_def senses_static_def surroundings_ok_def dark_def cam_static_def)

text \<open>C11: However long it lives and whatever the model says, the program keeps its memory of
  experiences, its screen, its context and its waiting results well-formed, draws nowhere but in the
  frame buffer, and counts its rounds; it can only stop by a number that overflows, by a tone
  it cannot play or by the index of its memory running over. One round cannot run over the
  index while the memory holds at most 3780 experiences.\<close>

theorem life_stays_well_formed:
  fixes env :: "(heap, 'f) act_env"
  assumes "kernel_env env" and "reads_bounded (env_fs env)" and "api_bounded api" and "mind_ok m"
    and "list_all surroundings_ok surs" and "surroundings_ok sur"
  shows "(case consciousness_run env api surs m of
      Inl e \<Rightarrow> e \<in> {SignedOverflow, DivideByZero, BufferOverflow}
    | Inr m' \<Rightarrow> mind_ok m' \<and> life_tick m' = life_tick m + of_nat (length surs) \<and>
        draws (wdisp (mworld m)) (wdisp (mworld m'))) \<and>
    (live_tick env api sur m = Inl BufferOverflow \<longrightarrow> 3780 < mem_count (wmem (mworld m)))"
  using consciousness_run_ok [OF assms(1-5)] live_tick_ok [OF assms(1-4,6)]
  by (auto split: sum.splits)

theorem life_stays_well_formed_witness:
  "(case consciousness_run stub_env echo_llama [dark, dark] (first_mind 10) of
      Inl e \<Rightarrow> e \<in> {SignedOverflow, DivideByZero, BufferOverflow}
    | Inr m' \<Rightarrow> mind_ok m' \<and> life_tick m' = life_tick (first_mind 10) + of_nat (length [dark, dark]) \<and>
        draws (wdisp (mworld (first_mind 10))) (wdisp (mworld m'))) \<and>
    live_tick stub_env echo_llama dark (first_mind 10) \<noteq> Inl BufferOverflow"
proof -
  have "mem_count (wmem (mworld (first_mind 10))) = 0"
    by (simp add: first_mind_def first_world_def)
  then show ?thesis
    using life_stays_well_formed [OF stub_env_ok echo_llama_ok(1) first_mind_ok(1) _ first_mind_ok(2), of "10" "[dark, dark]"] first_mind_ok(2) by simp
qed



text \<open>The results of the actions never come back to the model: a life only adds to them, never
  touches the text they would be fed back as, and once 32 of them wait no later result is
  recorded at all.\<close>

theorem results_never_consumed:
  "case consciousness_run env api surs m of
     Inl e \<Rightarrow> True
   | Inr m' \<Rightarrow> prefix (results (mworld m)) (results (mworld m')) \<and>
       results_buf (mworld m') = results_buf (mworld m) \<and>
       (if MAX_ACTION_RESULTS \<le> length (results (mworld m)) then results (mworld m') = results (mworld m) else True)"
proof -
  have "piled (results (mworld m)) (results_buf (mworld m)) (mworld m)"
    by (simp add: piled_def)
  then show ?thesis
    using consciousness_run_piled [of env api surs m] by (auto simp: piled_def split: sum.splits)
qed

text \<open>The signal of the senses is the text of all its parts in order, whatever stood in the buffer:
  it never comes near the end of the buffer.\<close>

theorem signal_complete:
  "sense_signal t snap mem buf = Inr (concat (sense_pieces t snap mem)) \<and>
    length (concat (sense_pieces t snap mem)) \<le> 400"
  using sense_signal_exact sense_pieces_length by blast

text \<open>Waking up halts exactly when the model does not start. On the first start the first signal is fed
  to the model. On a later one the experiences are loaded into the memory, but none of them reaches
  the context of the model, which stays as it was.\<close>

theorem waking_outcome:
  "case consciousness_init env api tsc m of
     Inl e \<Rightarrow> True
   | Inr (Halted m') \<Rightarrow> fst (llm_init api (mllm m)) \<noteq> 0
   | Inr (Awake m') \<Rightarrow> fst (llm_init api (mllm m)) = 0 \<and>
       (let mem = aion_memory_init (env_fs env) (wmem (mworld m)) in
        if aion_memory_has_store (env_fs env) mem
        then aion_memory_load_all (env_malloc env) (env_fs env) mem = Inr (wmem (mworld m')) \<and>
          mllm m' = snd (llm_init api (mllm m)) \<and> lived (mllm m') = lived (mllm m)
        else wmem (mworld m') = mem \<and>
          (\<exists>r. llm_feed api (Some FIRST_SIGNAL) (snd (llm_init api (mllm m))) = Inr (r, mllm m')))"
proof -
  let ?mem = "aion_memory_init (env_fs env) (wmem (mworld m))"
  obtain r l where init: "llm_init api (mllm m) = (r, l)"
    by fastforce
  have lived: "lived l = lived (mllm m)"
    using init by (auto simp: llm_init_def set_ratio_def lived_def Let_def split: prod.splits if_splits)
  show ?thesis
  proof (cases "senses_init tsc (msenses m)")
    case (Inr s)
    then show ?thesis
      using init lived
      by (cases "llm_feed api (Some FIRST_SIGNAL) l"; cases "aion_memory_load_all (env_malloc env) (env_fs env) ?mem")
        (auto simp: consciousness_init_def Let_def split: prod.splits)
  qed (simp add: consciousness_init_def)
qed

end
