(* ===== verification/Lifetime.thy ===== *)
theory Lifetime
  imports Consciousness
begin

section \<open>How many experiences a life can hold\<close>

text \<open>
  The memory of experiences (\<^verbatim>\<open>aion_memory.c\<close>) has 65536 slots and an eviction for when they are
  full; its index file is written from a buffer of one megabyte. Every way in which the life of
  \<^verbatim>\<open>consciousness.c\<close> and the actions of \<^verbatim>\<open>action.c\<close> reach the memory keeps it lean: what is held
  beyond the buffer still waits to be written. That bound does not depend on the
  allocator, on the file layer or on the model. On the kernel's own heap, and under a model that only talks,
  the number of rounds a life can have is exact.
\<close>

subsection \<open>A lean memory\<close>

definition lean :: "('h, 'f) amem \<Rightarrow> bool" where
  "lean st \<longleftrightarrow> mem_dirty st \<le> 9 \<and> mem_count st \<le> 4095 + mem_dirty st"

lemma lean_bounds: "lean st \<Longrightarrow> mem_count st \<le> 4104" "lean st \<Longrightarrow> mem_count st < MAX_MEMORIES"
  by (simp_all add: lean_def MAX_MEMORIES_def)

lemma lean_fs [simp]: "lean (st\<lparr>fs_state := f\<rparr>) = lean st"
  by (simp add: lean_def)

subsection \<open>Flushing\<close>

lemma flush_entry_counts:
  assumes "flush_entry junk fs i (st, idx) = Inr (st', idx')"
  shows "mem_count st' = mem_count st \<and> mem_dirty st' = mem_dirty st \<and> heap_state st' = heap_state st \<and> i < 4095"
  using assms by (auto simp: flush_entry_def Let_def INDEX_SIZE_def split: if_splits prod.splits)

lemma flush_loop_counts:
  fixes st :: "('a, 'b) amem"
  assumes "for_loop 0 n (flush_entry junk fs) (st, idx) = Inr (st', idx')"
  shows "mem_count st' = mem_count st \<and> mem_dirty st' = mem_dirty st \<and> heap_state st' = heap_state st \<and> n \<le> 4095"
proof -
  define P where "P = (\<lambda>(i :: nat) (s :: ('a, 'b) amem, idx :: string). mem_count s = mem_count st \<and>
      mem_dirty s = mem_dirty st \<and> heap_state s = heap_state st \<and> i \<le> 4095)"
  have "P n (st', idx')"
  proof (rule for_loop_ran [OF assms])
    show "P (Suc i) y'" if "P i y" "flush_entry junk fs i y = Inr y'" for i y y'
      using that flush_entry_counts [of junk fs i "fst y" "snd y" "fst y'" "snd y'"]
      by (cases y; cases y') (simp add: P_def)
  qed (simp_all add: P_def)
  then show ?thesis
    by (simp add: P_def)
qed

lemma aion_memory_flush_counts:
  assumes "aion_memory_flush junk fs st = Inr st'"
  shows "mem_count st' = mem_count st \<and> mem_dirty st' = 0 \<and> heap_state st' = heap_state st \<and>
    (mem_dirty st \<noteq> 0 \<longrightarrow> mem_count st \<le> 4095)"
proof (cases "mem_dirty st = 0")
  case True
  then show ?thesis
    using assms by (simp add: aion_memory_flush_def)
next
  case False
  then obtain s idx where run: "for_loop 0 (mem_count st) (flush_entry junk fs) (st, le_bytes 8 (mem_count st)) =
      Inr (s, idx)" and rest: "st' = s\<lparr>fs_state := snd (fs_write_file_usb fs INDEX_PATH idx (fs_state s)), mem_dirty := 0\<rparr>"
    using assms by (fastforce simp: aion_memory_flush_def case_prod_beta)
  show ?thesis
    using flush_loop_counts [OF run] rest by simp
qed

subsection \<open>Storing\<close>

lemma mem_strdup_counts:
  "mem_strdup malloc s n st = (p, st') \<Longrightarrow> mem_count st' = mem_count st \<and> mem_dirty st' = mem_dirty st"
  by (auto simp: mem_strdup_def Let_def split: prod.splits if_splits)

lemma aion_memory_store_lean:
  assumes "aion_memory_store malloc release junk fs entry st = Inr st'" and "lean st"
  shows "lean st'"
proof (cases "in_content entry")
  case None
  then show ?thesis
    using assms by (simp add: aion_memory_store_def)
next
  case (Some body)
  obtain p st1 where dup: "mem_strdup malloc body (min (length body) MAX_CONTENT_LEN) st = (p, st1)"
    by fastforce
  note same = mem_strdup_counts [OF dup]
  define st2 where "st2 = mem_append entry p (min (length body) MAX_CONTENT_LEN) st1"
  have grown: "mem_count st2 = Suc (mem_count st)" "mem_dirty st2 = Suc (mem_dirty st)"
    using same by (simp_all add: st2_def mem_append_def)
  have store: "aion_memory_store malloc release junk fs entry st =
      (if p = 0 then Inr st1 else if 10 \<le> mem_dirty st2 then aion_memory_flush junk fs st2 else Inr st2)"
    using lean_bounds(2) [OF assms(2)] Some dup by (simp add: aion_memory_store_def st2_def Let_def)
  consider "p = 0" | "p \<noteq> 0" "10 \<le> mem_dirty st2" | "p \<noteq> 0" "\<not> 10 \<le> mem_dirty st2"
    by blast
  then show ?thesis
  proof cases
    case 1
    then show ?thesis
      using assms same store by (simp add: lean_def)
  next
    case 2
    then show ?thesis
      using assms(1) store aion_memory_flush_counts [of junk fs st2 st'] by (simp add: lean_def)
  next
    case 3
    then have "st' = st2"
      using assms(1) store by simp
    then show ?thesis
      using assms(2) grown 3(2) by (simp add: lean_def)
  qed
qed

subsection \<open>Starting up\<close>

lemma aion_memory_init_counts:
  "mem_count (aion_memory_init fs st) = 0 \<and> mem_dirty (aion_memory_init fs st) = 0"
  by (simp add: aion_memory_init_def Let_def)

lemma load_entry_counts:
  assumes "load_entry malloc fs i st = Inr st'"
  shows "mem_count st' \<le> Suc (mem_count st) \<and> mem_dirty st' = mem_dirty st \<and> i < 4095"
proof -
  have "i < 4095"
    using assms by (auto simp: load_entry_def INDEX_SIZE_def split: if_splits)
  moreover have "mem_count st' \<le> Suc (mem_count st) \<and> mem_dirty st' = mem_dirty st"
    using assms
    by (auto simp: load_entry_def Let_def split: if_splits prod.splits dest: mem_strdup_counts)
  ultimately show ?thesis
    by simp
qed

lemma aion_memory_load_all_lean:
  assumes "aion_memory_load_all malloc fs st = Inr st'" and "mem_count st = 0" and "mem_dirty st = 0"
  shows "mem_count st' \<le> 4095 \<and> mem_dirty st' = 0"
proof -
  obtain r data f where read: "fs_read_file fs INDEX_PATH INDEX_SIZE (fs_state st) = (r, data, f)"
    using prod_cases3 by blast
  define st1 where "st1 = st\<lparr>fs_state := f, load_index := overlay data (load_index st)\<rparr>"
  have same: "mem_count st1 = 0" "mem_dirty st1 = 0"
    using assms(2,3) by (simp_all add: st1_def)
  show ?thesis
  proof (cases "r < 0")
    case True
    then show ?thesis
      using assms(1) read same by (simp add: aion_memory_load_all_def Let_def flip: st1_def)
  next
    case False
    define n where "n = min (field 0 8 (load_index st1)) MAX_MEMORIES"
    have run: "for_loop 0 n (load_entry malloc fs) st1 = Inr st'"
      using assms(1) read False by (simp add: aion_memory_load_all_def Let_def n_def st1_def)
    have "mem_count st' \<le> n \<and> mem_dirty st' = 0 \<and> n \<le> 4095"
    proof (rule for_loop_ran [OF run])
      show "mem_count s' \<le> Suc i \<and> mem_dirty s' = 0 \<and> Suc i \<le> 4095"
        if "mem_count s \<le> i \<and> mem_dirty s = 0 \<and> i \<le> 4095" "load_entry malloc fs i s = Inr s'" for i s s'
        using that load_entry_counts [OF that(2)] by simp
    qed (use same in simp_all)
    then show ?thesis
      by simp
  qed
qed

lemma consciousness_init_lean:
  assumes "consciousness_init env api tsc m = Inr (Awake m')"
  shows "lean (wmem (mworld m'))"
proof -
  let ?mem = "aion_memory_init (env_fs env) (wmem (mworld m))"
  have "wmem (mworld m') = ?mem \<or> aion_memory_load_all (env_malloc env) (env_fs env) ?mem = Inr (wmem (mworld m'))"
    using assms
    by (auto simp: consciousness_init_def Let_def case_prod_beta split: if_splits)
  then show ?thesis
    using aion_memory_init_counts [of "env_fs env" "wmem (mworld m)"]
      aion_memory_load_all_lean [of "env_malloc env" "env_fs env" ?mem "wmem (mworld m')"]
    by (auto simp: lean_def)
qed

subsection \<open>Living\<close>

text \<open>
  What storing an experience keeps and a change of the file layer does not touch, the whole life
  keeps: the actions and the loop reach the memory in no other way.
\<close>

locale memory_invariant =
  fixes env :: "('h, 'f) act_env" and kept :: "('h, 'f) amem \<Rightarrow> bool"
  assumes store_keeps: "kept st \<Longrightarrow> aion_memory_store (env_malloc env) (env_release env) (env_junk env) (env_fs env)
      entry st = Inr st' \<Longrightarrow> kept st'"
    and fs_keeps: "kept st \<Longrightarrow> kept (st\<lparr>fs_state := f\<rparr>)"
begin

lemma parse_keeps:
  assumes "action_parse_and_execute env (Some s) w = Inr w'" and "kept (wmem w)"
  shows "kept (wmem w')"
proof (rule action_loop_keeps [where P = "\<lambda>w. kept (wmem w)"])
  show "kept (wmem w2)" if "(name, h) \<in> set actions" "kept (wmem w1)" "h env tok w1 = Inr w2" for name h tok w1 w2
    using that(1,3,2) by (rule handler_keeps [where P = "\<lambda>w. kept (wmem w)"]) (auto intro: store_keeps fs_keeps)
  show "action_loop actions env s w = Inr w'"
    using assms(1) by (simp add: action_parse_and_execute_def)
qed (rule assms(2))

lemma live_tick_keeps:
  assumes "live_tick env api sur m = Inr m'" and "kept (wmem (mworld m))"
  shows "kept (wmem (mworld m'))"
  using assms
  by (auto simp: live_tick_def perceive_and_think_def act_and_remember_def Let_def
      split: prod.splits if_splits intro: store_keeps [OF parse_keeps])

lemma consciousness_run_keeps:
  "consciousness_run env api surs m = Inr m' \<Longrightarrow> kept (wmem (mworld m)) \<Longrightarrow> kept (wmem (mworld m'))"
proof (induction surs arbitrary: m)
  case (Cons sur surs)
  then show ?case
    using live_tick_keeps by fastforce
qed simp

end

interpretation lean_life: memory_invariant env lean for env
  by unfold_locales (auto intro: aion_memory_store_lean)

subsection \<open>The end of a life\<close>

text \<open>The experience that comes due for a flush when the index buffer is full.\<close>

context roomy_heap
begin

lemma aion_memory_store_full:
  assumes ok: "mem_ok hok used st" and "0 < room (heap_state st)" and some: "in_content entry = Some body"
    and count: "4095 \<le> mem_count st" "mem_count st < MAX_MEMORIES" and dirty: "mem_dirty st = 9"
  shows "aion_memory_store malloc release junk fs entry st = Inl BufferOverflow"
proof -
  define n where "n = min (length body) MAX_CONTENT_LEN"
  have n: "n \<le> length body" "n \<le> MAX_CONTENT_LEN"
    by (simp_all add: n_def)
  from ok n show ?thesis
  proof (cases rule: mem_strdup_spec)
    case (failed st')
    then show ?thesis
      using mem_strdup_roomy [OF ok assms(2) n(2)] by blast
  next
    case (copied p st1)
    note same = mem_strdup_counts [OF copied(1)]
    let ?st2 = "mem_append entry p n st1"
    have ok2: "mem_ok hok used ?st2"
      using copied(3,6,7) n(2) count(2) same by (intro mem_append_ok) simp_all
    have "mem_count ?st2 = Suc (mem_count st)" "mem_dirty ?st2 = 10"
      using same dirty by (simp_all add: mem_append_def)
    then have "aion_memory_flush junk fs ?st2 = Inl BufferOverflow"
      using count(1) by (intro aion_memory_flush_overflow [OF ok2]) simp_all
    then show ?thesis
      using copied(1,2) some count(2) \<open>mem_dirty ?st2 = 10\<close>
      by (simp add: aion_memory_store_def Let_def flip: n_def)
  qed
qed

end

lemma act_and_remember_full:
  fixes env :: "(heap, 'f) act_env"
  assumes "kernel_env env" and "world_ok w" and "4095 \<le> mem_count (wmem w)"
    and "mem_count (wmem w) < MAX_MEMORIES" and "mem_dirty (wmem w) = 9"
    and "0 < heap_room (heap_state (wmem w))" and "\<not> sublist ''<ACT:'' (c_string out)"
  shows "act_and_remember env t out w = Inl BufferOverflow"
proof -
  let ?entry = "\<lparr>in_type = MEM_EPISODIC, in_importance = 1, in_tick = t, in_content = Some (c_string out)\<rparr>"
  have mem: "mem_ok heap_ok heap_used (wmem w)"
    using assms(2) by (simp add: world_ok_def)
  have body: "in_content ?entry = Some (c_string out)"
    by simp
  have "aion_memory_store kmalloc kfree (env_junk env) (env_fs env) ?entry (wmem w) = Inl BufferOverflow"
    using kroomy.aion_memory_store_full [OF mem assms(6) body assms(3,4,5)] .
  then show ?thesis
    using assms(1) action_loop_silent [OF assms(7), of env w]
    by (simp add: act_and_remember_def action_parse_and_execute_def kernel_env_def)
qed

subsection \<open>The bytes a thought takes\<close>

lemma mem_strdup_free:
  fixes st :: "(heap, 'f) amem"
  assumes ok: "mem_ok heap_ok heap_used st" and n: "n \<le> length s" "n \<le> MAX_CONTENT_LEN"
    and room: "n + 16 \<le> heap_free (heap_state st)"
  obtains p st1 where "mem_strdup kmalloc s n st = (p, st1)" "p \<noteq> 0" "mem_count st1 = mem_count st"
    "mem_dirty st1 = mem_dirty st" "heap_free (heap_state st) \<le> heap_free (heap_state st1) + (n + 16)"
    "mem_count st < MAX_MEMORIES \<longrightarrow> mem_ok heap_ok heap_used (mem_append entry p n st1)"
proof -
  let ?n = "of_nat (n + 1) :: u64"
  have u: "unat ?n = n + 1"
    using n by (intro unat_of_nat_u64) (simp add: MAX_CONTENT_LEN_def)
  then have limit: "unat ?n \<le> KMALLOC_LIMIT"
    using n by (simp add: MAX_CONTENT_LEN_def KMALLOC_LIMIT_def)
  have hok: "heap_ok (heap_state st)"
    using ok by (simp add: mem_ok_def)
  obtain q h where call: "kmalloc ?n (heap_state st) = (q, h)"
    by fastforce
  have q: "q \<noteq> 0" "heap_free (heap_state st) \<le> heap_free h + (n + 16)"
    using kmalloc_free [OF hok limit _ _ call] u room by simp_all
  from ok n show thesis
  proof (cases rule: kblocks.mem_strdup_spec)
    case (failed st1)
    then show thesis
      using call q(1) by (simp add: mem_strdup_def Let_def)
  next
    case (copied p st1)
    note same = mem_strdup_counts [OF copied(1)]
    have "mem_ok heap_ok heap_used (mem_append entry p n st1)" if "mem_count st < MAX_MEMORIES"
      using copied(3,6,7) n(2) that same by (intro mem_append_ok) simp_all
    moreover have "heap_state st1 = h"
      using copied(1) call q(1) by (auto simp: mem_strdup_def Let_def)
    ultimately show thesis
      using copied(1,2) same q(2) by (intro that [of p st1]) simp_all
  qed
qed

text \<open>Storing with room for the text: every tenth time the store is flushed, which needs the index to fit.\<close>

lemma aion_memory_store_exact:
  fixes st :: "(heap, 'f) amem"
  assumes ok: "mem_ok heap_ok heap_used st" and some: "in_content entry = Some body"
    and len: "length body \<le> MAX_CONTENT_LEN" "length body + 16 \<le> heap_free (heap_state st)"
    and few: "mem_count st < MAX_MEMORIES" and dirty: "mem_dirty st \<le> 9"
  shows "if mem_dirty st = 9 \<and> 4095 \<le> mem_count st
    then aion_memory_store kmalloc kfree junk fs entry st = Inl BufferOverflow
    else \<exists>st'. aion_memory_store kmalloc kfree junk fs entry st = Inr st' \<and> mem_ok heap_ok heap_used st' \<and>
      mem_count st' = Suc (mem_count st) \<and> mem_dirty st' = Suc (mem_dirty st) mod 10 \<and>
      heap_free (heap_state st) \<le> heap_free (heap_state st') + (length body + 16)"
proof -
  obtain p st1 where dup: "mem_strdup kmalloc body (length body) st = (p, st1)" "p \<noteq> 0"
      "mem_count st1 = mem_count st" "mem_dirty st1 = mem_dirty st"
      "heap_free (heap_state st) \<le> heap_free (heap_state st1) + (length body + 16)"
      "mem_count st < MAX_MEMORIES \<longrightarrow> mem_ok heap_ok heap_used (mem_append entry p (length body) st1)"
    by (rule mem_strdup_free [OF ok le_refl len])
  define st2 where "st2 = mem_append entry p (length body) st1"
  have st2: "mem_ok heap_ok heap_used st2" "mem_count st2 = Suc (mem_count st)" "mem_dirty st2 = Suc (mem_dirty st)"
      "heap_state st2 = heap_state st1"
    using dup(3,4,6) few by (simp_all add: st2_def mem_append_def)
  have store: "aion_memory_store kmalloc kfree junk fs entry st =
      (if mem_dirty st = 9 then aion_memory_flush junk fs st2 else Inr st2)"
    using some dup(1-4) len(1) few dirty by (simp add: aion_memory_store_def Let_def min_def st2_def mem_append_def)
  consider "mem_dirty st \<noteq> 9" | "mem_dirty st = 9" "mem_count st \<le> 4094" | "mem_dirty st = 9" "4095 \<le> mem_count st"
    by linarith
  then show ?thesis
  proof cases
    case 1
    then show ?thesis
      using store st2 dup(5) dirty by auto
  next
    case 2
    then have "mem_count st2 \<le> 4095"
      using st2(2) by simp
    from aion_memory_flush_ok [OF st2(1) this] obtain st3
      where st3: "aion_memory_flush junk fs st2 = Inr st3" "mem_ok heap_ok heap_used st3"
      by blast
    then show ?thesis
      using 2 store st2(2,4) dup(5) aion_memory_flush_counts [OF st3(1)] by simp
  next
    case 3
    then have "aion_memory_flush junk fs st2 = Inl BufferOverflow"
      using st2 by (intro aion_memory_flush_overflow [OF st2(1)]) simp_all
    then show ?thesis
      using 3 store by simp
  qed
qed

subsection \<open>The rounds of a silent life\<close>

text \<open>A model whose every thought says something, in at most \<open>k\<close> characters, and asks for no action.\<close>

definition silent_thinker :: "nat \<Rightarrow> 'l llama \<Rightarrow> bool" where
  "silent_thinker k api \<longleftrightarrow> (\<forall>buf st len out st'. ready st \<longrightarrow> context_len st \<noteq> 0 \<longrightarrow>
     llm_think api buf 4096 256 st = Inr (len, out, st') \<longrightarrow>
     out \<noteq> [] \<and> length out \<le> k \<and> \<not> sublist ''<ACT:'' (c_string out))"

text \<open>The mind after \<open>n\<close> rounds of a silent life.\<close>

definition aged :: "nat \<Rightarrow> nat \<Rightarrow> (heap, 'f, 'l) mind \<Rightarrow> bool" where
  "aged k n m \<longleftrightarrow> mind_ok m \<and> ready (mllm m) \<and> context_len (mllm m) \<noteq> 0 \<and> mem_count (wmem (mworld m)) = n \<and>
     mem_dirty (wmem (mworld m)) = n mod 10 \<and> (4100 - n) * (k + 16) \<le> heap_free (heap_state (wmem (mworld m)))"

lemma perceive_and_think_silent:
  fixes m :: "(heap, 'f, 'l) mind"
  assumes api: "api_bounded api" "silent_thinker k api" and m: "mind_ok m" "ready (mllm m)" "context_len (mllm m) \<noteq> 0"
    and sur: "surroundings_ok sur"
  shows "\<exists>len m1. perceive_and_think api sur m = Inr (len, m1) \<and> 0 < len \<and> mworld m1 = mworld m \<and> mind_ok m1 \<and>
    ready (mllm m1) \<and> context_len (mllm m1) \<noteq> 0 \<and> length (output_buf m1) \<le> k \<and> length (output_buf m1) \<le> 4094 \<and>
    \<not> sublist ''<ACT:'' (c_string (output_buf m1))"
proof -
  obtain len m1 where m1: "perceive_and_think api sur m = Inr (len, m1)" "mworld m1 = mworld m" "mind_ok m1"
      "0 < len \<longrightarrow> length (output_buf m1) \<le> 4094" "len = int (length (output_buf m1))"
    using perceive_and_think_total [OF api(1) m(1) sur] m(2,3) by blast
  have small: "context_len (mllm m) \<le> 4095"
    using m(1) by (simp add: mind_ok_def)
  obtain sig r l where feed: "llm_feed api (Some sig) (mllm m) = Inr (r, l)"
    and think: "llm_think api (output_buf m) 4096 256 l = Inr (len, output_buf m1, mllm m1)"
    using m1(1) by (auto simp: perceive_and_think_def Let_def split: prod.splits)
  then have l: "context_len l \<le> 4095" "ready l" "context_len l \<noteq> 0"
    using llm_feed_total [OF api(1) small, of "Some sig"] m(2,3) by simp_all
  have said: "output_buf m1 \<noteq> []" "length (output_buf m1) \<le> k" "\<not> sublist ''<ACT:'' (c_string (output_buf m1))"
    using api(2) l(2,3) think unfolding silent_thinker_def by blast+
  obtain toks where "lived (mllm m1) = lived l @ take (4095 - context_len l) toks" "ready (mllm m1) = ready l"
    using llm_think_spec [OF api(1) l, of 4096 "output_buf m" 256] think by auto
  then have "ready (mllm m1)" "context_len (mllm m1) \<noteq> 0"
    using l length_lived [of "mllm m1"] length_lived [of l] by (simp, metis append_is_Nil_conv length_0_conv)
  then show ?thesis
    using m1 said by simp
qed

lemma act_and_remember_exact:
  fixes env :: "(heap, 'f) act_env"
  assumes "kernel_env env" and "world_ok w" and "mem_count (wmem w) < MAX_MEMORIES" and "mem_dirty (wmem w) \<le> 9"
    and out: "length out \<le> k" "length out \<le> 4094" "\<not> sublist ''<ACT:'' (c_string out)"
    and room: "k + 16 \<le> heap_free (heap_state (wmem w))"
  shows "if mem_dirty (wmem w) = 9 \<and> 4095 \<le> mem_count (wmem w) then act_and_remember env t out w = Inl BufferOverflow
    else \<exists>w'. act_and_remember env t out w = Inr w' \<and> world_ok w' \<and> mem_count (wmem w') = Suc (mem_count (wmem w)) \<and>
      mem_dirty (wmem w') = Suc (mem_dirty (wmem w)) mod 10 \<and>
      heap_free (heap_state (wmem w)) \<le> heap_free (heap_state (wmem w')) + (k + 16)"
proof -
  let ?entry = "\<lparr>in_type = MEM_EPISODIC, in_importance = 1, in_tick = t, in_content = Some (c_string out)\<rparr>"
  let ?store = "aion_memory_store kmalloc kfree (env_junk env) (env_fs env) ?entry (wmem w)"
  have mem: "mem_ok heap_ok heap_used (wmem w)"
    using assms(2) by (simp add: world_ok_def)
  have some: "in_content ?entry = Some (c_string out)"
    by simp
  have short: "length (c_string out) \<le> k" "length (c_string out) \<le> MAX_CONTENT_LEN"
    using length_c_string [of out] out(1,2) by (simp_all add: MAX_CONTENT_LEN_def)
  then have free: "length (c_string out) + 16 \<le> heap_free (heap_state (wmem w))"
    using room by simp
  have run: "act_and_remember env t out w = rbind ?store (\<lambda>mem. Inr (w\<lparr>wmem := mem\<rparr>))"
    using assms(1) action_loop_silent [OF out(3), of env w]
    by (simp add: act_and_remember_def action_parse_and_execute_def kernel_env_def)
  show ?thesis
  proof (cases "mem_dirty (wmem w) = 9 \<and> 4095 \<le> mem_count (wmem w)")
    case True
    then show ?thesis
      using aion_memory_store_exact [OF mem some short(2) free assms(3,4), of "env_junk env" "env_fs env"] run by simp
  next
    case False
    then obtain m' where m': "?store = Inr m'" "mem_ok heap_ok heap_used m'" "mem_count m' = Suc (mem_count (wmem w))"
        "mem_dirty m' = Suc (mem_dirty (wmem w)) mod 10"
        "heap_free (heap_state (wmem w)) \<le> heap_free (heap_state m') + (length (c_string out) + 16)"
      using aion_memory_store_exact [OF mem some short(2) free assms(3,4), of "env_junk env" "env_fs env"] by auto
    then show ?thesis
      using False run short(1) assms(2) by (simp add: world_ok_def results_ok_def)
  qed
qed

lemma live_tick_aged:
  fixes env :: "(heap, 'f) act_env"
  assumes env: "kernel_env env" and api: "api_bounded api" "silent_thinker k api" and m: "aged k n m" and n: "n < 4100"
    and sur: "surroundings_ok sur"
  shows "if n = 4099 then live_tick env api sur m = Inl BufferOverflow
    else \<exists>m'. live_tick env api sur m = Inr m' \<and> aged k (Suc n) m'"
proof -
  have ok: "mind_ok m" "ready (mllm m)" "context_len (mllm m) \<noteq> 0" "mem_count (wmem (mworld m)) = n"
      "mem_dirty (wmem (mworld m)) = n mod 10"
    using m by (simp_all add: aged_def)
  obtain len m1 where m1: "perceive_and_think api sur m = Inr (len, m1)" "0 < len" "mworld m1 = mworld m" "mind_ok m1"
      "ready (mllm m1)" "context_len (mllm m1) \<noteq> 0" "length (output_buf m1) \<le> k" "length (output_buf m1) \<le> 4094"
      "\<not> sublist ''<ACT:'' (c_string (output_buf m1))"
    using perceive_and_think_silent [OF api ok(1-3) sur] by blast
  have w: "world_ok (mworld m)"
    using ok(1) by (simp add: mind_ok_def)
  have few: "mem_count (wmem (mworld m)) < MAX_MEMORIES" "mem_dirty (wmem (mworld m)) \<le> 9"
    using n ok(4,5) by (simp_all add: MAX_MEMORIES_def)
  have "4100 - n = Suc (4099 - n)"
    using n by simp
  then have free: "(4099 - n) * (k + 16) + (k + 16) \<le> heap_free (heap_state (wmem (mworld m)))"
    using m by (simp add: aged_def)
  then have room: "k + 16 \<le> heap_free (heap_state (wmem (mworld m)))"
    by simp
  note act = act_and_remember_exact [OF env w few m1(7,8,9) room, of "life_tick m1"]
  have last: "n mod 10 = 9 \<and> 4095 \<le> n \<longleftrightarrow> n = 4099"
    using n by presburger
  show ?thesis
  proof (cases "n = 4099")
    case True
    then show ?thesis
      using act ok(4,5) m1 by (simp add: live_tick_def)
  next
    case False
    then obtain w' where w': "act_and_remember env (life_tick m1) (output_buf m1) (mworld m) = Inr w'" "world_ok w'"
        "mem_count (wmem w') = Suc n" "mem_dirty (wmem w') = Suc (n mod 10) mod 10"
        "heap_free (heap_state (wmem (mworld m))) \<le> heap_free (heap_state (wmem w')) + (k + 16)"
      using act last ok(4,5) by auto
    moreover have "Suc (n mod 10) mod 10 = Suc n mod 10"
      by presburger
    moreover have "(4100 - Suc n) * (k + 16) \<le> heap_free (heap_state (wmem w'))"
      using free w'(5) by simp
    ultimately have "aged k (Suc n) (m1\<lparr>mworld := w'\<rparr>)"
      using m1(4,5,6) by (simp add: aged_def mind_ok_def)
    then show ?thesis
      using False m1(1,2,3) w'(1) by (simp add: live_tick_def)
  qed
qed

lemma consciousness_run_aged:
  fixes env :: "(heap, 'f) act_env"
  assumes env: "kernel_env env" and api: "api_bounded api" "silent_thinker k api"
    and "aged k n m" and "n < 4100" and "list_all surroundings_ok surs"
  shows "if n + length surs < 4100 then \<exists>m'. consciousness_run env api surs m = Inr m' \<and> aged k (n + length surs) m'
    else consciousness_run env api surs m = Inl BufferOverflow"
  using assms(4-6)
proof (induction surs arbitrary: n m)
  case (Cons sur surs)
  have sur: "surroundings_ok sur" "list_all surroundings_ok surs"
    using Cons.prems(3) by simp_all
  note tick = live_tick_aged [OF env api Cons.prems(1,2) sur(1)]
  show ?case
  proof (cases "n = 4099")
    case True
    then show ?thesis
      using tick by simp
  next
    case False
    then obtain m1 where m1: "live_tick env api sur m = Inr m1" "aged k (Suc n) m1"
      using tick by auto
    have "Suc n < 4100"
      using False Cons.prems(2) by simp
    then show ?thesis
      using Cons.IH [OF m1(2) _ sur(2)] m1(1) by (cases "n + length surs < 4099") simp_all
  qed
qed simp

subsection \<open>Properties\<close>

text \<open>C13: However long the program lives after it woke up, and whatever the allocator, the file
  layer and the model do, its memory never holds more than 4104 experiences, at most nine of them
  waiting to be written. The 65536 slots are never full, so that a store never has to evict.\<close>

theorem experiences_bounded:
  "case consciousness_init env api tsc m of
     Inr (Awake m1) \<Rightarrow>
       (case consciousness_run env api surs m1 of
          Inr m2 \<Rightarrow> mem_count (wmem (mworld m2)) \<le> 4104 \<and> mem_dirty (wmem (mworld m2)) \<le> 9 \<and>
            mem_count (wmem (mworld m2)) < MAX_MEMORIES
        | Inl e \<Rightarrow> True)
   | _ \<Rightarrow> True"
proof (cases "consciousness_init env api tsc m")
  case (Inr r)
  show ?thesis
  proof (cases r)
    case (Awake m1)
    have "lean (wmem (mworld m2))" if "consciousness_run env api surs m1 = Inr m2" for m2
      using lean_life.consciousness_run_keeps [OF that] consciousness_init_lean Inr Awake by blast
    then show ?thesis
      using Inr Awake lean_bounds by (auto simp: lean_def split: sum.splits)
  qed (use Inr in simp)
qed simp

text \<open>The length of a silent life, exactly. A mind that starts without memories, under a model that always
  says something in at most \<open>k\<close> characters and never asks for an action, with heap for 4100 such
  thoughts, lives through every round up to the 4099th, one experience the richer after each; in the
  4100th it writes past the end of the index buffer, where the C is no longer defined, and no
  longer life returns.\<close>

theorem silent_life_ends:
  fixes env :: "(heap, 'f) act_env"
  assumes "kernel_env env" and "api_bounded api" and "silent_thinker k api" and "mind_ok m" and "ready (mllm m)"
    and "context_len (mllm m) \<noteq> 0" and "mem_count (wmem (mworld m)) = 0" and "mem_dirty (wmem (mworld m)) = 0"
    and "4100 * (k + 16) \<le> heap_free (heap_state (wmem (mworld m)))" and "list_all surroundings_ok surs"
  shows "if length surs < 4100
    then \<exists>m'. consciousness_run env api surs m = Inr m' \<and> mem_count (wmem (mworld m')) = length surs
    else consciousness_run env api surs m = Inl BufferOverflow"
proof -
  have "aged k 0 m"
    using assms(4-9) by (simp add: aged_def)
  from consciousness_run_aged [OF assms(1-3) this _ assms(10)] show ?thesis
    by (auto simp: aged_def split: if_splits)
qed

text \<open>The sample library says the same letter 256 times.\<close>

lemma echo_loop:
  assumes "set out \<subseteq> {CHR ''B''}" and "length out + n \<le> 4094"
    and "think_loop echo_llama sampler 4096 n out st = Inr (out', st')"
  shows "set out' \<subseteq> {CHR ''B''} \<and> length out' = length out + n"
  using assms
proof (induction n arbitrary: out st)
  case (Suc n)
  obtain st1 where "think_loop echo_llama sampler 4096 n (out @ ''B'') st1 = Inr (out', st')"
    using Suc.prems(2,3) by (auto simp: echo_llama_def BATCH_SIZE_def Let_def split: if_splits)
  from Suc.IH [OF _ _ this] Suc.prems(1,2) show ?case
    by simp
qed simp

lemma echo_silent: "silent_thinker 256 echo_llama"
  unfolding silent_thinker_def
proof (intro allI impI)
  fix buf len out and st st' :: "token list llm"
  assume "ready st" "context_len st \<noteq> 0" "llm_think echo_llama buf 4096 256 st = Inr (len, out, st')"
  then obtain sampler st1 st2 where "think_loop echo_llama sampler 4096 256 [] st1 = Inr (out, st2)"
    by (fastforce simp: llm_think_def Let_def split: prod.splits if_splits)
  from echo_loop [OF _ _ this] have out: "set out \<subseteq> {CHR ''B''}" "length out = 256"
    by simp_all
  then have "CHR ''<'' \<notin> set (c_string out)"
    unfolding c_string_def by (auto dest: set_takeWhileD)
  then have "\<not> sublist ''<ACT:'' (c_string out)"
    using set_mono_sublist [of "''<ACT:''" "c_string out"] by auto
  then show "out \<noteq> [] \<and> length out \<le> 256 \<and> \<not> sublist ''<ACT:'' (c_string out)"
    using out(2) by auto
qed

definition young_mind :: "(heap, fs_state, token list) mind" where
  "young_mind = (first_mind 10)\<lparr>mworld := first_world\<lparr>wmem := mem_static \<lparr>heap_ptr = 16, heap_end = 0x1000000\<rparr> fs_static\<rparr>\<rparr>"

lemma young_mind_ok: "mind_ok young_mind"
proof -
  have "mem_ok heap_ok heap_used (wmem (mworld young_mind))"
    by (simp add: young_mind_def, rule mem_static_ok) (simp add: heap_ok_def HEAP_TOP_def)
  moreover have "mind_ok (first_mind 10)"
    by (rule first_mind_ok) simp
  ultimately show ?thesis
    by (simp add: mind_ok_def young_mind_def first_mind_def world_ok_def results_ok_def)
qed

theorem silent_life_ends_witness:
  "(\<exists>m'. consciousness_run stub_env echo_llama (replicate 4099 dark) young_mind = Inr m' \<and>
      mem_count (wmem (mworld m')) = 4099) \<and>
    consciousness_run stub_env echo_llama (replicate 4100 dark) young_mind = Inl BufferOverflow"
proof -
  have fields: "ready (mllm young_mind)" "context_len (mllm young_mind) \<noteq> 0" "mem_count (wmem (mworld young_mind)) = 0"
      "mem_dirty (wmem (mworld young_mind)) = 0"
      "4100 * (256 + 16) \<le> heap_free (heap_state (wmem (mworld young_mind)))"
    by (simp_all add: young_mind_def first_mind_def awake_def mem_static_def heap_free_def)
  have "list_all surroundings_ok (replicate n dark)" for n
    using first_mind_ok(2) by (simp add: list_all_iff)
  note life = silent_life_ends [OF stub_env_ok(1) echo_llama_ok(1) echo_silent young_mind_ok fields this]
  show ?thesis
    using life [of 4099] life [of 4100] by simp
qed

text \<open>A life ends of its own memories. With 4095 or more experiences held, nine of them waiting to
  be written, and room in the heap, the next thought that asks for no action overruns the index
  buffer: the round does not return.\<close>

theorem memory_ends_life:
  fixes env :: "(heap, 'f) act_env"
  assumes "kernel_env env" and "api_bounded api" and "mind_ok m" and "surroundings_ok sur"
    and "ready (mllm m)" and "context_len (mllm m) \<noteq> 0"
    and "4095 \<le> mem_count (wmem (mworld m))" and "mem_count (wmem (mworld m)) \<le> 4104"
    and "mem_dirty (wmem (mworld m)) = 9" and "0 < heap_room (heap_state (wmem (mworld m)))"
  shows "\<exists>m1. perceive_and_think api sur m = Inr (int (length (output_buf m1)), m1) \<and>
    (output_buf m1 = [] \<or> sublist ''<ACT:'' (c_string (output_buf m1)) \<or>
     live_tick env api sur m = Inl BufferOverflow)"
proof -
  obtain len m1 where m1: "perceive_and_think api sur m = Inr (len, m1)" "mworld m1 = mworld m"
      "len = int (length (output_buf m1))"
    using perceive_and_think_total [OF assms(2-4)] assms(5,6) by blast
  have w: "world_ok (mworld m)"
    using assms(3) by (simp add: mind_ok_def)
  have few: "mem_count (wmem (mworld m)) < MAX_MEMORIES"
    using assms(8) by (simp add: MAX_MEMORIES_def)
  have "live_tick env api sur m = Inl BufferOverflow"
    if "output_buf m1 \<noteq> []" "\<not> sublist ''<ACT:'' (c_string (output_buf m1))"
    using act_and_remember_full [OF assms(1) w assms(7) few assms(9,10) that(2), of "life_tick m1"] m1 that(1)
    by (simp add: live_tick_def)
  then show ?thesis
    using m1 by (intro exI [of _ m1]) auto
qed

text \<open>A mind that holds one experience 4100 times.\<close>

definition old_mind :: "(heap, fs_state, token list) mind" where
  "old_mind = (first_mind 10)\<lparr>mworld := first_world
     \<lparr>wmem := mem_static \<lparr>heap_ptr = 32, heap_end = 65536\<rparr> fs_static
        \<lparr>mem_count := 4100, mem_dirty := 9,
         mem_store := (\<lambda>_. \<lparr>ment_type = 0, importance = 1, tick = 0, timestamp_ms = 0,
           content = 16, content_len = 3, dirty = True\<rparr>)\<rparr>\<rparr>\<rparr>"

lemma old_mind_ok: "mind_ok old_mind"
proof -
  have "mem_ok heap_ok heap_used (wmem (mworld old_mind))"
    by (auto simp: mem_ok_def old_mind_def mem_static_def entry_ok_def heap_ok_def heap_used_def
        HEAP_TOP_def MAX_MEMORIES_def MAX_CONTENT_LEN_def)
  moreover have "mind_ok (first_mind 10)"
    by (rule first_mind_ok) simp
  ultimately show ?thesis
    by (simp add: mind_ok_def old_mind_def first_mind_def world_ok_def results_ok_def)
qed

theorem memory_ends_life_witness:
  "\<exists>m1. perceive_and_think echo_llama dark old_mind = Inr (int (length (output_buf m1)), m1) \<and>
    (output_buf m1 = [] \<or> sublist ''<ACT:'' (c_string (output_buf m1)) \<or>
     live_tick stub_env echo_llama dark old_mind = Inl BufferOverflow)"
  by (rule memory_ends_life [OF stub_env_ok(1) echo_llama_ok(1) old_mind_ok first_mind_ok(2)])
    (simp_all add: old_mind_def first_mind_def awake_def mem_static_def heap_room_def)

end
