(* ===== verification/Boot.thy ===== *)
theory Boot
  imports Consciousness Serial Gdt KernelRun
begin

section \<open>From the boot loader to the first thought\<close>

text \<open>
  \<^verbatim>\<open>kernel/kernel.c\<close> and \<^verbatim>\<open>kernel/process/scheduler.c\<close>: the order in which the kernel brings the
  hardware up, and the hand-over to the consciousness, on the kernel's own heap and file layer.
  The stages draw the lines of the boot log on the screen. What goes to the serial line after the
  set-up of the port, and that is all the system calls and the scheduler do at start, is modelled
  on its own, since the line may never become ready.
\<close>

subsection \<open>State\<close>

definition AION_MAGIC :: u64 where "AION_MAGIC = 0x41494F4E"

record AionBootInfo =
  magic :: u64
  kernel_phys_addr :: u64
  kernel_size :: u64
  mmap_addr :: u64
  mmap_size :: u64
  mmap_desc_size :: u64
  mmap_desc_version :: u32
  mmap_key :: u64
  fb_addr :: u64
  fb_width :: u32
  fb_height :: u32
  fb_line :: u32
  fb_format :: u32
  rsdp_addr :: u64
  reserved :: "u64 list"

text \<open>
  Where the linker has put the tables and stubs, the boot loader's memory, and what stands on the
  stack where a driver keeps its PCI record.
\<close>

record 'd platform =
  ports :: "'d bus"
  isr_addr :: "nat \<Rightarrow> u64"
  irq_addr :: "nat \<Rightarrow> u64"
  idt_at :: u64
  int_stack_at :: u64
  tss_at :: u64
  gdt_at :: u64
  boot_mem :: byte_mem
  stale :: PciDevice

record ('c, 'd) machine =
  k_disp :: display
  k_gdt :: gdt_state
  k_mem :: "('c, 'd) kmem"
  k_nvme :: nvme
  k_fs :: fs_state
  k_hda :: hda
  k_cam :: cam
  k_mic :: mic
  k_net :: NetworkStatus
  k_bytes :: byte_mem

definition devices :: "('c, 'd) machine \<Rightarrow> 'd" where "devices m = dev (irqs (k_mem m))"

definition set_devices :: "'d \<Rightarrow> ('c, 'd) machine \<Rightarrow> ('c, 'd) machine" where
  "set_devices d m = m\<lparr>k_mem := (k_mem m)\<lparr>irqs := (irqs (k_mem m))\<lparr>dev := d\<rparr>\<rparr>\<rparr>"

subsection \<open>The scheduler\<close>

text \<open>Spawning runs the entry to its end.\<close>

definition scheduler_spawn :: "('s \<Rightarrow> 's) \<Rightarrow> u8 \<Rightarrow> 's \<Rightarrow> u64 \<times> 's" where
  "scheduler_spawn entry priority s = (0, entry s)"

subsection \<open>The serial lines of start-up\<close>

text \<open>
  What start-up also writes to the serial line, which may wait for ever: the line of the boot log
  and all that the system calls and the scheduler do when they are initialised.
\<close>

definition boot_log_line :: "'d bus \<Rightarrow> string \<Rightarrow> string \<Rightarrow> 'd \<Rightarrow> 'd option" where
  "boot_log_line b stage msg d = serial_printf b (''[boot] %-20s %s'' @ [CHR 0x0A]) [AStr stage, AStr msg] d"

definition syscall_init :: "'d bus \<Rightarrow> 'd \<Rightarrow> 'd option" where
  "syscall_init b d = serial_printf b (''[syscall] init'' @ [CHR 0x0A]) [] d"

definition scheduler_init :: "'d bus \<Rightarrow> 'd \<Rightarrow> 'd option" where
  "scheduler_init b d = serial_printf b (''[sched] init (cooperative)'' @ [CHR 0x0A]) [] d"

text \<open>The formatter does not know the padded directive: the name of the stage is printed where its message
  should be, and no message ever reaches the line.\<close>

lemma boot_log_line_sent:
  assumes "uart_bus b sent"
  shows "\<exists>d'. boot_log_line b stage msg d = Some d' \<and>
    sent d' = sent d @ line_bytes (''[boot] 20s '' @ stage @ [CHR 0x0A])"
  unfolding boot_log_line_def serial_printf_def
  using serial_puts_sends [OF assms, of "''[boot] 20s '' @ stage @ [CHR 0x0A]" d] by (simp add: format_steps)

lemma init_lines_sent:
  assumes "uart_bus b sent"
  shows "\<exists>d1 d2. syscall_init b d = Some d1 \<and> sent d1 = sent d @ line_bytes (''[syscall] init'' @ [CHR 0x0A]) \<and>
    scheduler_init b d1 = Some d2 \<and> sent d2 = sent d1 @ line_bytes (''[sched] init (cooperative)'' @ [CHR 0x0A])"
proof -
  have sends: "\<exists>d'. serial_printf b fmt [] d = Some d' \<and> sent d' = sent d @ line_bytes fmt"
    if "CHR ''%'' \<notin> set fmt" for fmt d
    using serial_puts_sends [OF assms, of fmt d] serial_format_literal [OF that, of "[]" "[]"]
    by (simp add: serial_printf_def)
  show ?thesis
    using sends [of "''[syscall] init'' @ [CHR 0x0A]" d] sends [of "''[sched] init (cooperative)'' @ [CHR 0x0A]"]
    unfolding syscall_init_def scheduler_init_def by fastforce
qed

subsection \<open>Bringing the hardware up\<close>

definition boot_log :: "string \<Rightarrow> string \<Rightarrow> ('c, 'd) machine \<Rightarrow> ('c, 'd) machine" where
  "boot_log stage msg m = m\<lparr>k_disp := display_print_boot_line stage msg (k_disp m)\<rparr>"

text \<open>A stage that cannot fail, between its two lines of the log.\<close>

definition boot_stage ::
  "string \<Rightarrow> string \<Rightarrow> (('c, 'd) machine \<Rightarrow> ('c, 'd) machine checked) \<Rightarrow> ('c, 'd) machine \<Rightarrow> ('c, 'd) machine checked"
where
  "boot_stage stage msg f m = rbind (f (boot_log stage msg m)) (\<lambda>m. Inr (boot_log stage ''ok'' m))"

definition start_gdt :: "'d platform \<Rightarrow> ('c, 'd) machine \<Rightarrow> ('c, 'd) machine checked" where
  "start_gdt p m = Inr (m\<lparr>k_gdt := gdt_init (int_stack_at p) (tss_at p) (gdt_at p) (k_gdt m)\<rparr>)"

definition start_idt :: "'d platform \<Rightarrow> ('c, 'd) machine \<Rightarrow> ('c, 'd) machine checked" where
  "start_idt p m = Inr (m\<lparr>k_mem := (k_mem m)\<lparr>irqs :=
     idt_init (ports p) (isr_addr p) (irq_addr p) (idt_at p) (irqs (k_mem m))\<rparr>\<rparr>)"

definition start_memory :: "'d platform \<Rightarrow> AionBootInfo \<Rightarrow> ('c, 'd) machine \<Rightarrow> ('c, 'd) machine checked" where
  "start_memory p bi m =
     rbind (memory_init (ports p) (boot_mem p) (mmap_addr bi) (mmap_size bi) (mmap_desc_size bi) (k_mem m)) (\<lambda>k.
       Inr (m\<lparr>k_mem := k\<rparr>))"

definition start_display :: "AionBootInfo \<Rightarrow> ('c, 'd) machine \<Rightarrow> ('c, 'd) machine checked" where
  "start_display bi m =
     Inr (m\<lparr>k_disp := display_init (fb_addr bi) (fb_width bi) (fb_height bi) (fb_line bi) (fb_format bi) (k_disp m)\<rparr>)"

definition start_pci :: "'d platform \<Rightarrow> ('c, 'd) machine \<Rightarrow> ('c, 'd) machine checked" where
  "start_pci p m = Inr (set_devices (pci_init (ports p) (devices m)) m)"

definition start_usb :: "'d platform \<Rightarrow> ('c, 'd) machine \<Rightarrow> ('c, 'd) machine checked" where
  "start_usb p m = Inr (set_devices (usb_init (ports p) (stale p) (devices m)) m)"

definition start_nvme :: "'d platform \<Rightarrow> ('c, 'd) machine \<Rightarrow> ('c, 'd) machine checked" where
  "start_nvme p m =
     rbind (nvme_init (ports p) (stale p) (k_nvme m, devices m)) (\<lambda>(n, d). Inr (set_devices d (m\<lparr>k_nvme := n\<rparr>)))"

definition start_fs :: "('c, 'd) machine \<Rightarrow> ('c, 'd) machine checked" where
  "start_fs m = Inr (m\<lparr>k_fs := fs_init (k_fs m)\<rparr>)"

definition start_audio :: "'d platform \<Rightarrow> ('c, 'd) machine \<Rightarrow> ('c, 'd) machine checked" where
  "start_audio p m =
     rbind (audio_init (ports p) (stale p) (k_hda m, devices m)) (\<lambda>(a, d). Inr (set_devices d (m\<lparr>k_hda := a\<rparr>)))"

definition start_cam :: "('c, 'd) machine \<Rightarrow> ('c, 'd) machine checked" where
  "start_cam m =
     (let (c, h, bs) = cam_init kmalloc (k_cam m, kheap (k_mem m), k_bytes m)
      in Inr (m\<lparr>k_cam := c, k_mem := (k_mem m)\<lparr>kheap := h\<rparr>, k_bytes := bs\<rparr>))"

definition start_mic :: "('c, 'd) machine \<Rightarrow> ('c, 'd) machine checked" where
  "start_mic m =
     (let (c, h, bs) = mic_init kmalloc (k_mic m, kheap (k_mem m), k_bytes m)
      in Inr (m\<lparr>k_mic := c, k_mem := (k_mem m)\<lparr>kheap := h\<rparr>, k_bytes := bs\<rparr>))"

definition start_network :: "'d platform \<Rightarrow> ('c, 'd) machine \<Rightarrow> ('c, 'd) machine checked" where
  "start_network p m =
     (let (n, d) = network_init (ports p) (stale p) (k_net m, devices m) in Inr (set_devices d (m\<lparr>k_net := n\<rparr>)))"

primrec in_order :: "('s \<Rightarrow> 's checked) list \<Rightarrow> 's \<Rightarrow> 's checked" where
  "in_order [] s = Inr s"
| "in_order (f # fs) s = rbind (f s) (in_order fs)"

definition boot_stages :: "'d platform \<Rightarrow> AionBootInfo \<Rightarrow> (('c, 'd) machine \<Rightarrow> ('c, 'd) machine checked) list" where
  "boot_stages p bi =
     [boot_stage ''GDT'' ''loading...'' (start_gdt p),
      boot_stage ''IDT'' ''loading...'' (start_idt p),
      boot_stage ''memory'' ''initialising...'' (start_memory p bi),
      boot_stage ''display'' ''init...'' (start_display bi),
      boot_stage ''PCI'' ''scanning...'' (start_pci p),
      boot_stage ''USB'' ''init...'' (start_usb p),
      boot_stage ''NVMe'' ''init...'' (start_nvme p),
      boot_stage ''filesystem'' ''mounting...'' start_fs,
      boot_stage ''audio'' ''init...'' (start_audio p),
      boot_stage ''camera'' ''init...'' start_cam,
      boot_stage ''microphone'' ''init...'' start_mic,
      boot_stage ''network'' ''init...'' (start_network p),
      boot_stage ''syscall'' ''init...'' Inr,
      boot_stage ''scheduler'' ''init...'' Inr]"

definition kernel_boot :: "'d platform \<Rightarrow> AionBootInfo \<Rightarrow> ('c, 'd) machine \<Rightarrow> ('c, 'd) machine checked" where
  "kernel_boot p bi m = in_order (boot_stages p bi) (set_devices (serial_init (ports p) (devices m)) m)"

subsection \<open>The whole of \<open>kernel_main\<close>\<close>

definition kernel_fs_env :: "(nat \<Rightarrow> string) \<Rightarrow> (heap, fs_state) act_env" where
  "kernel_fs_env junk = \<lparr>env_malloc = kmalloc, env_release = kfree, env_junk = junk, env_fs = fs_stub\<rparr>"

text \<open>The consciousness starts on the hardware as it is and on its own zeroed data.\<close>

definition newborn :: "'l \<Rightarrow> ('c, 'd) machine \<Rightarrow> (heap, fs_state, 'l) mind" where
  "newborn l m = \<lparr>life_tick = 0, output_buf = [], sense_buf = [],
     mworld = \<lparr>wdisp = k_disp m, whda = k_hda m, wmem = mem_static (kheap (k_mem m)) (k_fs m), results = [],
       results_buf = [], pcm_bytes = replicate 2048 0, msr_writes = [], nops = 0\<rparr>,
     mllm = llm_static l, msenses = senses_static\<rparr>"

definition seen_from :: "('c, 'd) machine \<Rightarrow> u64 \<times> byte_mem \<Rightarrow> surroundings" where
  "seen_from m = (\<lambda>(t, bs). \<lparr>now = t, devmem = bs, s_cam = k_cam m, s_mic = k_mic m, s_net = k_net m,
     s_fs = k_fs m, s_pmm = frames (vm (k_mem m)), s_swap = sw (k_mem m)\<rparr>)"

text \<open>
  The outcome after some rounds of the loop, each at a time and on the device memory given: the
  kernel may have halted before waking anything, or the model may have failed to start.
\<close>

datatype ('m, 'a) outcome = NoBoot | NoMind 'a | Lives 'm 'a

definition kernel_main ::
  "'d platform \<Rightarrow> 'l llama \<Rightarrow> (nat \<Rightarrow> string) \<Rightarrow> u64 \<Rightarrow> (u64 \<times> byte_mem) list \<Rightarrow> AionBootInfo option \<Rightarrow> 'l \<Rightarrow>
     ('c, 'd) machine \<Rightarrow> (('c, 'd) machine, (heap, fs_state, 'l) mind) outcome checked" where
  "kernel_main p api junk tsc rounds boot_info l m =
     (case boot_info of
        None \<Rightarrow> Inr NoBoot
      | Some bi \<Rightarrow>
          if magic bi \<noteq> AION_MAGIC then Inr NoBoot
          else
            rbind (kernel_boot p bi m) (\<lambda>m.
            rbind (consciousness_init (kernel_fs_env junk) api tsc (newborn l m)) (\<lambda>s.
              case s of
                Halted mi \<Rightarrow> Inr (NoMind mi)
              | Awake mi \<Rightarrow>
                  rbind (consciousness_run (kernel_fs_env junk) api (map (seen_from m) rounds) mi) (\<lambda>mi.
                    Inr (Lives m mi)))))"

subsection \<open>Stages and what they leave\<close>

definition leads_to :: "('s \<Rightarrow> bool) \<Rightarrow> ('s \<Rightarrow> 's checked) \<Rightarrow> ('s \<Rightarrow> bool) \<Rightarrow> bool" where
  "leads_to P f Q \<longleftrightarrow> (\<forall>s. P s \<longrightarrow> (\<exists>s'. f s = Inr s' \<and> Q s'))"

lemma leads_toI: "(\<And>s. P s \<Longrightarrow> \<exists>s'. f s = Inr s' \<and> Q s') \<Longrightarrow> leads_to P f Q"
  by (simp add: leads_to_def)

lemma in_order_Nil: "leads_to P (in_order []) P"
  by (simp add: leads_to_def)

lemma in_order_Cons: "leads_to P f Q \<Longrightarrow> leads_to Q (in_order fs) R \<Longrightarrow> leads_to P (in_order (f # fs)) R"
  by (fastforce simp: leads_to_def)

text \<open>
  The state between two stages: the memory is zeroed or up, the screen is up or not, and a camera
  that is ready has a frame.
\<close>

definition cam_ok :: "cam \<Rightarrow> bool" where
  "cam_ok c \<longleftrightarrow> (cam_ready c \<longrightarrow> cam_width (cam_frame c) * cam_height (cam_frame c) \<noteq> 0)"

definition zeroed :: "('c, 'd) kmem \<Rightarrow> bool" where
  "zeroed k \<longleftrightarrow> (\<exists>c boot_cr3. kmem_static c boot_cr3 k)"

text \<open>The memory is up, and of its heap at most \<open>n\<close> bytes have been handed out since.\<close>

definition memory_up :: "'d platform \<Rightarrow> AionBootInfo \<Rightarrow> nat \<Rightarrow> ('c, 'd) kmem \<Rightarrow> bool" where
  "memory_up p bi n k \<longleftrightarrow> (\<exists>c boot_cr3 s s0. kmem_static c boot_cr3 (s :: ('c, 'd) kmem) \<and>
     memory_init (ports p) (boot_mem p) (mmap_addr bi) (mmap_size bi) (mmap_desc_size bi) s = Inr s0 \<and>
     vm k = vm s0 \<and> user_handlers (irqs k) = user_handlers (irqs s0) \<and>
     heap_between (unat (heap_ptr (kheap s0))) (heap_end (kheap s0)) (kheap k) \<and>
     heap_free (kheap s0) \<le> heap_free (kheap k) + n)"

lemma memory_up_heap: "memory_up p bi n k \<Longrightarrow> heap_ok (kheap k)"
  by (auto simp: memory_up_def heap_between_def)

lemma memory_up_malloc:
  assumes "memory_up p bi n k" and "unat r \<le> KMALLOC_LIMIT" and "kmalloc r (kheap k) = (q, h)"
  shows "memory_up p bi (n + (unat r + 15)) (k\<lparr>kheap := h\<rparr>)"
proof -
  have "heap_free (kheap k) \<le> heap_free h + (unat r + 15)"
    by (rule kmalloc_takes [OF memory_up_heap [OF assms(1)] assms(2,3)])
  moreover have "heap_between lo roof h" if "heap_between lo roof (kheap k)" for lo roof
    using kmalloc_between [OF that assms(2,3)] .
  ultimately show ?thesis
    using assms(1) by (fastforce simp: memory_up_def)
qed

lemma memory_up_devices [simp]: "memory_up p bi n (k\<lparr>irqs := (irqs k)\<lparr>dev := d\<rparr>\<rparr>) = memory_up p bi n k"
  by (simp add: memory_up_def)

text \<open>What start-up has left is a sound machine of the kernel's memory.\<close>

lemma memory_up_kernel_inv:
  fixes k :: "('c, 'd) kmem"
  assumes "memory_up p bi n k" and "mmap_desc_size bi \<noteq> 0"
    and "mmap_count (boot_mem p) (mmap_addr bi) (mmap_size bi) (mmap_desc_size bi) \<le> MAX_PAGES"
    and "kernel_pml4 (vm k) \<noteq> 0"
  shows "kernel_inv ({}, k) \<and> user_handlers (irqs k) 14 = Some SwapPageFault"
proof -
  obtain c boot_cr3 and s s0 :: "('c, 'd) kmem" where s0: "kmem_static c boot_cr3 s"
      "memory_init (ports p) (boot_mem p) (mmap_addr bi) (mmap_size bi) (mmap_desc_size bi) s = Inr s0"
      "vm k = vm s0" "user_handlers (irqs k) = user_handlers (irqs s0)"
      "heap_end (kheap k) = heap_end (kheap s0)" "heap_ok (kheap k)"
    using assms(1) unfolding memory_up_def heap_between_def by blast
  have pml4: "kernel_pml4 (vm s0) \<noteq> 0"
    using assms(4) s0(3) by simp
  note up = memory_init_kernel_inv [OF s0(1) assms(2,3) s0(2) pml4]
  have "heap_frames (kheap k) = heap_frames (kheap s0)"
    using s0(5) by (rule heap_frames_cong)
  then show ?thesis
    using up s0(3,4,6) by (simp add: kernel_inv_def owners_def)
qed

primrec memory_stage :: "'d platform \<Rightarrow> AionBootInfo \<Rightarrow> nat option \<Rightarrow> ('c, 'd) kmem \<Rightarrow> bool" where
  "memory_stage p bi None k \<longleftrightarrow> zeroed k"
| "memory_stage p bi (Some n) k \<longleftrightarrow> memory_up p bi n k"

lemma memory_stage_devices [simp]:
  "memory_stage p bi stage (k\<lparr>irqs := (irqs k)\<lparr>dev := d\<rparr>\<rparr>) = memory_stage p bi stage k"
  by (cases stage) (simp_all add: zeroed_def kmem_static_def)

definition boot_inv :: "'d platform \<Rightarrow> AionBootInfo \<Rightarrow> nat option \<Rightarrow> bool \<Rightarrow> ('c, 'd) machine \<Rightarrow> bool" where
  "boot_inv p bi mem_up screen_up m \<longleftrightarrow> memory_stage p bi mem_up (k_mem m) \<and>
     (screen_up \<longrightarrow> screen_ok (k_disp m) \<and> cursor_ok (k_disp m)) \<and> cam_ok (k_cam m)"

lemma boot_log_inv: "boot_inv p bi mem_up screen_up m \<Longrightarrow> boot_inv p bi mem_up screen_up (boot_log stage msg m)"
  using print_string_screen [OF draws_refl]
  by (auto simp: boot_inv_def boot_log_def display_print_boot_line_def Let_def)

lemma boot_stage_inv:
  fixes f :: "('c, 'd) machine \<Rightarrow> ('c, 'd) machine checked"
  assumes "leads_to (boot_inv p bi mem_up screen_up) f (boot_inv p bi mem_up' screen_up')"
  shows "leads_to (boot_inv p bi mem_up screen_up) (boot_stage stage msg f) (boot_inv p bi mem_up' screen_up')"
proof (rule leads_toI)
  fix m :: "('c, 'd) machine"
  assume "boot_inv p bi mem_up screen_up m"
  then obtain m' where "f (boot_log stage msg m) = Inr m'" "boot_inv p bi mem_up' screen_up' m'"
    using assms boot_log_inv unfolding leads_to_def by blast
  then show "\<exists>m'. boot_stage stage msg f m = Inr m' \<and> boot_inv p bi mem_up' screen_up' m'"
    by (auto simp: boot_stage_def intro: boot_log_inv)
qed

lemma devices_fields [simp]:
  "k_disp (set_devices d m) = k_disp m" "k_cam (set_devices d m) = k_cam m" "k_fs (set_devices d m) = k_fs m"
  "kheap (k_mem (set_devices d m)) = kheap (k_mem m)" "vm (k_mem (set_devices d m)) = vm (k_mem m)"
  "sw (k_mem (set_devices d m)) = sw (k_mem m)"
  by (simp_all add: set_devices_def)

lemma boot_inv_devices [simp]: "boot_inv p bi mem_up screen_up (set_devices d m) = boot_inv p bi mem_up screen_up m"
  by (simp add: boot_inv_def set_devices_def)

lemma start_gdt_inv: "leads_to (boot_inv p bi mu su) (start_gdt p) (boot_inv p bi mu su)"
  by (simp add: leads_to_def start_gdt_def boot_inv_def)

lemma start_idt_inv: "leads_to (boot_inv p bi None su) (start_idt p) (boot_inv p bi None su)"
  by (simp add: leads_to_def start_idt_def boot_inv_def zeroed_def kmem_static_def)

lemma start_memory_inv:
  fixes p :: "'d platform"
  assumes "mmap_desc_size bi \<noteq> 0"
    and "mmap_count (boot_mem p) (mmap_addr bi) (mmap_size bi) (mmap_desc_size bi) \<le> MAX_PAGES"
  shows "leads_to (boot_inv p bi None su) (start_memory p bi) (boot_inv p bi (Some 0) su)"
proof (rule leads_toI)
  fix m :: "('c, 'd) machine"
  assume m: "boot_inv p bi None su m"
  then obtain c boot_cr3 where z: "kmem_static c boot_cr3 (k_mem m)"
    by (auto simp: boot_inv_def zeroed_def)
  then obtain k where k: "memory_init (ports p) (boot_mem p) (mmap_addr bi) (mmap_size bi) (mmap_desc_size bi) (k_mem m) = Inr k"
      "heap_ok (kheap k)"
    using memory_init_spec [OF _ assms] by blast
  have "memory_up p bi 0 k"
    using z k memory_init_between(1) [OF z assms k(1)] unfolding memory_up_def by auto
  with k(1) show "\<exists>m'. start_memory p bi m = Inr m' \<and> boot_inv p bi (Some 0) su m'"
    using m by (simp add: start_memory_def boot_inv_def)
qed

text \<open>A screen the boot loader may report: its rows fit, and it has room for a glyph.\<close>

definition frame_ok :: "AionBootInfo \<Rightarrow> bool" where
  "frame_ok bi \<longleftrightarrow> 4 * unat (fb_width bi) \<le> unat (fb_line bi) \<and> unat (fb_height bi) * unat (fb_line bi) < 2 ^ 32 \<and>
     unat (fb_addr bi) + unat (fb_height bi) * unat (fb_line bi) \<le> 2 ^ 64 \<and>
     17 \<le> unat (fb_width bi) \<and> 20 \<le> unat (fb_height bi) \<and>
     unat (fb_width bi) < 2 ^ 31 \<and> unat (fb_height bi) < 2 ^ 31"

lemma start_display_inv:
  fixes p :: "'d platform"
  assumes "frame_ok bi"
  shows "leads_to (boot_inv p bi mu su) (start_display bi) (boot_inv p bi mu True)"
proof (rule leads_toI)
  fix m :: "('c, 'd) machine"
  assume m: "boot_inv p bi mu su m"
  let ?d = "(k_disp m)\<lparr>fb_base := fb_addr bi, fb_w := fb_width bi, fb_h := fb_height bi, fb_pitch := fb_line bi\<rparr>"
  have "screen_ok ?d"
    using assms by (simp add: frame_ok_def screen_ok_def geometry_ok_def)
  then show "\<exists>m'. start_display bi m = Inr m' \<and> boot_inv p bi mu True m'"
    using m clear_screen [OF draws_refl, of ?d] by (simp add: start_display_def boot_inv_def display_init_def)
qed

lemma pci_get_bar_0: "\<exists>a. pci_get_bar d 0 = Inr a"
  by (simp add: pci_get_bar_def Let_def)

lemma nvme_init_total: "\<exists>n d'. nvme_init b dev0 (s, d) = Inr (n, d')"
proof -
  obtain r dev d1 where find: "pci_find_class b 0x01 0x08 dev0 d = (r, dev, d1)"
    by (rule prod_cases3)
  obtain base where "pci_get_bar dev 0 = Inr base"
    using pci_get_bar_0 by blast
  with find show ?thesis
    by (simp add: nvme_init_def)
qed

lemma audio_init_total: "\<exists>a d'. audio_init b dev0 (s, d) = Inr (a, d')"
proof -
  obtain r dev d1 where find: "pci_find_class b HDA_CLASS HDA_SUBCLASS dev0 d = (r, dev, d1)"
    by (rule prod_cases3)
  obtain base where "pci_get_bar dev 0 = Inr base"
    using pci_get_bar_0 by blast
  with find show ?thesis
    by (simp add: audio_init_def Let_def)
qed

lemma start_nvme_inv:
  fixes p :: "'d platform"
  shows "leads_to (boot_inv p bi mu su) (start_nvme p) (boot_inv p bi mu su)"
proof (rule leads_toI)
  fix m :: "('c, 'd) machine"
  assume "boot_inv p bi mu su m"
  moreover have "boot_inv p bi mu su (m\<lparr>k_nvme := n\<rparr>) = boot_inv p bi mu su m" for n
    by (simp add: boot_inv_def)
  moreover obtain n d where "nvme_init (ports p) (stale p) (k_nvme m, devices m) = Inr (n, d)"
    using nvme_init_total [of "ports p" "stale p" "k_nvme m" "devices m"] by blast
  ultimately show "\<exists>m'. start_nvme p m = Inr m' \<and> boot_inv p bi mu su m'"
    by (simp add: start_nvme_def)
qed

lemma start_audio_inv:
  fixes p :: "'d platform"
  shows "leads_to (boot_inv p bi mu su) (start_audio p) (boot_inv p bi mu su)"
proof (rule leads_toI)
  fix m :: "('c, 'd) machine"
  assume "boot_inv p bi mu su m"
  moreover have "boot_inv p bi mu su (m\<lparr>k_hda := n\<rparr>) = boot_inv p bi mu su m" for n
    by (simp add: boot_inv_def)
  moreover obtain n d where "audio_init (ports p) (stale p) (k_hda m, devices m) = Inr (n, d)"
    using audio_init_total [of "ports p" "stale p" "k_hda m" "devices m"] by blast
  ultimately show "\<exists>m'. start_audio p m = Inr m' \<and> boot_inv p bi mu su m'"
    by (simp add: start_audio_def)
qed

lemma start_cam_inv:
  fixes p :: "'d platform"
  shows "leads_to (boot_inv p bi (Some n) su) start_cam (boot_inv p bi (Some (n + 153615)) su)"
proof (rule leads_toI)
  fix m :: "('c, 'd) machine"
  assume m: "boot_inv p bi (Some n) su m"
  obtain q h where call: "kmalloc (ucast CAM_FRAME_SIZE) (kheap (k_mem m)) = (q, h)"
    by fastforce
  have "unat (ucast CAM_FRAME_SIZE :: u64) + 15 = 153615"
    by (simp add: CAM_FRAME_SIZE_def CAM_WIDTH_def CAM_HEIGHT_def)
  moreover have "unat (ucast CAM_FRAME_SIZE :: u64) \<le> KMALLOC_LIMIT"
    by (simp add: CAM_FRAME_SIZE_def CAM_WIDTH_def CAM_HEIGHT_def KMALLOC_LIMIT_def)
  ultimately have "memory_up p bi (n + 153615) ((k_mem m)\<lparr>kheap := h\<rparr>)"
    using m memory_up_malloc [OF _ _ call, of p bi n] by (simp add: boot_inv_def)
  then show "\<exists>m'. start_cam m = Inr m' \<and> boot_inv p bi (Some (n + 153615)) su m'"
    using m call by (auto simp: start_cam_def cam_init_def boot_inv_def cam_ok_def CAM_WIDTH_def CAM_HEIGHT_def)
qed

lemma start_mic_inv:
  fixes p :: "'d platform"
  shows "leads_to (boot_inv p bi (Some n) su) start_mic (boot_inv p bi (Some (n + 8207)) su)"
proof (rule leads_toI)
  fix m :: "('c, 'd) machine"
  assume m: "boot_inv p bi (Some n) su m"
  obtain q h where call: "kmalloc (ucast MIC_BUF_BYTES) (kheap (k_mem m)) = (q, h)"
    by fastforce
  have "unat (ucast MIC_BUF_BYTES :: u64) + 15 = 8207"
    by (simp add: MIC_BUF_BYTES_def MIC_BUF_SAMPLES_def)
  moreover have "unat (ucast MIC_BUF_BYTES :: u64) \<le> KMALLOC_LIMIT"
    by (simp add: MIC_BUF_BYTES_def MIC_BUF_SAMPLES_def KMALLOC_LIMIT_def)
  ultimately have "memory_up p bi (n + 8207) ((k_mem m)\<lparr>kheap := h\<rparr>)"
    using m memory_up_malloc [OF _ _ call, of p bi n] by (simp add: boot_inv_def)
  then show "\<exists>m'. start_mic m = Inr m' \<and> boot_inv p bi (Some (n + 8207)) su m'"
    using m call by (auto simp: start_mic_def mic_init_def boot_inv_def)
qed

lemma start_network_inv:
  fixes p :: "'d platform"
  shows "leads_to (boot_inv p bi mu su) (start_network p) (boot_inv p bi mu su)"
proof (rule leads_toI)
  fix m :: "('c, 'd) machine"
  assume "boot_inv p bi mu su m"
  moreover have "boot_inv p bi mu su (m\<lparr>k_net := n\<rparr>) = boot_inv p bi mu su m" for n
    by (simp add: boot_inv_def)
  ultimately show "\<exists>m'. start_network p m = Inr m' \<and> boot_inv p bi mu su m'"
    by (simp add: start_network_def split: prod.splits)
qed

lemma start_fs_inv: "leads_to (boot_inv p bi mu su) start_fs (boot_inv p bi mu su)"
  by (simp add: leads_to_def start_fs_def boot_inv_def)

lemma start_pci_inv: "leads_to (boot_inv p bi mu su) (start_pci p) (boot_inv p bi mu su)"
  by (simp add: leads_to_def start_pci_def)

lemma start_usb_inv: "leads_to (boot_inv p bi mu su) (start_usb p) (boot_inv p bi mu su)"
  by (simp add: leads_to_def start_usb_def)

lemma start_nothing_inv: "leads_to (boot_inv p bi mu su) Inr (boot_inv p bi mu su)"
  by (simp add: leads_to_def)

lemmas stage_invs = start_gdt_inv start_idt_inv start_pci_inv start_usb_inv start_nvme_inv start_fs_inv
  start_audio_inv start_cam_inv start_mic_inv start_network_inv start_nothing_inv

lemma boot_stages_inv:
  assumes "mmap_desc_size bi \<noteq> 0"
    and "mmap_count (boot_mem p) (mmap_addr bi) (mmap_size bi) (mmap_desc_size bi) \<le> MAX_PAGES"
    and "frame_ok bi"
  shows "leads_to (boot_inv p bi None False) (in_order (boot_stages p bi)) (boot_inv p bi (Some 161822) True)"
proof -
  have "leads_to (boot_inv p bi None False) (in_order (boot_stages p bi)) (boot_inv p bi (Some (0 + 153615 + 8207)) True)"
    unfolding boot_stages_def
    by (rule in_order_Cons [OF boot_stage_inv [OF start_gdt_inv]]
        in_order_Cons [OF boot_stage_inv [OF start_idt_inv]]
        in_order_Cons [OF boot_stage_inv [OF start_memory_inv [OF assms(1,2)]]]
        in_order_Cons [OF boot_stage_inv [OF start_display_inv [OF assms(3)]]]
        in_order_Cons [OF boot_stage_inv] stage_invs in_order_Nil)+
  then show ?thesis
    by simp
qed

subsection \<open>Waking up on the machine\<close>

lemma kernel_boot_ok:
  assumes "zeroed (k_mem m)" and "cam_ok (k_cam m)" and "mmap_desc_size bi \<noteq> 0"
    and "mmap_count (boot_mem p) (mmap_addr bi) (mmap_size bi) (mmap_desc_size bi) \<le> MAX_PAGES"
    and "frame_ok bi"
  shows "\<exists>m'. kernel_boot p bi m = Inr m' \<and> boot_inv p bi (Some 161822) True m'"
proof -
  have "boot_inv p bi None False m"
    using assms(1,2) by (simp add: boot_inv_def)
  then have "boot_inv p bi None False (set_devices d m)" for d
    by simp
  then show ?thesis
    using boot_stages_inv [OF assms(3-5)] unfolding kernel_boot_def leads_to_def by blast
qed

lemma newborn_ok:
  assumes "boot_inv p bi (Some 161822) True m"
  shows "mind_ok (newborn l m)"
proof -
  have "mem_ok heap_ok heap_used (mem_static (kheap (k_mem m)) (k_fs m))"
    using assms by (intro mem_static_ok) (auto simp: boot_inv_def dest: memory_up_heap)
  then show ?thesis
    using assms by (simp add: mind_ok_def newborn_def world_ok_def boot_inv_def results_ok_def
        MAX_ACTION_RESULTS_def llm_static_def senses_static_def)
qed

lemma aion_memory_init_ok: "mem_ok hok used st \<Longrightarrow> mem_ok hok used (aion_memory_init fs st)"
  by (simp add: mem_ok_def aion_memory_init_def Let_def)

lemma llm_init_fields: "context_len (snd (llm_init api st)) = context_len st"
  by (auto simp: llm_init_def set_ratio_def Let_def split: prod.splits)

text \<open>On the file layer of the source there is never a store, so every start is a first one.\<close>

lemma consciousness_init_ok:
  assumes "mind_ok m" and "api_bounded api"
  shows "\<exists>s. consciousness_init (kernel_fs_env junk) api tsc m = Inr s \<and>
    (case s of Halted m' \<Rightarrow> fst (llm_init api (mllm m)) \<noteq> 0
     | Awake m' \<Rightarrow> fst (llm_init api (mllm m)) = 0 \<and> mind_ok m' \<and> life_tick m' = life_tick m)"
proof -
  obtain r l where init: "llm_init api (mllm m) = (r, l)"
    by fastforce
  have "context_len l \<le> 4095"
    using llm_init_fields [of api "mllm m"] init assms(1) by (simp add: mind_ok_def)
  then obtain q l' where feed: "llm_feed api (Some FIRST_SIGNAL) l = Inr (q, l')" "context_len l' \<le> 4095"
    using llm_feed_total [OF assms(2)] by blast
  have "\<not> aion_memory_has_store fs_stub st" for st :: "(heap, fs_state) amem"
    by (simp add: aion_memory_has_store_def fs_stub_def)
  then show ?thesis
    using assms(1) init feed
    by (simp add: consciousness_init_def senses_init_def get_uptime_ms_def calibrate_tsc_def kernel_fs_env_def
        Let_def mind_ok_def world_ok_def aion_memory_init_ok)
qed

lemma seen_from_ok: "boot_inv p bi mu su m \<Longrightarrow> list_all surroundings_ok (map (seen_from m) rounds)"
  by (auto simp: list_all_iff seen_from_def surroundings_ok_def boot_inv_def cam_ok_def split: prod.splits)

subsection \<open>Properties\<close>

lemma kernel_main_total:
  fixes m :: "('c, 'd) machine"
  assumes "zeroed (k_mem m)" and "cam_ok (k_cam m)" and "mmap_desc_size bi \<noteq> 0"
    and "mmap_count (boot_mem p) (mmap_addr bi) (mmap_size bi) (mmap_desc_size bi) \<le> MAX_PAGES"
    and "frame_ok bi" and "api_bounded api"
  shows "if magic bi \<noteq> AION_MAGIC then kernel_main p api junk tsc rounds (Some bi) l m = Inr NoBoot
    else case kernel_main p api junk tsc rounds (Some bi) l m of
      Inl e \<Rightarrow> e \<in> {SignedOverflow, DivideByZero, BufferOverflow} \<and> rounds \<noteq> []
    | Inr NoBoot \<Rightarrow> False
    | Inr (NoMind mi) \<Rightarrow> fst (llm_init api (llm_static l)) \<noteq> 0
    | Inr (Lives m' mi) \<Rightarrow> fst (llm_init api (llm_static l)) = 0 \<and> kernel_boot p bi m = Inr m' \<and>
        mind_ok mi \<and> life_tick mi = of_nat (length rounds)"
proof (cases "magic bi = AION_MAGIC")
  case False
  then show ?thesis
    by (simp add: kernel_main_def)
next
  case True
  obtain m' where boot: "kernel_boot p bi m = Inr m'" "boot_inv p bi (Some 161822) True m'"
    using kernel_boot_ok [OF assms(1-5)] by blast
  have env: "kernel_env (kernel_fs_env junk)" "reads_bounded (env_fs (kernel_fs_env junk))"
    by (simp_all add: kernel_env_def kernel_fs_env_def reads_bounded_def fs_stub_def)
  have born: "mllm (newborn l m') = llm_static l" "life_tick (newborn l m') = 0"
    by (simp_all add: newborn_def)
  obtain s where s: "consciousness_init (kernel_fs_env junk) api tsc (newborn l m') = Inr s"
    and wake: "case s of Halted mi \<Rightarrow> fst (llm_init api (mllm (newborn l m'))) \<noteq> 0
      | Awake mi \<Rightarrow> fst (llm_init api (mllm (newborn l m'))) = 0 \<and> mind_ok mi \<and> life_tick mi = life_tick (newborn l m')"
    using consciousness_init_ok [OF newborn_ok [OF boot(2)] assms(6), of junk tsc l] by blast
  show ?thesis
  proof (cases s)
    case (Halted mi)
    then show ?thesis
      using True boot(1) s wake born by (simp add: kernel_main_def)
  next
    case (Awake mi)
    let ?run = "consciousness_run (kernel_fs_env junk) api (map (seen_from m') rounds) mi"
    have "rounds \<noteq> []" if "?run = Inl e" for e
      using that by auto
    then show ?thesis
      using True boot(1) s wake born Awake
        consciousness_run_ok [OF env assms(6) _ seen_from_ok [OF boot(2)], of mi rounds]
      by (cases ?run) (auto simp: kernel_main_def)
  qed
qed

text \<open>C4: The whole program, from the entry of the kernel on: without the boot loader's magic number it
  halts before it touches anything. With it, on zeroed kernel data, a memory map of at most
  2\<open>^\<close>25 usable pages and a frame buffer that holds a glyph, every stage of the boot returns and
  leaves a sound heap and screen; the program then halts exactly if the model does not start,
  and otherwise lives for as many rounds as it is given, well-formed after each of them, unless a
  number overflows, a tone cannot be played or the index of its memory runs over.\<close>

theorem kernel_main_outcome:
  fixes m :: "('c, 'd) machine"
  assumes "zeroed (k_mem m)" and "cam_ok (k_cam m)" and "mmap_desc_size bi \<noteq> 0"
    and "mmap_count (boot_mem p) (mmap_addr bi) (mmap_size bi) (mmap_desc_size bi) \<le> MAX_PAGES"
    and "frame_ok bi" and "api_bounded api"
  shows "if magic bi \<noteq> AION_MAGIC then kernel_main p api junk tsc rounds (Some bi) l m = Inr NoBoot
    else case kernel_main p api junk tsc rounds (Some bi) l m of
      Inl e \<Rightarrow> e \<in> {SignedOverflow, DivideByZero, BufferOverflow} \<and> rounds \<noteq> []
    | Inr NoBoot \<Rightarrow> False
    | Inr (NoMind mi) \<Rightarrow> fst (llm_init api (llm_static l)) \<noteq> 0
    | Inr (Lives m' mi) \<Rightarrow> fst (llm_init api (llm_static l)) = 0 \<and> kernel_boot p bi m = Inr m' \<and>
        mind_ok mi \<and> life_tick mi = of_nat (length rounds)"
  using assms by (rule kernel_main_total)

definition sample_platform :: "port_write list platform" where
  "sample_platform = \<lparr>ports = trace_bus, isr_addr = (\<lambda>_. 0), irq_addr = (\<lambda>_. 0), idt_at = 0, int_stack_at = 0,
     tss_at = 0, gdt_at = 0, boot_mem = efi_sample,
     stale = \<lparr>vendor = 0, device = 0, pci_class = 0, pci_subclass = 0, pci_bus_no = 0, slot_no = 0, func_no = 0,
       bar = (\<lambda>_. 0), pci_irq = 0\<rparr>\<rparr>"

definition sample_machine :: "(unit, port_write list) machine" where
  "sample_machine = \<lparr>k_disp = display_static (\<lambda>_. 0), k_gdt = gdt_static, k_mem = kmem_sample, k_nvme = nvme_static,
     k_fs = fs_static, k_hda = hda_static, k_cam = cam_static, k_mic = mic_static, k_net = net_static,
     k_bytes = (\<lambda>_. 0)\<rparr>"

definition sample_info :: AionBootInfo where
  "sample_info = \<lparr>magic = AION_MAGIC, kernel_phys_addr = 0x100000, kernel_size = 0x1000, mmap_addr = 0x1000,
     mmap_size = 40, mmap_desc_size = 40, mmap_desc_version = 1, mmap_key = 0, fb_addr = 0x80000000,
     fb_width = 1366, fb_height = 768, fb_line = 5504, fb_format = 1, rsdp_addr = 0, reserved = replicate 8 0\<rparr>"

theorem kernel_main_outcome_witness:
  "case kernel_main sample_platform echo_llama (\<lambda>_. []) 0 [(1, \<lambda>_. 0), (2, \<lambda>_. 0)] (Some sample_info) [] sample_machine of
      Inl e \<Rightarrow> e \<in> {SignedOverflow, DivideByZero, BufferOverflow}
    | Inr NoBoot \<Rightarrow> False
    | Inr (NoMind mi) \<Rightarrow> False
    | Inr (Lives m' mi) \<Rightarrow> mind_ok mi \<and> life_tick mi = 2"
proof -
  have "kmem_static (\<lambda>_. 0) 0 kmem_sample"
    by (simp add: kmem_static_def kmem_sample_def)
  then have z: "zeroed (k_mem sample_machine)"
    by (auto simp: zeroed_def sample_machine_def)
  have start: "fst (llm_init echo_llama (llm_static [])) = 0"
    by (simp add: llm_init_def echo_llama_def)
  note k = kernel_main_outcome [OF z, of sample_info sample_platform echo_llama "\<lambda>_. []" 0
      "[(1, \<lambda>_. 0), (2, \<lambda>_. 0)]" "[]"]
  show ?thesis
    using k echo_llama_ok(1) start
    by (auto simp: sample_machine_def cam_ok_def cam_static_def sample_info_def sample_platform_def efi_sample_pages
        MAX_PAGES_def frame_ok_def split: sum.splits outcome.splits)
qed

text \<open>C5: From the start of the kernel on, as long as its callers keep their discipline, no frame has two owners. Let
  the kernel start on its zeroed data, with a camera that if ready has a non-empty image, a screen that holds the console
  and a memory map with descriptors of non-zero size and at most 2\<open>^\<close>25 usable pages, and let a frame have been found for
  the root table. Then after any sequence of \<open>pmm_alloc\<close>, \<open>pmm_alloc_contiguous\<close>, \<open>pmm_free\<close> of frames handed out at that
  moment (of no others), \<open>vmm_map\<close> and \<open>vmm_unmap\<close> of the kernel's tables, requests of the heap of at most 2\<open>^\<close>46 bytes
  (aligned to a power of two up to 2\<open>^\<close>46), \<open>kfree\<close>, writes into frames handed out or of the heap, and interrupts: no
  frame is two of free, a page table, handed out and part of the heap at once, the heap keeps its frames, no page table is
  ever given up, and page faults still go to the swap.\<close>

theorem booted_memory_apart:
  fixes m :: "('c, 'd) machine"
  assumes "zeroed (k_mem m)" and "cam_ok (k_cam m)" and "mmap_desc_size bi \<noteq> 0"
    and "mmap_count (boot_mem p) (mmap_addr bi) (mmap_size bi) (mmap_desc_size bi) \<le> MAX_PAGES"
    and "frame_ok bi" and "kernel_boot p bi m = Inr m'" and "kernel_pml4 (vm (k_mem m')) \<noteq> 0"
    and "kernel_sys.run (ports p) ({}, k_mem m') ops (lent, s)"
  shows "apart (owners (lent, s)) \<and> heap_frames (kheap s) = heap_frames (kheap (k_mem m')) \<and>
    tables (cells (vm (k_mem m'))) (kernel_pml4 (vm (k_mem m'))) \<subseteq> tables (cells (vm s)) (kernel_pml4 (vm s)) \<and>
    handled (owners (lent, s)) 14"
proof -
  have "boot_inv p bi (Some 161822) True m'"
    using kernel_boot_ok [OF assms(1-5)] assms(6) by simp
  then have "kernel_inv ({}, k_mem m') \<and> user_handlers (irqs (k_mem m')) 14 = Some SwapPageFault"
    using memory_up_kernel_inv [OF _ assms(3,4,7), of 161822] by (simp add: boot_inv_def)
  then show ?thesis
    using kernel_run_owners [OF assms(8)] kernel_inv_apart [of "(lent, s)"] by (simp add: owners_def)
qed

lemma low_boot:
  obtains m' where "kernel_boot (sample_platform\<lparr>boot_mem := efi_low\<rparr>) sample_info sample_machine = Inr m'"
    "kernel_pml4 (vm (k_mem m')) \<noteq> 0" "boot_inv (sample_platform\<lparr>boot_mem := efi_low\<rparr>) sample_info (Some 161822) True m'"
proof -
  let ?p = "sample_platform\<lparr>boot_mem := efi_low\<rparr>"
  have pre: "zeroed (k_mem sample_machine)" "cam_ok (k_cam sample_machine)" "mmap_desc_size sample_info \<noteq> 0"
      "mmap_count (boot_mem ?p) (mmap_addr sample_info) (mmap_size sample_info) (mmap_desc_size sample_info) \<le> MAX_PAGES"
      "frame_ok sample_info"
    by (auto simp: zeroed_def sample_machine_def kmem_static_def kmem_sample_def cam_ok_def cam_static_def
        sample_info_def efi_low_pages MAX_PAGES_def frame_ok_def)
  obtain m' where m': "kernel_boot ?p sample_info sample_machine = Inr m'" "boot_inv ?p sample_info (Some 161822) True m'"
    using kernel_boot_ok [OF pre] by blast
  then obtain c cr and s s0 :: "(unit, port_write list) kmem" where s0: "kmem_static c cr s"
      "memory_init trace_bus efi_low 0x1000 40 40 s = Inr s0" "vm (k_mem m') = vm s0"
    by (auto simp: boot_inv_def memory_up_def sample_platform_def sample_info_def)
  have "mmap_count efi_low 0x1000 40 40 \<le> MAX_PAGES" "(40 :: u64) \<noteq> 0"
    by (simp_all add: efi_low_pages MAX_PAGES_def)
  then have "\<exists>s1. memory_init trace_bus efi_low 0x1000 40 40 s = Inr s1 \<and> kernel_pml4 (vm s1) \<noteq> 0"
    by (intro memory_init_active [OF s0(1), where k = 600]) (simp_all add: efi_low_pages)
  then show thesis
    using that m' s0(2,3) by auto
qed

theorem booted_memory_apart_witness:
  "\<exists>m' lent s. kernel_boot (sample_platform\<lparr>boot_mem := efi_low\<rparr>) sample_info sample_machine = Inr m' \<and>
    kernel_sys.run trace_bus ({}, k_mem m')
      [GetFrame, MapPage 0xB8000 0xB8000 PTE_WRITABLE, Interrupt 14 0 0xB8000, GetFrame] (lent, s) \<and>
    apart (owners (lent, s)) \<and> handled (owners (lent, s)) 14"
proof -
  let ?p = "sample_platform\<lparr>boot_mem := efi_low\<rparr>"
  let ?ops = "[GetFrame, MapPage 0xB8000 0xB8000 PTE_WRITABLE, Interrupt 14 0 0xB8000, GetFrame]"
  obtain m' where m': "kernel_boot ?p sample_info sample_machine = Inr m'" "kernel_pml4 (vm (k_mem m')) \<noteq> 0"
      "boot_inv ?p sample_info (Some 161822) True m'"
    by (rule low_boot)
  have pre: "zeroed (k_mem sample_machine)" "cam_ok (k_cam sample_machine)" "mmap_desc_size sample_info \<noteq> 0"
      "mmap_count (boot_mem ?p) (mmap_addr sample_info) (mmap_size sample_info) (mmap_desc_size sample_info) \<le> MAX_PAGES"
      "frame_ok sample_info" "ports ?p = trace_bus"
    by (auto simp: zeroed_def sample_machine_def kmem_static_def kmem_sample_def cam_ok_def cam_static_def
        sample_info_def sample_platform_def efi_low_pages MAX_PAGES_def frame_ok_def)
  have inv: "kernel_inv ({}, k_mem m')"
    using memory_up_kernel_inv [OF _ pre(3,4) m'(2), of 161822] m'(3) by (simp add: boot_inv_def)
  obtain lent s where run: "kernel_sys.run trace_bus ({}, k_mem m') ?ops (lent, s)"
    using kernel_sys.run_total [OF inv, of ?ops trace_bus] by (metis (mono_tags) always_allowed empty_iff
        empty_set insert_iff list.simps(15) surj_pair)
  show ?thesis
    using booted_memory_apart [OF pre(1-5) m'(1,2), of ?ops lent s] run m'(1) pre(6) by auto
qed

end
