(* ===== verification/Residence.thy ===== *)
theory Residence
  imports Boot Lifetime StartMap
begin

section \<open>A whole life on the machine\<close>

text \<open>
  The program from the entry of the kernel to its last experience, put together from the boot
  (\<^verbatim>\<open>kernel.c\<close>), the start of the memory (\<^verbatim>\<open>memory.c\<close>) and the life of the mind
  (\<^verbatim>\<open>consciousness.c\<close>, \<^verbatim>\<open>aion_memory.c\<close>): where in the physical memory the experiences are kept,
  and on a machine with 24 MB to spare how long a mind that only talks lives.
\<close>

subsection \<open>The frame of a byte\<close>

text \<open>The physical frame behind an address of the direct map.\<close>

definition frame_of :: "nat \<Rightarrow> u64" where
  "frame_of a = (of_nat a - VIRT_PHYS_MAP_BASE) AND NOT 0xFFF"

lemma frame_byte:
  assumes "frame_addr f" and "r < 4096"
  shows "(f + of_nat r) AND NOT 0xFFF = f"
proof -
  have "unat (of_nat r :: u64) = r"
    using assms(2) by (intro unat_of_nat_u64) simp
  then have "unat (take_bit 12 (of_nat r :: u64)) = unat (of_nat r :: u64)"
    using assms(2) by (simp add: unsigned_take_bit_eq take_bit_nat_eq_self_iff)
  then have r: "take_bit 12 (of_nat r :: u64) = of_nat r"
    by (simp only: word_unat_eq_iff)
  have bits: "\<not> bit (of_nat r :: u64) n" if "12 \<le> n" for n
    using that by (subst r [symmetric]) (simp add: bit_take_bit_iff)
  have low: "\<not> bit f n" if "n < 12" for n
    using assms(1) that by (auto simp: frame_addr_iff)
  have m: "(0xFFF :: u64) = mask 12"
    by (simp add: mask_eq_exp_minus_1)
  have sum: "f + of_nat r = f OR of_nat r"
    by (rule disjunctive_add) (use bits low in \<open>metis not_le\<close>)
  show ?thesis
    unfolding m sum
  proof (rule bit_word_eqI)
    fix n
    assume n: "n < LENGTH(64)"
    have "bit ((f OR of_nat r) AND NOT (mask 12)) n \<longleftrightarrow> (bit f n \<or> bit (of_nat r :: u64) n) \<and> 12 \<le> n"
      using n by (simp add: bit_and_iff bit_or_iff bit_not_iff bit_mask_iff not_less)
    then show "bit ((f OR of_nat r) AND NOT (mask 12)) n = bit f n"
      using bits [of n] low [of n] by linarith
  qed
qed

lemma run_byte_frame:
  assumes "p = f + VIRT_PHYS_MAP_BASE" and "\<forall>i < n. frame_addr (f + of_nat i * PAGE_SIZE)"
    and "unat p \<le> a" and "a < unat p + n * 4096"
  shows "\<exists>i < n. frame_of a = f + of_nat i * PAGE_SIZE"
proof -
  define i r where "i = (a - unat p) div 4096" and "r = (a - unat p) mod 4096"
  have a: "a = unat p + (i * 4096 + r)"
    using assms(3) by (simp add: i_def r_def)
  have i: "i < n"
    using assms(3,4) by (simp add: i_def div_less_iff_less_mult) 
  have "(of_nat a :: u64) = p + (of_nat i * PAGE_SIZE + of_nat r)"
    unfolding a by (simp add: PAGE_SIZE_def mult.commute)
  then have "frame_of a = (f + of_nat i * PAGE_SIZE + of_nat r) AND NOT 0xFFF"
    by (simp add: frame_of_def assms(1) add.assoc)
  also have "\<dots> = f + of_nat i * PAGE_SIZE"
    using assms(2) i by (intro frame_byte) (simp_all add: r_def)
  finally show ?thesis
    using i by blast
qed

text \<open>Every byte of the first heap lies in one of its frames.\<close>

lemma heap_byte_frame:
  fixes s :: "('c, 'd) kmem"
  assumes "kmem_static c boot_cr3 s" and "dsz \<noteq> 0" and "mmap_count m a sz dsz \<le> MAX_PAGES"
    and "memory_init b m a sz dsz s = Inr s0"
    and x: "x \<in> {unat (heap_ptr (kheap s0)) ..< unat (heap_end (kheap s0))}"
  shows "frame_of x \<in> heap_frames (kheap s0)"
proof -
  let ?p = "heap_ptr (kheap s0)"
  have roof: "heap_end (kheap s0) = (if ?p = 0 then 0 else ?p + HEAP_INITIAL_SIZE)"
    and frames: "\<forall>i < 4096. ?p \<noteq> 0 \<longrightarrow> frame_addr (?p + of_nat i * PAGE_SIZE - VIRT_PHYS_MAP_BASE)"
    using memory_init_spec [OF assms(1-3), of b] assms(4) by auto
  have p: "?p \<noteq> 0"
    using x roof by auto
  have size: "unat (heap_end (kheap s0)) = unat ?p + 4096 * 4096"
    using memory_init_between(2) [OF assms(1-4) p] by simp
  have "\<exists>i < 4096. frame_of x = ?p - VIRT_PHYS_MAP_BASE + of_nat i * PAGE_SIZE"
    using frames p x size by (intro run_byte_frame [of ?p]) (simp_all add: algebra_simps)
  moreover have "heap_end (kheap s0) \<noteq> 0"
    using size by auto
  ultimately show ?thesis
    using roof p by (auto simp: heap_frames_def algebra_simps)
qed

subsection \<open>The memories stay where the heap is\<close>

interpretation housed_life:
  memory_invariant "kernel_fs_env junk" "mem_ok (heap_between lo roof) (heap_used_from lo)" for junk lo roof
  by unfold_locales (auto simp: kernel_fs_env_def dest: kbetween.store_mem_ok)

lemma newborn_housed:
  assumes "heap_between lo roof (kheap (k_mem m))"
  shows "mem_ok (heap_between lo roof) (heap_used_from lo) (wmem (mworld (newborn l m)))"
  using assms by (simp add: newborn_def mem_ok_def mem_static_def MAX_MEMORIES_def)

lemma start_wmem:
  assumes "consciousness_init (kernel_fs_env junk) api tsc m = Inr (Awake m')"
  shows "wmem (mworld m') = aion_memory_init fs_stub (wmem (mworld m))"
proof -
  have "\<not> aion_memory_has_store fs_stub st" for st :: "(heap, fs_state) amem"
    by (simp add: aion_memory_has_store_def fs_stub_def)
  then show ?thesis
    using assms by (auto simp: consciousness_init_def kernel_fs_env_def Let_def case_prod_beta split: if_splits)
qed

lemma lives_cases:
  assumes "kernel_main p api junk tsc rounds (Some bi) l m = Inr (Lives m' mi)"
  obtains m1 where "kernel_boot p bi m = Inr m'"
    "consciousness_init (kernel_fs_env junk) api tsc (newborn l m') = Inr (Awake m1)"
    "consciousness_run (kernel_fs_env junk) api (map (seen_from m') rounds) m1 = Inr mi"
proof -
  obtain v st where v: "kernel_boot p bi m = Inr v" "consciousness_init (kernel_fs_env junk) api tsc (newborn l v) = Inr st"
    and rest: "(case st of Halted mi \<Rightarrow> Inr (NoMind mi)
      | Awake mi \<Rightarrow> rbind (consciousness_run (kernel_fs_env junk) api (map (seen_from v) rounds) mi) (\<lambda>mi.
          Inr (Lives v mi))) = Inr (Lives m' mi)"
    using assms by (auto simp: kernel_main_def split: if_splits)
  then show thesis
    using that by (cases st) auto
qed

lemma lives_housed:
  assumes "kernel_main p api junk tsc rounds (Some bi) l m = Inr (Lives m' mi)"
    and "heap_between lo roof (kheap (k_mem m'))"
  shows "mem_ok (heap_between lo roof) (heap_used_from lo) (wmem (mworld mi))"
  using assms(1)
proof (rule lives_cases)
  fix m1
  assume m1: "consciousness_init (kernel_fs_env junk) api tsc (newborn l m') = Inr (Awake m1)"
      "consciousness_run (kernel_fs_env junk) api (map (seen_from m') rounds) m1 = Inr mi"
  have "mem_ok (heap_between lo roof) (heap_used_from lo) (wmem (mworld m1))"
    unfolding start_wmem [OF m1(1)] by (rule aion_memory_init_ok [OF newborn_housed [OF assms(2)]])
  then show ?thesis
    by (rule housed_life.consciousness_run_keeps [OF m1(2)])
qed

text \<open>The addresses of an experience's text with its closing NUL.\<close>

definition text_bytes :: "MemEntry \<Rightarrow> nat set" where
  "text_bytes e = {unat (content e) ..< unat (content e) + content_len e + 1}"

lemma lives_in_heap_frames:
  fixes m :: "('c, 'd) machine"
  assumes up: "memory_up p bi n (k_mem m')" and "mmap_desc_size bi \<noteq> 0"
    and "mmap_count (boot_mem p) (mmap_addr bi) (mmap_size bi) (mmap_desc_size bi) \<le> MAX_PAGES"
    and lives: "kernel_main p api junk tsc rounds (Some bi) l m = Inr (Lives m' mi)"
    and x: "i < mem_count (wmem (mworld mi))" "x \<in> text_bytes (mem_store (wmem (mworld mi)) i)"
  shows "frame_of x \<in> heap_frames (kheap (k_mem m'))"
proof -
  obtain c boot_cr3 and s s0 :: "('c, 'd) kmem" where s0: "kmem_static c boot_cr3 s"
      "memory_init (ports p) (boot_mem p) (mmap_addr bi) (mmap_size bi) (mmap_desc_size bi) s = Inr s0"
      "heap_between (unat (heap_ptr (kheap s0))) (heap_end (kheap s0)) (kheap (k_mem m'))"
    using up unfolding memory_up_def by blast
  let ?lo = "unat (heap_ptr (kheap s0))" and ?st = "wmem (mworld mi)"
  have "mem_ok (heap_between ?lo (heap_end (kheap s0))) (heap_used_from ?lo) ?st"
    by (rule lives_housed [OF lives s0(3)])
  then have "x \<in> {?lo ..< unat (heap_ptr (heap_state ?st))}" "heap_ptr (heap_state ?st) \<le> heap_end (kheap s0)"
    using x by (auto simp: mem_ok_def entry_ok_def heap_used_from_def text_bytes_def heap_between_def)
  then have "x \<in> {?lo ..< unat (heap_end (kheap s0))}"
    by (simp add: word_le_nat_alt)
  then have "frame_of x \<in> heap_frames (kheap s0)"
    by (rule heap_byte_frame [OF s0(1) assms(2,3) s0(2)])
  then show ?thesis
    using heap_frames_cong [of "kheap (k_mem m')" "kheap s0"] s0(3) by (simp add: heap_between_def)
qed

subsection \<open>The length of a silent life on the machine\<close>

text \<open>The model makes something of the first signal.\<close>

definition hears_first :: "'l llama \<Rightarrow> bool" where
  "hears_first api \<longleftrightarrow> (\<forall>c l. 0 < fst (llama_tokenize api c FIRST_SIGNAL 512 True l))"

lemma first_feed:
  assumes "api_bounded api" and "hears_first api" and "ready st" and "context_len st = 0"
    and "llm_feed api (Some FIRST_SIGNAL) st = Inr (r, st')"
  shows "ready st' \<and> context_len st' \<noteq> 0"
proof -
  obtain n toks where tok: "llama_tokenize api (ctx st) FIRST_SIGNAL 512 True (lib st) = (n, toks)"
    by fastforce
  have "0 < n"
    using assms(2) tok by (metis fst_conv hears_first_def)
  then have n: "0 < n" "n \<le> 512"
    using api_tokenize [OF assms(1) tok] by simp_all
  then show ?thesis
    using assms(3,4,5) tok by (auto simp: llm_feed_def Let_def CTX_SIZE_def split: prod.splits if_splits)
qed

lemma llm_init_ready:
  assumes "llm_init api st = (0, st')"
  shows "ready st' \<and> context_len st' = context_len st"
  using assms by (auto simp: llm_init_def set_ratio_def Let_def split: prod.splits if_splits)

lemma start_aged:
  assumes "mind_ok m" and "api_bounded api" and "hears_first api" and "fst (llm_init api (mllm m)) = 0"
    and "context_len (mllm m) = 0" and "4100 * (k + 16) \<le> heap_free (heap_state (wmem (mworld m)))"
  shows "\<exists>m'. consciousness_init (kernel_fs_env junk) api tsc m = Inr (Awake m') \<and> aged k 0 m'"
proof -
  obtain s where s: "consciousness_init (kernel_fs_env junk) api tsc m = Inr s"
    and wake: "case s of Halted m' \<Rightarrow> fst (llm_init api (mllm m)) \<noteq> 0
      | Awake m' \<Rightarrow> fst (llm_init api (mllm m)) = 0 \<and> mind_ok m' \<and> life_tick m' = life_tick m"
    using consciousness_init_ok [OF assms(1,2), of junk tsc] by blast
  then obtain m' where m': "consciousness_init (kernel_fs_env junk) api tsc m = Inr (Awake m')" "mind_ok m'"
    using assms(4) by (cases s) auto
  obtain lm where lm: "llm_init api (mllm m) = (0, lm)"
    using assms(4) by (metis prod.collapse)
  have "\<not> aion_memory_has_store fs_stub st" for st :: "(heap, fs_state) amem"
    by (simp add: aion_memory_has_store_def fs_stub_def)
  then have "\<exists>r. llm_feed api (Some FIRST_SIGNAL) lm = Inr (r, mllm m')"
    using m'(1) lm by (auto simp: consciousness_init_def kernel_fs_env_def Let_def split: prod.splits)
  then have "ready (mllm m') \<and> context_len (mllm m') \<noteq> 0"
    using first_feed [OF assms(2,3)] llm_init_ready [OF lm] assms(5) by metis
  moreover have "heap_state (wmem (mworld m')) = heap_state (wmem (mworld m))"
    using start_wmem [OF m'(1)] by (simp add: aion_memory_init_def Let_def)
  ultimately show ?thesis
    using m' assms(6) aion_memory_init_counts [of fs_stub "wmem (mworld m)"] start_wmem [OF m'(1)]
    by (simp add: aged_def)
qed

text \<open>With 6151 pages in a row to spare, the boot leaves tables and a heap from which little has been taken.\<close>

lemma roomy_boot:
  fixes m :: "('c, 'd) machine"
  assumes "zeroed (k_mem m)" and "cam_ok (k_cam m)" and "mmap_desc_size bi \<noteq> 0"
    and "mmap_count (boot_mem p) (mmap_addr bi) (mmap_size bi) (mmap_desc_size bi) \<le> MAX_PAGES"
    and "frame_ok bi" and "512 \<le> pg"
    and "pg + 6151 \<le> mmap_count (boot_mem p) (mmap_addr bi) (mmap_size bi) (mmap_desc_size bi)"
    and "{pg..<pg + 6151} \<subseteq> mmap_pages (boot_mem p) (mmap_addr bi) (mmap_size bi) (mmap_desc_size bi)"
  shows "\<exists>m'. kernel_boot p bi m = Inr m' \<and> boot_inv p bi (Some 161822) True m' \<and> kernel_pml4 (vm (k_mem m')) \<noteq> 0 \<and>
    16777216 \<le> heap_free (kheap (k_mem m')) + 161822"
proof -
  obtain m' where m': "kernel_boot p bi m = Inr m'" "boot_inv p bi (Some 161822) True m'"
    using kernel_boot_ok [OF assms(1-5)] by blast
  then obtain c boot_cr3 and s s0 :: "('c, 'd) kmem" where s0: "kmem_static c boot_cr3 s"
      "memory_init (ports p) (boot_mem p) (mmap_addr bi) (mmap_size bi) (mmap_desc_size bi) s = Inr s0"
      "vm (k_mem m') = vm s0" "heap_free (kheap s0) \<le> heap_free (kheap (k_mem m')) + 161822"
    by (auto simp: boot_inv_def memory_up_def)
  obtain j where j: "kernel_pml4 (vm s0) \<noteq> 0" "heap_end (kheap s0) = heap_ptr (kheap s0) + HEAP_INITIAL_SIZE"
    using memory_init_full [OF s0(1) assms(3,4,6-8), of "ports p"] s0(2) by auto
  have "heap_ptr (kheap s0) \<noteq> 0"
    using memory_init_spec [OF s0(1) assms(3,4), of "ports p"] s0(2) j(2) by (auto simp: HEAP_INITIAL_SIZE_def)
  from memory_init_between(2) [OF s0(1) assms(3,4) s0(2) this] have "heap_free (kheap s0) = 16777216"
    by (simp add: heap_free_def)
  then show ?thesis
    using m' s0(3,4) j(1) by auto
qed

lemma silent_machine:
  fixes m :: "('c, 'd) machine"
  assumes boot: "kernel_boot p bi m = Inr m'" "boot_inv p bi (Some 161822) True m'"
    and "magic bi = AION_MAGIC" and api: "api_bounded api" "silent_thinker k api" "hears_first api"
    and "fst (llm_init api (llm_static l)) = 0" and "4100 * (k + 16) \<le> heap_free (kheap (k_mem m'))"
  shows "if length rounds < 4100
    then \<exists>mi. kernel_main p api junk tsc rounds (Some bi) l m = Inr (Lives m' mi) \<and> aged k (length rounds) mi
    else kernel_main p api junk tsc rounds (Some bi) l m = Inl BufferOverflow"
proof -
  have born: "mllm (newborn l m') = llm_static l" "context_len (mllm (newborn l m')) = 0"
      "heap_state (wmem (mworld (newborn l m'))) = kheap (k_mem m')"
    by (simp_all add: newborn_def llm_static_def mem_static_def)
  obtain m1 where m1: "consciousness_init (kernel_fs_env junk) api tsc (newborn l m') = Inr (Awake m1)" "aged k 0 m1"
    using start_aged [OF newborn_ok [OF boot(2)] api(1,3), of l k junk tsc] born assms(7,8) by auto
  have env: "kernel_env (kernel_fs_env junk)"
    by (simp add: kernel_env_def kernel_fs_env_def)
  have "kernel_main p api junk tsc rounds (Some bi) l m =
      rbind (consciousness_run (kernel_fs_env junk) api (map (seen_from m') rounds) m1) (\<lambda>mi. Inr (Lives m' mi))"
    using assms(3) boot(1) m1(1) by (simp add: kernel_main_def)
  then show ?thesis
    using consciousness_run_aged [OF env api(1,2) m1(2) _ seen_from_ok [OF boot(2)], of rounds]
    by (cases "length rounds < 4100") auto
qed

subsection \<open>Properties\<close>

text \<open>C7: How long the whole program lives, exactly. Let the kernel start on its zeroed data, with the magic number, a
  camera that if ready has a non-empty image, a screen that holds the console, and a memory map with descriptors of non-zero
  size that lists at most 2\<open>^\<close>25 usable pages, among them 6151 in a row (24 MB) from some page \<open>pg\<close> above the first 2 MB,
  and, since the allocators only look at page numbers below the number of usable pages, at least \<open>pg + 6151\<close> in all. Let the
  model's library keep the bounds of its interface, start, take tokens from the first signal, and from then on
  always say something in at most \<open>k\<close> characters (\<open>k\<close> at most 4036) that never asks for an action. Then the kernel boots,
  the mind wakes and lives one experience per round through 4099 rounds; in the 4100th it writes past the end of its
  index buffer.\<close>

theorem machine_life_exact:
  fixes m :: "('c, 'd) machine"
  assumes "zeroed (k_mem m)" and "cam_ok (k_cam m)" and "mmap_desc_size bi \<noteq> 0"
    and "mmap_count (boot_mem p) (mmap_addr bi) (mmap_size bi) (mmap_desc_size bi) \<le> MAX_PAGES"
    and "frame_ok bi" and "512 \<le> pg"
    and "pg + 6151 \<le> mmap_count (boot_mem p) (mmap_addr bi) (mmap_size bi) (mmap_desc_size bi)"
    and "{pg..<pg + 6151} \<subseteq> mmap_pages (boot_mem p) (mmap_addr bi) (mmap_size bi) (mmap_desc_size bi)"
    and "magic bi = AION_MAGIC" and "api_bounded api" and "silent_thinker k api" and "hears_first api"
    and "fst (llm_init api (llm_static l)) = 0" and "k \<le> 4036"
  shows "if length rounds < 4100
    then \<exists>m' mi. kernel_main p api junk tsc rounds (Some bi) l m = Inr (Lives m' mi) \<and>
      life_tick mi = of_nat (length rounds) \<and> mem_count (wmem (mworld mi)) = length rounds
    else kernel_main p api junk tsc rounds (Some bi) l m = Inl BufferOverflow"
proof -
  obtain m' where m': "kernel_boot p bi m = Inr m'" "boot_inv p bi (Some 161822) True m'"
      "16777216 \<le> heap_free (kheap (k_mem m')) + 161822"
    using roomy_boot [OF assms(1-8)] by blast
  then have "4100 * (k + 16) \<le> heap_free (kheap (k_mem m'))"
    using assms(14) by simp
  note life = silent_machine [OF m'(1,2) assms(9-13) this, of rounds junk tsc]
  show ?thesis
  proof (cases "length rounds < 4100")
    case True
    then obtain mi where mi: "kernel_main p api junk tsc rounds (Some bi) l m = Inr (Lives m' mi)" "aged k (length rounds) mi"
      using life by auto
    then have "life_tick mi = of_nat (length rounds)"
      using kernel_main_total [OF assms(1-5,10), of junk tsc rounds l] assms(9) by simp
    then show ?thesis
      using True mi by (auto simp: aged_def)
  next
    case False
    then show ?thesis
      using life by simp
  qed
qed

text \<open>A machine with 64 MB, and the sample library.\<close>

definition roomy_platform :: "port_write list platform" where
  "roomy_platform = sample_platform\<lparr>boot_mem := efi_64mb\<rparr>"

lemma roomy_platform_ok:
  "zeroed (k_mem sample_machine)" "cam_ok (k_cam sample_machine)" "mmap_desc_size sample_info \<noteq> 0"
  "mmap_count (boot_mem roomy_platform) (mmap_addr sample_info) (mmap_size sample_info) (mmap_desc_size sample_info) \<le> MAX_PAGES"
  "frame_ok sample_info"
  "512 + 6151 \<le> mmap_count (boot_mem roomy_platform) (mmap_addr sample_info) (mmap_size sample_info) (mmap_desc_size sample_info)"
  "{512..<512 + 6151} \<subseteq>
     mmap_pages (boot_mem roomy_platform) (mmap_addr sample_info) (mmap_size sample_info) (mmap_desc_size sample_info)"
  "magic sample_info = AION_MAGIC" "ports roomy_platform = trace_bus"
proof -
  show "{512..<512 + 6151} \<subseteq>
     mmap_pages (boot_mem roomy_platform) (mmap_addr sample_info) (mmap_size sample_info) (mmap_desc_size sample_info)"
    unfolding roomy_platform_def sample_info_def by (simp add: efi_64mb_pages) auto
qed (auto simp: zeroed_def sample_machine_def kmem_static_def kmem_sample_def cam_ok_def cam_static_def
    sample_info_def roomy_platform_def sample_platform_def efi_64mb_pages MAX_PAGES_def frame_ok_def)

lemma echo_starts: "hears_first echo_llama" "fst (llm_init echo_llama (llm_static [])) = 0"
  by (simp_all add: hears_first_def llm_init_def echo_llama_def FIRST_SIGNAL_def)

theorem machine_life_exact_witness:
  "(\<exists>m' mi. kernel_main roomy_platform echo_llama (\<lambda>_. []) 0 (replicate 4099 (1, \<lambda>_. 0)) (Some sample_info) [] sample_machine =
      Inr (Lives m' mi) \<and> mem_count (wmem (mworld mi)) = 4099) \<and>
    kernel_main roomy_platform echo_llama (\<lambda>_. []) 0 (replicate 4100 (1, \<lambda>_. 0)) (Some sample_info) [] sample_machine =
      Inl BufferOverflow"
proof -
  note life = machine_life_exact [OF roomy_platform_ok(1-5) order_refl roomy_platform_ok(6-8) echo_llama_ok(1) echo_silent
    echo_starts]
  show ?thesis
    using life [of "replicate 4099 (1, \<lambda>_. 0)" "\<lambda>_. []" 0] life [of "replicate 4100 (1, \<lambda>_. 0)" "\<lambda>_. []" 0] by auto
qed

text \<open>C6: Where the memories live. Let the kernel start on its zeroed data, with a camera that if ready has a non-empty
  image, a screen that holds the console and a memory map with descriptors of non-zero size and at most 2\<open>^\<close>25 usable
  pages, let a frame have been found for the root table, and let the whole program have come through any number of rounds.
  Then every byte of the text of every experience, its closing NUL included, lies in a frame of the kernel's heap. And
  after any sequence of \<open>pmm_alloc\<close>, \<open>pmm_alloc_contiguous\<close>, \<open>pmm_free\<close> of frames handed out at that moment (of no others),
  \<open>vmm_map\<close> and \<open>vmm_unmap\<close> of the kernel's tables, requests of the heap of at most 2\<open>^\<close>46 bytes (aligned to a power of two
  up to 2\<open>^\<close>46), \<open>kfree\<close>, writes into frames handed out or of the heap, and interrupts, made on the memory that the
  start-up left, that frame is still one of the heap, is not on the free list, is not a page table and is not lent to
  anyone.\<close>

theorem memories_in_heap_frames:
  fixes m :: "('c, 'd) machine"
  assumes "zeroed (k_mem m)" and "cam_ok (k_cam m)" and "mmap_desc_size bi \<noteq> 0"
    and "mmap_count (boot_mem p) (mmap_addr bi) (mmap_size bi) (mmap_desc_size bi) \<le> MAX_PAGES"
    and "frame_ok bi" and "kernel_main p api junk tsc rounds (Some bi) l m = Inr (Lives m' mi)"
    and "kernel_pml4 (vm (k_mem m')) \<noteq> 0" and "kernel_sys.run (ports p) ({}, k_mem m') ops (lent, s)"
    and "i < mem_count (wmem (mworld mi))" and "x \<in> text_bytes (mem_store (wmem (mworld mi)) i)"
  shows "frame_of x \<in> heap_frames (kheap s) \<and> frame_of x \<notin> pmm_free_frames (frames (vm s)) \<and>
    frame_of x \<notin> tables (cells (vm s)) (kernel_pml4 (vm s)) \<and> frame_of x \<notin> lent"
proof -
  have "kernel_boot p bi m = Inr m'"
    using assms(6) by (rule lives_cases)
  then have up: "memory_up p bi 161822 (k_mem m')"
    using kernel_boot_ok [OF assms(1-5)] by (simp add: boot_inv_def)
  have inv: "kernel_inv ({}, k_mem m')"
    using memory_up_kernel_inv [OF up assms(3,4,7)] by simp
  have "frame_of x \<in> heap_frames (kheap (k_mem m'))"
    by (rule lives_in_heap_frames [OF up assms(3,4,6,9,10)])
  then have "frame_of x \<in> heap_frames (kheap s)"
    using kernel_run_owners [OF assms(8) inv] by (simp add: owners_def)
  moreover have "apart (owners (lent, s))"
    using kernel_run_owners [OF assms(8) inv] kernel_inv_apart [of "(lent, s)"] by blast
  ultimately show ?thesis
    by (auto simp: apart_def owners_def)
qed

theorem memories_in_heap_frames_witness:
  "\<exists>m' mi lent s. kernel_main roomy_platform echo_llama (\<lambda>_. []) 0 [(1, \<lambda>_. 0), (2, \<lambda>_. 0)] (Some sample_info) [] sample_machine =
      Inr (Lives m' mi) \<and> mem_count (wmem (mworld mi)) = 2 \<and>
    kernel_sys.run trace_bus ({}, k_mem m') [GetFrame, Interrupt 14 0 0xB8000] (lent, s) \<and>
    frame_of (unat (content (mem_store (wmem (mworld mi)) 1))) \<in> heap_frames (kheap s) - lent"
proof -
  let ?rounds = "[(1, \<lambda>_. 0), (2, \<lambda>_. 0)] :: (u64 \<times> byte_mem) list"
  obtain m' where m': "kernel_boot roomy_platform sample_info sample_machine = Inr m'"
      "boot_inv roomy_platform sample_info (Some 161822) True m'" "kernel_pml4 (vm (k_mem m')) \<noteq> 0"
      "16777216 \<le> heap_free (kheap (k_mem m')) + 161822"
    using roomy_boot [OF roomy_platform_ok(1-5) order_refl roomy_platform_ok(6,7)] by blast
  obtain mi where mi: "kernel_main roomy_platform echo_llama (\<lambda>_. []) 0 ?rounds (Some sample_info) [] sample_machine =
      Inr (Lives m' mi)" "mem_count (wmem (mworld mi)) = 2"
    using silent_machine [OF m'(1,2) roomy_platform_ok(8) echo_llama_ok(1) echo_silent echo_starts, of ?rounds "\<lambda>_. []" 0] m'(4)
    by (auto simp: aged_def)
  have inv: "kernel_inv ({}, k_mem m')"
    using memory_up_kernel_inv [OF _ roomy_platform_ok(3,4) m'(3), of 161822] m'(2) by (simp add: boot_inv_def)
  obtain lent s where run: "kernel_sys.run trace_bus ({}, k_mem m') [GetFrame, Interrupt 14 0 0xB8000] (lent, s)"
    using kernel_sys.run_total [OF inv, of "[GetFrame, Interrupt 14 0 0xB8000]" trace_bus]
    by (metis (mono_tags) always_allowed empty_iff empty_set insert_iff list.simps(15) surj_pair)
  have "unat (content (mem_store (wmem (mworld mi)) 1)) \<in> text_bytes (mem_store (wmem (mworld mi)) 1)"
    by (simp add: text_bytes_def)
  then have "frame_of (unat (content (mem_store (wmem (mworld mi)) 1))) \<in> heap_frames (kheap s) - lent"
    using memories_in_heap_frames [OF roomy_platform_ok(1-5) mi(1) m'(3), of _ lent s 1] run mi(2) roomy_platform_ok(9) by auto
  then show ?thesis
    using mi run by blast
qed

end
