(* ===== verification/Bootloader.thy ===== *)
theory Bootloader
  imports Boot "HOL-Library.Multiset"
begin

section \<open>The UEFI boot loader\<close>

text \<open>
  \<^verbatim>\<open>bootloader/bootloader.c\<close>: a UEFI application that reads the kernel's image into memory, asks
  the firmware for the frame buffer and the memory map, leaves the boot services and enters the
  kernel. The firmware and gnu-efi are not part of the sources: they are the record \<open>firmware\<close>,
  whose calls act on a state of their own, and \<open>find_rsdp\<close>, which the source calls and nowhere
  defines, stands beside them: nothing is assumed of what it does. The loader's state adds every call to a
  log, newest first, so that a property can speak of what was opened, allocated and read, in which order, and
  of what was called last.
\<close>

subsection \<open>The firmware\<close>

datatype guid = LoadedImageProtocol | SimpleFileSystemProtocol

text \<open>The variables \<open>GetMemoryMap\<close> reads and writes.\<close>

record map_vars =
  mmap_sz :: u64
  map_key :: u64
  desc_sz :: u64
  desc_ver :: u32

record gop_mode =
  FrameBufferBase :: u64
  HorizontalResolution :: u32
  VerticalResolution :: u32
  PixelsPerScanLine :: u32
  PixelFormat :: u32

record 'w firmware =
  EFI_ERROR :: "u64 \<Rightarrow> bool"
  EFI_SUCCESS :: u64
  file_info_size :: u64
  InitializeLib :: "u64 \<Rightarrow> u64 \<Rightarrow> 'w \<Rightarrow> 'w"
  ClearScreen :: "'w \<Rightarrow> 'w"
  OutputString :: "u16 list \<Rightarrow> 'w \<Rightarrow> 'w"
  HandleProtocol :: "u64 \<Rightarrow> guid \<Rightarrow> 'w \<Rightarrow> (u64 \<times> u64) \<times> 'w"
  DeviceHandle :: "u64 \<Rightarrow> 'w \<Rightarrow> u64"
  OpenVolume :: "u64 \<Rightarrow> 'w \<Rightarrow> (u64 \<times> u64) \<times> 'w"
  Open :: "u64 \<Rightarrow> string \<Rightarrow> 'w \<Rightarrow> (u64 \<times> u64) \<times> 'w"
  GetInfo :: "u64 \<Rightarrow> u64 \<Rightarrow> u64 \<Rightarrow> 'w \<Rightarrow> u64 \<times> 'w"
  FileSize :: "u64 \<Rightarrow> 'w \<Rightarrow> u64"
  Read :: "u64 \<Rightarrow> u64 \<Rightarrow> u64 \<Rightarrow> 'w \<Rightarrow> (u64 \<times> u64) \<times> 'w"
  Close :: "u64 \<Rightarrow> 'w \<Rightarrow> 'w"
  AllocatePool :: "u64 \<Rightarrow> 'w \<Rightarrow> (u64 \<times> u64) \<times> 'w"
  FreePool :: "u64 \<Rightarrow> 'w \<Rightarrow> 'w"
  CopyMem :: "u64 \<Rightarrow> u64 \<Rightarrow> u64 \<Rightarrow> 'w \<Rightarrow> 'w"
  LocateGop :: "'w \<Rightarrow> (u64 \<times> gop_mode) \<times> 'w"
  GetMemoryMap :: "u64 \<Rightarrow> map_vars \<Rightarrow> 'w \<Rightarrow> (u64 \<times> map_vars) \<times> 'w"
  ExitBootServices :: "u64 \<Rightarrow> u64 \<Rightarrow> 'w \<Rightarrow> u64 \<times> 'w"
  find_rsdp :: "AionBootInfo \<Rightarrow> 'w \<Rightarrow> AionBootInfo \<times> 'w"

datatype fw_call =
    Initialized
  | Cleared
  | Printed "u16 list"
  | Searched
  | Queried
  | Failed
  | Opened u64
  | Closed u64
  | PoolAllocated u64
  | PoolFreed u64
  | Copied u64 u64 u64
  | MapRead u64 map_vars
  | Exited u64

record 'w loader =
  efi :: 'w
  calls :: "fw_call list"

text \<open>Every call leaves one entry in the log; one that returns an error leaves \<open>Failed\<close>.\<close>

definition fallible ::
  "'w firmware \<Rightarrow> ('w \<Rightarrow> (u64 \<times> 'a) \<times> 'w) \<Rightarrow> ('a \<Rightarrow> fw_call) \<Rightarrow> 'w loader \<Rightarrow> (u64 \<times> 'a) \<times> 'w loader"
where
  "fallible fw f e l =
     (let ((st, x), w) = f (efi l)
      in ((st, x), \<lparr>efi = w, calls = (if EFI_ERROR fw st then Failed else e x) # calls l\<rparr>))"

definition infallible :: "('w \<Rightarrow> 'w) \<Rightarrow> fw_call \<Rightarrow> 'w loader \<Rightarrow> 'w loader" where
  "infallible f e l = \<lparr>efi = f (efi l), calls = e # calls l\<rparr>"

definition free_pool :: "'w firmware \<Rightarrow> u64 \<Rightarrow> 'w loader \<Rightarrow> 'w loader" where
  "free_pool fw p = infallible (FreePool fw p) (PoolFreed p)"

definition allocate_pool :: "'w firmware \<Rightarrow> u64 \<Rightarrow> 'w loader \<Rightarrow> (u64 \<times> u64) \<times> 'w loader" where
  "allocate_pool fw n = fallible fw (AllocatePool fw n) PoolAllocated"

definition get_info :: "'w firmware \<Rightarrow> u64 \<Rightarrow> u64 \<Rightarrow> u64 \<Rightarrow> 'w loader \<Rightarrow> (u64 \<times> unit) \<times> 'w loader" where
  "get_info fw file n p = fallible fw (\<lambda>w. let (st, w) = GetInfo fw file n p w in ((st, ()), w)) (\<lambda>_. Queried)"

definition exit_boot_services :: "'w firmware \<Rightarrow> u64 \<Rightarrow> u64 \<Rightarrow> 'w loader \<Rightarrow> (u64 \<times> unit) \<times> 'w loader" where
  "exit_boot_services fw ih key =
     fallible fw (\<lambda>w. let (st, w) = ExitBootServices fw ih key w in ((st, ()), w)) (\<lambda>_. Exited key)"

subsection \<open>The loader\<close>

definition KERNEL_LOAD_ADDR :: u64 where "KERNEL_LOAD_ADDR = 0x100000"

definition KERNEL_PATH :: string where "KERNEL_PATH = [CHR 0x5C] @ ''AION'' @ [CHR 0x5C] @ ''kernel.bin''"

definition wide :: "string \<Rightarrow> u16 list" where "wide s = map of_char s"

definition crlf :: "u16 list" where "crlf = [13, 10]"

definition print :: "'w firmware \<Rightarrow> u16 list \<Rightarrow> 'w loader \<Rightarrow> 'w loader" where
  "print fw msg = infallible (OutputString fw msg) (Printed msg)"

definition open_root :: "'w firmware \<Rightarrow> u64 \<Rightarrow> 'w loader \<Rightarrow> (u64 \<times> u64) \<times> 'w loader" where
  "open_root fw ih l =
     (let ((st, li), l) = fallible fw (HandleProtocol fw ih LoadedImageProtocol) (\<lambda>_. Queried) l in
      if EFI_ERROR fw st then ((st, 0), l)
      else
        let ((st, sfs), l) =
          fallible fw (HandleProtocol fw (DeviceHandle fw li (efi l)) SimpleFileSystemProtocol) (\<lambda>_. Queried) l in
        if EFI_ERROR fw st then ((st, 0), l)
        else fallible fw (OpenVolume fw sfs) Opened l)"

text \<open>\<open>load_file\<close> up to its label \<open>close\<close>: what is read is a buffer and its size.\<close>

definition load_opened :: "'w firmware \<Rightarrow> u64 \<Rightarrow> 'w loader \<Rightarrow> (u64 \<times> (u64 \<times> u64) option) \<times> 'w loader" where
  "load_opened fw file l =
     (let info_sz = file_info_size fw + 512;
          ((st, info), l) = allocate_pool fw info_sz l in
      if EFI_ERROR fw st then ((st, None), l)
      else
        let ((st, _), l) = get_info fw file info_sz info l in
        if EFI_ERROR fw st then ((st, None), free_pool fw info l)
        else
          let file_sz = FileSize fw info (efi l);
              l = free_pool fw info l;
              ((st, buf), l) = allocate_pool fw file_sz l in
          if EFI_ERROR fw st then ((st, None), l)
          else
            let ((st, file_sz), l) = fallible fw (Read fw file file_sz buf) (\<lambda>_. Queried) l in
            if EFI_ERROR fw st then ((st, None), free_pool fw buf l)
            else ((st, Some (buf, file_sz)), l))"

definition load_file ::
  "'w firmware \<Rightarrow> u64 \<Rightarrow> string \<Rightarrow> 'w loader \<Rightarrow> (u64 \<times> (u64 \<times> u64) option) \<times> 'w loader"
where
  "load_file fw root path l =
     (let ((st, file), l) = fallible fw (Open fw root path) Opened l in
      if EFI_ERROR fw st then ((st, None), l)
      else
        let (r, l) = load_opened fw file l
        in (r, infallible (Close fw file) (Closed file) l))"

definition get_gop :: "'w firmware \<Rightarrow> AionBootInfo \<Rightarrow> 'w loader \<Rightarrow> (u64 \<times> AionBootInfo) \<times> 'w loader" where
  "get_gop fw info l =
     (let ((st, mode), l) = fallible fw (LocateGop fw) (\<lambda>_. Queried) l in
      if EFI_ERROR fw st then ((st, info), l)
      else
        ((EFI_SUCCESS fw,
          info\<lparr>fb_addr := FrameBufferBase mode, fb_width := HorizontalResolution mode,
            fb_height := VerticalResolution mode, fb_line := PixelsPerScanLine mode * 4,
            fb_format := PixelFormat mode\<rparr>), l))"

definition get_mmap :: "'w firmware \<Rightarrow> AionBootInfo \<Rightarrow> 'w loader \<Rightarrow> (u64 \<times> AionBootInfo) \<times> 'w loader" where
  "get_mmap fw info l =
     (let ((_, v), l) = fallible fw (GetMemoryMap fw 0 \<lparr>mmap_sz = 0, map_key = 0, desc_sz = 0, desc_ver = 0\<rparr>) (\<lambda>_. Queried) l;
          v = v\<lparr>mmap_sz := mmap_sz v + 2 * desc_sz v\<rparr>;
          ((st, mmap), l) = allocate_pool fw (mmap_sz v) l in
      if EFI_ERROR fw st then ((st, info), l)
      else
        let ((st, v), l) = fallible fw (GetMemoryMap fw mmap v) (MapRead mmap) l in
        if EFI_ERROR fw st then ((st, info), free_pool fw mmap l)
        else
          ((EFI_SUCCESS fw,
            info\<lparr>mmap_addr := mmap, mmap_size := mmap_sz v, mmap_desc_size := desc_sz v,
              mmap_desc_version := desc_ver v, mmap_key := map_key v\<rparr>), l))"

text \<open>The loader returns to the firmware, or enters the kernel.\<close>

datatype handover = Returned u64 | Entered AionBootInfo

definition no_info :: AionBootInfo where
  "no_info = \<lparr>magic = 0, kernel_phys_addr = 0, kernel_size = 0, mmap_addr = 0, mmap_size = 0, mmap_desc_size = 0,
     mmap_desc_version = 0, mmap_key = 0, fb_addr = 0, fb_width = 0, fb_height = 0, fb_line = 0, fb_format = 0,
     rsdp_addr = 0, reserved = replicate 8 0\<rparr>"

text \<open>The steps \<open>1/5\<close> and \<open>2/5\<close>: what can fail there is not checked.\<close>

definition gather :: "'w firmware \<Rightarrow> u64 \<Rightarrow> u64 \<Rightarrow> 'w loader \<Rightarrow> AionBootInfo \<times> 'w loader" where
  "gather fw ih stbl l =
     (let l = infallible (InitializeLib fw ih stbl) Initialized l;
          l = infallible (ClearScreen fw) Cleared l;
          l = print fw (crlf @ wide ''  AION-OS  ::  awakening'' @ crlf) l;
          l = print fw (wide ''  '' @ replicate 26 0x2500 @ crlf @ crlf) l;
          info = no_info\<lparr>magic := AION_MAGIC\<rparr>;
          l = print fw (wide ''  [1/5] Framebuffer... '') l;
          ((_, info), l) = get_gop fw info l;
          l = print fw (wide ''ok'' @ crlf) l;
          l = print fw (wide ''  [2/5] ACPI... '') l;
          (info, w) = find_rsdp fw info (efi l);
          l = \<lparr>efi = w, calls = Searched # calls l\<rparr>
      in (info, print fw (wide ''ok'' @ crlf) l))"

text \<open>The step \<open>3/5\<close>, which gives the size of the kernel's image.\<close>

definition load_kernel :: "'w firmware \<Rightarrow> u64 \<Rightarrow> 'w loader \<Rightarrow> (u64 \<times> u64) \<times> 'w loader" where
  "load_kernel fw ih l =
     (let l = print fw (wide ''  [3/5] Loading kernel.bin... '') l;
          ((st, root), l) = open_root fw ih l in
      if EFI_ERROR fw st then ((st, 0), print fw (crlf @ wide ''  FATAL: no USB fs'' @ crlf) l)
      else
        let ((st, r), l) = load_file fw root KERNEL_PATH l in
        if EFI_ERROR fw st then ((st, 0), print fw (crlf @ wide ''  FATAL: kernel.bin not found'' @ crlf) l)
        else
          let (kbuf, ksz) = (case r of None \<Rightarrow> (0, 0) | Some x \<Rightarrow> x);
              l = infallible (CopyMem fw KERNEL_LOAD_ADDR kbuf ksz) (Copied KERNEL_LOAD_ADDR kbuf ksz) l
          in ((st, ksz), free_pool fw kbuf l))"

text \<open>The step \<open>5/5\<close>: a second try with a new map, if the first fails.\<close>

definition leave_firmware :: "'w firmware \<Rightarrow> u64 \<Rightarrow> AionBootInfo \<Rightarrow> 'w loader \<Rightarrow> handover \<times> 'w loader" where
  "leave_firmware fw ih info l =
     (let ((st, _), l) = exit_boot_services fw ih (mmap_key info) l in
      if EFI_ERROR fw st then
        let ((_, info), l) = get_mmap fw info l;
            ((st, _), l) = exit_boot_services fw ih (mmap_key info) l in
        if EFI_ERROR fw st then (Returned st, l) else (Entered info, l)
      else (Entered info, l))"

definition efi_main :: "'w firmware \<Rightarrow> u64 \<Rightarrow> u64 \<Rightarrow> 'w loader \<Rightarrow> handover \<times> 'w loader" where
  "efi_main fw ih stbl l =
     (let (info, l) = gather fw ih stbl l;
          ((st, ksz), l) = load_kernel fw ih l in
      if EFI_ERROR fw st then (Returned st, l)
      else
        let info = info\<lparr>kernel_phys_addr := KERNEL_LOAD_ADDR, kernel_size := ksz\<rparr>;
            l = print fw (wide ''ok'' @ crlf) l;
            l = print fw (wide ''  [4/5] Memory map... '') l;
            ((st, info), l) = get_mmap fw info l in
        if EFI_ERROR fw st then (Returned st, print fw (crlf @ wide ''  FATAL: mmap'' @ crlf) l)
        else
          let l = print fw (wide ''ok'' @ crlf) l;
              l = print fw (wide ''  [5/5] ExitBootServices...'' @ crlf) l
          in leave_firmware fw ih info l)"

subsection \<open>Reading the log\<close>

primrec pools :: "fw_call list \<Rightarrow> u64 multiset" where
  "pools [] = {#}"
| "pools (e # es) = (case e of PoolAllocated p \<Rightarrow> add_mset p (pools es) | PoolFreed p \<Rightarrow> pools es - {#p#} | _ \<Rightarrow> pools es)"

primrec files :: "fw_call list \<Rightarrow> u64 multiset" where
  "files [] = {#}"
| "files (e # es) = (case e of Opened f \<Rightarrow> add_mset f (files es) | Closed f \<Rightarrow> files es - {#f#} | _ \<Rightarrow> files es)"

primrec last_map :: "fw_call list \<Rightarrow> (u64 \<times> map_vars) option" where
  "last_map [] = None"
| "last_map (e # es) = (case e of MapRead p v \<Rightarrow> Some (p, v) | _ \<Rightarrow> last_map es)"

primrec exited :: "fw_call list \<Rightarrow> bool" where
  "exited [] = False"
| "exited (e # es) = (case e of Exited key \<Rightarrow> True | _ \<Rightarrow> exited es)"

primrec copies :: "fw_call list \<Rightarrow> (u64 \<times> u64 \<times> u64) list" where
  "copies [] = []"
| "copies (e # es) = (case e of Copied to from n \<Rightarrow> (to, from, n) # copies es | _ \<Rightarrow> copies es)"

lemmas fw_defs = fallible_def infallible_def free_pool_def allocate_pool_def get_info_def print_def Let_def

text \<open>What the log holds of pools, files, copies, maps and the end of the boot services.\<close>

definition summary ::
  "'w loader \<Rightarrow> u64 multiset \<times> u64 multiset \<times> (u64 \<times> map_vars) option \<times> bool \<times> (u64 \<times> u64 \<times> u64) list"
where
  "summary l = (let es = calls l in (pools es, files es, last_map es, exited es, copies es))"

lemma summary_eq: "summary l' = summary l \<longleftrightarrow> pools (calls l') = pools (calls l) \<and> files (calls l') = files (calls l) \<and>
    last_map (calls l') = last_map (calls l) \<and> exited (calls l') = exited (calls l) \<and> copies (calls l') = copies (calls l)"
  by (simp add: summary_def Let_def)

lemma print_calls [simp]:
  "pools (calls (print fw msg l)) = pools (calls l)" "files (calls (print fw msg l)) = files (calls l)"
  "last_map (calls (print fw msg l)) = last_map (calls l)" "exited (calls (print fw msg l)) = exited (calls l)"
  "copies (calls (print fw msg l)) = copies (calls l)"
  by (simp_all add: fw_defs)

lemma gather_calls: "gather fw ih stbl l = (info, l') \<Longrightarrow> summary l' = summary l"
  by (auto simp: summary_eq gather_def get_gop_def fw_defs split: prod.splits if_splits)

lemma open_root_calls:
  assumes "open_root fw ih l = ((st, root), l')"
  shows "pools (calls l') = pools (calls l)" and "last_map (calls l') = last_map (calls l)"
    and "exited (calls l') = exited (calls l)" and "copies (calls l') = copies (calls l)"
  using assms by (auto simp: open_root_def fw_defs split: prod.splits if_splits)

lemma load_opened_calls:
  assumes "load_opened fw file l = ((st, r), l')"
  shows "pools (calls l') = (case r of None \<Rightarrow> {#} | Some (buf, n) \<Rightarrow> {#buf#}) + pools (calls l)"
    and "files (calls l') = files (calls l)" and "last_map (calls l') = last_map (calls l)"
    and "exited (calls l') = exited (calls l)" and "copies (calls l') = copies (calls l)"
    and "r = None \<longleftrightarrow> EFI_ERROR fw st"
  using assms by (auto simp: load_opened_def fw_defs split: prod.splits if_splits)

lemma load_file_calls:
  assumes "load_file fw root path l = ((st, r), l')"
  shows "pools (calls l') = (case r of None \<Rightarrow> {#} | Some (buf, n) \<Rightarrow> {#buf#}) + pools (calls l)"
    and "files (calls l') = files (calls l)" and "last_map (calls l') = last_map (calls l)"
    and "exited (calls l') = exited (calls l)" and "copies (calls l') = copies (calls l)"
    and "r = None \<longleftrightarrow> EFI_ERROR fw st"
  using assms
  by (auto simp: load_file_def fallible_def infallible_def Let_def load_opened_calls split: prod.splits if_splits)

lemma load_kernel_calls:
  assumes "load_kernel fw ih l = ((st, ksz), l')"
  shows "pools (calls l') = pools (calls l)" and "last_map (calls l') = last_map (calls l)"
    and "exited (calls l') = exited (calls l)"
    and "if EFI_ERROR fw st then copies (calls l') = copies (calls l)
         else \<exists>buf. copies (calls l') = (KERNEL_LOAD_ADDR, buf, ksz) # copies (calls l)"
  using assms
  by (auto simp: load_kernel_def free_pool_def infallible_def Let_def open_root_calls load_file_calls
      dest: load_file_calls split: prod.splits if_splits option.splits)

text \<open>What the boot information says of the memory map.\<close>

definition map_of_info :: "AionBootInfo \<Rightarrow> u64 \<times> map_vars" where
  "map_of_info info = (mmap_addr info,
     \<lparr>mmap_sz = mmap_size info, map_key = mmap_key info, desc_sz = mmap_desc_size info, desc_ver = mmap_desc_version info\<rparr>)"

definition same_but_map :: "AionBootInfo \<Rightarrow> AionBootInfo \<Rightarrow> bool" where
  "same_but_map info info' \<longleftrightarrow> (\<exists>a n d ver key. info' = info\<lparr>mmap_addr := a, mmap_size := n, mmap_desc_size := d,
     mmap_desc_version := ver, mmap_key := key\<rparr>)"

lemma same_but_map_refl [simp]: "same_but_map info info"
  unfolding same_but_map_def by (intro exI [of _ "mmap_addr info"] exI [of _ "mmap_size info"]
      exI [of _ "mmap_desc_size info"] exI [of _ "mmap_desc_version info"] exI [of _ "mmap_key info"]) simp

lemma same_but_map_update [simp]:
  "same_but_map info (info\<lparr>mmap_addr := a, mmap_size := n, mmap_desc_size := d, mmap_desc_version := ver, mmap_key := key\<rparr>)"
  unfolding same_but_map_def by blast

lemma get_mmap_calls:
  assumes "get_mmap fw info l = ((st, info'), l')" and "\<not> EFI_ERROR fw (EFI_SUCCESS fw)"
  shows "files (calls l') = files (calls l)" and "exited (calls l') = exited (calls l)"
    and "copies (calls l') = copies (calls l)"
    and "EFI_ERROR fw st \<Longrightarrow> info' = info \<and> pools (calls l') = pools (calls l) \<and> last_map (calls l') = last_map (calls l)"
    and "\<not> EFI_ERROR fw st \<Longrightarrow> pools (calls l') = add_mset (mmap_addr info') (pools (calls l)) \<and>
      last_map (calls l') = Some (map_of_info info')"
    and "same_but_map info info'"
  using assms by (auto simp: get_mmap_def fw_defs map_of_info_def split: prod.splits if_splits)

text \<open>
  The state in which the loader may leave the firmware: its map is the last one read, its
  buffer has not been given back, and the boot services are still there.
\<close>

definition may_leave :: "AionBootInfo \<Rightarrow> fw_call list \<Rightarrow> bool" where
  "may_leave info es \<longleftrightarrow> last_map es = Some (map_of_info info) \<and> mmap_addr info \<in># pools es \<and> \<not> exited es"

lemma get_mmap_may_leave:
  assumes "get_mmap fw info l = ((st, info'), l')" and "\<not> EFI_ERROR fw (EFI_SUCCESS fw)" and "\<not> exited (calls l)"
    and "EFI_ERROR fw st \<Longrightarrow> may_leave info (calls l)"
  shows "may_leave info' (calls l')"
  using get_mmap_calls [OF assms(1,2)] assms(3,4) by (cases "EFI_ERROR fw st") (auto simp: may_leave_def)

lemma exit_boot_services_calls:
  "exit_boot_services fw ih key l = ((st, u), l') \<Longrightarrow> calls l' = (if EFI_ERROR fw st then Failed else Exited key) # calls l"
  by (auto simp: exit_boot_services_def fw_defs split: prod.splits if_splits)

lemma may_leave_failed: "may_leave info (Failed # es) = may_leave info es"
  by (simp add: may_leave_def)

lemma leave_firmware_outcome:
  assumes "\<not> EFI_ERROR fw (EFI_SUCCESS fw)" and "may_leave info (calls l)" and "leave_firmware fw ih info l = (r, l')"
  shows "files (calls l') = files (calls l) \<and> copies (calls l') = copies (calls l) \<and>
    (case r of
       Returned st \<Rightarrow> EFI_ERROR fw st \<and> \<not> exited (calls l')
     | Entered info' \<Rightarrow> same_but_map info info' \<and>
         (\<exists>es. may_leave info' es \<and> calls l' = Exited (mmap_key info') # es))"
proof -
  obtain st l1 u where first: "exit_boot_services fw ih (mmap_key info) l = ((st, u), l1)"
    by (metis prod.exhaust)
  show ?thesis
  proof (cases "EFI_ERROR fw st")
    case False
    then show ?thesis
      using first exit_boot_services_calls [OF first] assms(2,3)
      by (auto simp: leave_firmware_def may_leave_def)
  next
    case True
    then have c1: "calls l1 = Failed # calls l"
      using exit_boot_services_calls [OF first] by simp
    then have m1: "may_leave info (calls l1)" "\<not> exited (calls l1)"
      using assms(2) by (simp_all add: may_leave_def)
    obtain st2 info2 l2 where map2: "get_mmap fw info l1 = ((st2, info2), l2)"
      by (metis prod.exhaust)
    have ready: "may_leave info2 (calls l2)"
      using get_mmap_may_leave [OF map2 assms(1) m1(2)] m1(1) by blast
    obtain st3 l3 v where second: "exit_boot_services fw ih (mmap_key info2) l2 = ((st3, v), l3)"
      by (metis prod.exhaust)
    have r: "(r, l') = (if EFI_ERROR fw st3 then (Returned st3, l3) else (Entered info2, l3))"
      using assms(3) first map2 second True by (simp add: leave_firmware_def)
    have same: "same_but_map info info2"
      using get_mmap_calls(6) [OF map2 assms(1)] .
    have c3: "calls l3 = (if EFI_ERROR fw st3 then Failed else Exited (mmap_key info2)) # calls l2"
      by (rule exit_boot_services_calls [OF second])
    show ?thesis
      using r same c3 c1 ready get_mmap_calls(1,2,3) [OF map2 assms(1)]
      by (cases "EFI_ERROR fw st3") (auto simp: may_leave_def)
  qed
qed

subsection \<open>What the loader relies on\<close>

text \<open>Success is not an error.\<close>

definition firmware_ok :: "'w firmware \<Rightarrow> bool" where
  "firmware_ok fw \<longleftrightarrow> \<not> EFI_ERROR fw (EFI_SUCCESS fw)"

text \<open>A graphics mode whose frame is in the address space and holds a glyph of the console.\<close>

definition mode_ok :: "gop_mode \<Rightarrow> bool" where
  "mode_ok mode \<longleftrightarrow> HorizontalResolution mode \<le> PixelsPerScanLine mode \<and>
     unat (VerticalResolution mode) * (4 * unat (PixelsPerScanLine mode)) < 2 ^ 32 \<and>
     unat (FrameBufferBase mode) + unat (VerticalResolution mode) * (4 * unat (PixelsPerScanLine mode)) \<le> 2 ^ 64 \<and>
     17 \<le> unat (HorizontalResolution mode) \<and> 20 \<le> unat (VerticalResolution mode) \<and>
     unat (HorizontalResolution mode) < 2 ^ 31 \<and> unat (VerticalResolution mode) < 2 ^ 31"

definition gop_ok :: "'w firmware \<Rightarrow> bool" where
  "gop_ok fw \<longleftrightarrow> (\<forall>w. case LocateGop fw w of ((st, mode), _) \<Rightarrow> \<not> EFI_ERROR fw st \<and> mode_ok mode)"

lemma mode_ok_frame:
  assumes "mode_ok mode"
  shows "frame_ok (info\<lparr>fb_addr := FrameBufferBase mode, fb_width := HorizontalResolution mode,
    fb_height := VerticalResolution mode, fb_line := PixelsPerScanLine mode * 4, fb_format := PixelFormat mode\<rparr>)"
proof -
  have "20 * (4 * unat (PixelsPerScanLine mode)) \<le> unat (VerticalResolution mode) * (4 * unat (PixelsPerScanLine mode))"
    using assms by (intro mult_le_mono1) (simp add: mode_ok_def)
  then have "unat (PixelsPerScanLine mode) * 4 < 2 ^ 32"
    using assms unfolding mode_ok_def by linarith
  then have "unat (PixelsPerScanLine mode * 4) = 4 * unat (PixelsPerScanLine mode)"
    by (simp add: unat_word_ariths)
  then show ?thesis
    using assms by (simp add: mode_ok_def frame_ok_def word_le_nat_alt)
qed

lemma gop_info:
  assumes "gop_ok fw" and "LocateGop fw w = ((st, mode), w')"
  shows "\<not> EFI_ERROR fw st" and "mode_ok mode"
  using assms unfolding gop_ok_def by (auto dest!: spec [of _ w])

text \<open>
  What \<open>find_rsdp\<close> is given: a boot information with the magic number and, if the firmware has a good mode, its
  screen. What it makes of it is \<open>searched\<close>.
\<close>

definition searched :: "'w firmware \<Rightarrow> AionBootInfo \<Rightarrow> AionBootInfo \<Rightarrow> bool" where
  "searched fw info0 info \<longleftrightarrow> magic info0 = AION_MAGIC \<and> (gop_ok fw \<longrightarrow> frame_ok info0) \<and>
     (\<exists>w. fst (find_rsdp fw info0 w) = info)"

lemma gather_info:
  assumes "gather fw ih stbl l = (info, l')"
  shows "\<exists>info0. searched fw info0 info"
proof -
  define l1 where "l1 = print fw (wide ''  [1/5] Framebuffer... '') (print fw (wide ''  '' @ replicate 26 0x2500 @ crlf @ crlf)
    (print fw (crlf @ wide ''  AION-OS  ::  awakening'' @ crlf)
      (infallible (ClearScreen fw) Cleared (infallible (InitializeLib fw ih stbl) Initialized l))))"
  obtain st info0 l2 where g: "get_gop fw (no_info\<lparr>magic := AION_MAGIC\<rparr>) l1 = ((st, info0), l2)"
    by (metis prod.exhaust)
  define w where "w = efi (print fw (wide ''  [2/5] ACPI... '') (print fw (wide ''ok'' @ crlf) l2))"
  have "info = fst (find_rsdp fw info0 w)"
    using assms g unfolding gather_def l1_def [symmetric] w_def by (auto simp: Let_def l1_def split: prod.splits)
  moreover have "magic info0 = AION_MAGIC" "gop_ok fw \<longrightarrow> frame_ok info0"
    using g by (auto simp: get_gop_def fw_defs mode_ok_frame dest: gop_info split: prod.splits if_splits)
  ultimately show ?thesis
    unfolding searched_def by blast
qed

text \<open>What the loader adds to the boot information that \<open>find_rsdp\<close> left.\<close>

definition completed :: "AionBootInfo \<Rightarrow> AionBootInfo \<Rightarrow> bool" where
  "completed info info' \<longleftrightarrow> (\<exists>sz a n d ver key. info' = info\<lparr>kernel_phys_addr := KERNEL_LOAD_ADDR, kernel_size := sz,
     mmap_addr := a, mmap_size := n, mmap_desc_size := d, mmap_desc_version := ver, mmap_key := key\<rparr>)"

lemma completedI:
  assumes "same_but_map (info\<lparr>kernel_phys_addr := KERNEL_LOAD_ADDR, kernel_size := sz\<rparr>) info1" and "same_but_map info1 info'"
  shows "completed info info'" and "kernel_size info' = sz"
proof -
  obtain a n d ver key where "info1 = info\<lparr>kernel_phys_addr := KERNEL_LOAD_ADDR, kernel_size := sz,
      mmap_addr := a, mmap_size := n, mmap_desc_size := d, mmap_desc_version := ver, mmap_key := key\<rparr>"
    using assms(1) unfolding same_but_map_def by blast
  moreover obtain a' n' d' ver' key' where "info' = info1\<lparr>mmap_addr := a', mmap_size := n', mmap_desc_size := d',
      mmap_desc_version := ver', mmap_key := key'\<rparr>"
    using assms(2) unfolding same_but_map_def by blast
  ultimately have "info' = info\<lparr>kernel_phys_addr := KERNEL_LOAD_ADDR, kernel_size := sz,
      mmap_addr := a', mmap_size := n', mmap_desc_size := d', mmap_desc_version := ver', mmap_key := key'\<rparr>"
    by simp
  then show "completed info info'" "kernel_size info' = sz"
    unfolding completed_def by (blast, simp)
qed

lemma completed_simps:
  assumes "completed info info'"
  shows "magic info' = magic info" and "frame_ok info' = frame_ok info" and "kernel_phys_addr info' = KERNEL_LOAD_ADDR"
  using assms by (auto simp: completed_def frame_ok_def)

lemma efi_main_hands_over:
  assumes "firmware_ok fw" and "efi_main fw ih stbl \<lparr>efi = w, calls = []\<rparr> = (r, l')"
  shows "case r of
      Returned st \<Rightarrow> EFI_ERROR fw st \<and> \<not> exited (calls l')
    | Entered info \<Rightarrow>
        (\<exists>info0 info1. searched fw info0 info1 \<and> completed info1 info) \<and>
        (\<exists>buf. copies (calls l') = [(KERNEL_LOAD_ADDR, buf, kernel_size info)]) \<and>
        (\<exists>es. may_leave info es \<and> calls l' = Exited (mmap_key info) # es)"
proof -
  have ok: "\<not> EFI_ERROR fw (EFI_SUCCESS fw)"
    using assms(1) by (simp add: firmware_ok_def)
  obtain info l1 where g: "gather fw ih stbl \<lparr>efi = w, calls = []\<rparr> = (info, l1)"
    by fastforce
  obtain st ksz l2 where k: "load_kernel fw ih l1 = ((st, ksz), l2)"
    by (metis prod.exhaust)
  note ld = load_kernel_calls [OF k]
  have c1: "exited (calls l1) = False" "copies (calls l1) = []"
    using gather_calls [OF g] by (simp_all add: summary_eq)
  show ?thesis
  proof (cases "EFI_ERROR fw st")
    case True
    then show ?thesis
      using assms(2) g k ld(3) c1 by (auto simp: efi_main_def)
  next
    case False
    define info1 where "info1 = info\<lparr>kernel_phys_addr := KERNEL_LOAD_ADDR, kernel_size := ksz\<rparr>"
    define l3 where "l3 = print fw (wide ''  [4/5] Memory map... '') (print fw (wide ''ok'' @ crlf) l2)"
    obtain st2 info2 l4 where mm: "get_mmap fw info1 l3 = ((st2, info2), l4)"
      by (metis prod.exhaust)
    note mp = get_mmap_calls [OF mm ok]
    have c3: "summary l3 = summary l2"
      by (simp add: l3_def summary_eq)
    show ?thesis
    proof (cases "EFI_ERROR fw st2")
      case True
      then show ?thesis
        using assms(2) g k False mm mp(2) c3 ld(3) c1 by (auto simp: efi_main_def info1_def l3_def)
    next
      case ok2: False
      define l5 where "l5 = print fw (wide ''  [5/5] ExitBootServices...'' @ crlf) (print fw (wide ''ok'' @ crlf) l4)"
      have r: "leave_firmware fw ih info2 l5 = (r, l')"
        using assms(2) g k False mm ok2 by (simp add: efi_main_def info1_def l3_def l5_def Let_def)
      have "may_leave info2 (calls l5)"
        using mp(2,5) ok2 c3 ld(3) c1 by (simp add: may_leave_def l5_def summary_eq)
      note lv = leave_firmware_outcome [OF ok this r]
      have "copies (calls l5) = copies (calls l2)"
        using mp(3) c3 by (simp add: l5_def summary_eq)
      moreover have "\<exists>buf. copies (calls l2) = [(KERNEL_LOAD_ADDR, buf, ksz)]"
        using ld(4) False c1 by simp
      moreover obtain info0 where "searched fw info0 info"
        using gather_info [OF g] by blast
      moreover have "completed info info' \<and> kernel_size info' = ksz" if "same_but_map info2 info'" for info'
        using completedI [OF mp(6) [unfolded info1_def] that] by blast
      ultimately show ?thesis
        using lv by (cases r) auto
    qed
  qed
qed

subsection \<open>Properties\<close>

text \<open>C37: Whatever the firmware answers, loading a file closes it again on every path, gives back
  every pool it took except, on success, the buffer it returns, and returns a buffer exactly when
  its status is no error.\<close>

theorem load_file_balanced:
  "case load_file fw root path l of ((st, r), l') \<Rightarrow>
     files (calls l') = files (calls l) \<and>
     pools (calls l') = (case r of None \<Rightarrow> {#} | Some (buf, n) \<Rightarrow> {#buf#}) + pools (calls l) \<and>
     (r = None \<longleftrightarrow> EFI_ERROR fw st)"
  using load_file_calls [of fw root path l] by (auto split: prod.splits)

text \<open>C25: On a firmware for which success is not an error, whatever else its calls and \<open>find_rsdp\<close> do, the loader
  enters the kernel only after it has copied one image of the size it reports to the
  load address, with a boot information that describes the memory map
  read last, in a buffer still allocated, and its very last call, prints and failed calls included, is the
  successful one that leaves the boot services with the key of that map. But for the kernel's address and size and the map,
  the boot information is what \<open>find_rsdp\<close> made of one with the magic number. In every other case the loader returns
  an error while the firmware is still in charge.\<close>

theorem loader_hands_over:
  assumes "firmware_ok fw"
  shows "case efi_main fw ih stbl \<lparr>efi = w, calls = []\<rparr> of
      (Returned st, l') \<Rightarrow> EFI_ERROR fw st \<and> \<not> exited (calls l')
    | (Entered info, l') \<Rightarrow> kernel_phys_addr info = KERNEL_LOAD_ADDR \<and>
        (\<exists>info0 w0. magic info0 = AION_MAGIC \<and> completed (fst (find_rsdp fw info0 w0)) info) \<and>
        (\<exists>buf. copies (calls l') = [(KERNEL_LOAD_ADDR, buf, kernel_size info)]) \<and>
        (\<exists>es. last_map es = Some (map_of_info info) \<and> mmap_addr info \<in># pools es \<and> \<not> exited es \<and>
          calls l' = Exited (mmap_key info) # es)"
proof -
  obtain r l' where run: "efi_main fw ih stbl \<lparr>efi = w, calls = []\<rparr> = (r, l')"
    by fastforce
  note over = efi_main_hands_over [OF assms run]
  show ?thesis
  proof (cases r)
    case (Returned st)
    then show ?thesis
      using run over by simp
  next
    case (Entered info)
    then have "\<exists>info0 w0. magic info0 = AION_MAGIC \<and> completed (fst (find_rsdp fw info0 w0)) info"
      using over by (auto simp: searched_def)
    then show ?thesis
      using run over Entered completed_simps(3) by (auto simp: may_leave_def)
  qed
qed

text \<open>A firmware that refuses the first attempt to leave it.\<close>

definition sample_firmware :: "bool firmware" where
  "sample_firmware = \<lparr>EFI_ERROR = (\<lambda>st. st AND 0x8000000000000000 \<noteq> 0), EFI_SUCCESS = 0, file_info_size = 80,
     InitializeLib = (\<lambda>_ _ w. w), ClearScreen = (\<lambda>w. w), OutputString = (\<lambda>_ w. w),
     HandleProtocol = (\<lambda>h g w. ((0, if g = LoadedImageProtocol then 0x20 else 0x21), w)), DeviceHandle = (\<lambda>_ _. 0x22),
     OpenVolume = (\<lambda>_ w. ((0, 0x30), w)), Open = (\<lambda>_ _ w. ((0, 0x31), w)), GetInfo = (\<lambda>_ _ _ w. (0, w)),
     FileSize = (\<lambda>_ _. 0x4000), Read = (\<lambda>_ n _ w. ((0, n), w)), Close = (\<lambda>_ w. w),
     AllocatePool = (\<lambda>n w. ((0, 0x1000), w)), FreePool = (\<lambda>_ w. w), CopyMem = (\<lambda>_ _ _ w. w),
     LocateGop = (\<lambda>w. ((0, \<lparr>FrameBufferBase = 0x80000000, HorizontalResolution = 1366, VerticalResolution = 768,
       PixelsPerScanLine = 1376, PixelFormat = 1\<rparr>), w)),
     GetMemoryMap = (\<lambda>a v w. if mmap_sz v < 40 then ((0x8000000000000005, v\<lparr>mmap_sz := 40, desc_sz := 40\<rparr>), w)
       else ((0, \<lparr>mmap_sz = 40, map_key = (if w then 8 else 7), desc_sz = 40, desc_ver = 1\<rparr>), w)),
     ExitBootServices = (\<lambda>_ key w. if w \<and> key = 8 then (0, w) else (0x8000000000000002, True)),
     find_rsdp = (\<lambda>info w. (info\<lparr>rsdp_addr := 0xE0000\<rparr>, w))\<rparr>"

lemma sample_firmware_ok: "firmware_ok sample_firmware" "gop_ok sample_firmware"
  by (auto simp: firmware_ok_def gop_ok_def mode_ok_def sample_firmware_def)

definition sample_handover :: AionBootInfo where
  "sample_handover = \<lparr>magic = AION_MAGIC, kernel_phys_addr = 0x100000, kernel_size = 0x4000, mmap_addr = 0x1000,
     mmap_size = 40, mmap_desc_size = 40, mmap_desc_version = 1, mmap_key = 8, fb_addr = 0x80000000,
     fb_width = 1366, fb_height = 768, fb_line = 5504, fb_format = 1, rsdp_addr = 0xE0000, reserved = replicate 8 0\<rparr>"

lemma sample_handover: "fst (efi_main sample_firmware 1 2 \<lparr>efi = False, calls = []\<rparr>) = Entered sample_handover"
  by (simp add: efi_main_def gather_def load_kernel_def leave_firmware_def open_root_def load_file_def load_opened_def
      get_gop_def get_mmap_def exit_boot_services_def fw_defs sample_firmware_def sample_handover_def no_info_def
      KERNEL_LOAD_ADDR_def)

theorem loader_hands_over_witness:
  "\<exists>l'. efi_main sample_firmware 1 2 \<lparr>efi = False, calls = []\<rparr> = (Entered sample_handover, l') \<and>
     (\<exists>es. mmap_addr sample_handover \<in># pools es \<and> calls l' = Exited 8 # es)"
  using loader_hands_over [OF sample_firmware_ok(1), of 1 2 False] sample_handover
  by (cases "efi_main sample_firmware 1 2 \<lparr>efi = False, calls = []\<rparr>")
    (auto simp: sample_handover_def split: handover.splits)

text \<open>C26: From power on, on a firmware for which success is not an error and whose graphics mode holds the console,
  with the kernel's data zeroed, a camera that if ready has a non-empty image and a model library within its
  documented bounds: the loader returns an error
  to the firmware, or enters the kernel with a boot information. What \<open>find_rsdp\<close>, which the sources call and
  do not define, does to that information is left open. If it destroys the magic number, the kernel stops at its check. If it
  changes no field but its own, and if the memory map has
  entries of non-zero size and at most 2\<open>^\<close>25 usable pages, the kernel never stops at the check: it
  boots to a life of as many rounds as it is given, unless the model does not
  start, a number overflows, a tone cannot be played or the index of its memory runs over.\<close>

theorem power_on_outcome:
  fixes m :: "('c, 'd) machine"
  assumes "firmware_ok fw" and "gop_ok fw" and "zeroed (k_mem m)" and "cam_ok (k_cam m)" and "api_bounded api"
  shows "case efi_main fw ih stbl \<lparr>efi = w, calls = []\<rparr> of
      (Returned st, l') \<Rightarrow> EFI_ERROR fw st
    | (Entered info, l') \<Rightarrow> \<exists>info0 w0. completed (fst (find_rsdp fw info0 w0)) info \<and>
        (magic (fst (find_rsdp fw info0 w0)) \<noteq> AION_MAGIC \<longrightarrow>
           kernel_main p api junk tsc rounds (Some info) l m = Inr NoBoot) \<and>
        ((\<exists>a. fst (find_rsdp fw info0 w0) = info0\<lparr>rsdp_addr := a\<rparr>) \<and> mmap_desc_size info \<noteq> 0 \<and>
          mmap_count (boot_mem p) (mmap_addr info) (mmap_size info) (mmap_desc_size info) \<le> MAX_PAGES \<longrightarrow>
          (case kernel_main p api junk tsc rounds (Some info) l m of
             Inl e \<Rightarrow> e \<in> {SignedOverflow, DivideByZero, BufferOverflow} \<and> rounds \<noteq> []
           | Inr NoBoot \<Rightarrow> False
           | Inr (NoMind mi) \<Rightarrow> fst (llm_init api (llm_static l)) \<noteq> 0
           | Inr (Lives m' mi) \<Rightarrow> kernel_boot p info m = Inr m' \<and> mind_ok mi \<and> life_tick mi = of_nat (length rounds)))"
proof -
  obtain r l' where run: "efi_main fw ih stbl \<lparr>efi = w, calls = []\<rparr> = (r, l')"
    by fastforce
  note over = efi_main_hands_over [OF assms(1) run]
  show ?thesis
  proof (cases r)
    case (Returned st)
    then show ?thesis
      using run over by simp
  next
    case (Entered info)
    obtain info0 w0 where c: "searched fw info0 (fst (find_rsdp fw info0 w0))" "completed (fst (find_rsdp fw info0 w0)) info"
      using over Entered unfolding searched_def by auto
    let ?f = "fst (find_rsdp fw info0 w0)" and ?k = "kernel_main p api junk tsc rounds (Some info) l m"
    have bad: "?k = Inr NoBoot" if "magic ?f \<noteq> AION_MAGIC"
      using that completed_simps(1) [OF c(2)] by (simp add: kernel_main_def)
    have good: "case ?k of
             Inl e \<Rightarrow> e \<in> {SignedOverflow, DivideByZero, BufferOverflow} \<and> rounds \<noteq> []
           | Inr NoBoot \<Rightarrow> False
           | Inr (NoMind mi) \<Rightarrow> fst (llm_init api (llm_static l)) \<noteq> 0
           | Inr (Lives m' mi) \<Rightarrow> kernel_boot p info m = Inr m' \<and> mind_ok mi \<and> life_tick mi = of_nat (length rounds)"
      if kept: "?f = info0\<lparr>rsdp_addr := a\<rparr>" and map: "mmap_desc_size info \<noteq> 0"
        "mmap_count (boot_mem p) (mmap_addr info) (mmap_size info) (mmap_desc_size info) \<le> MAX_PAGES" for a
    proof -
      have "magic info = AION_MAGIC" and "frame_ok info"
        using c(1) assms(2) completed_simps(1,2) [OF c(2)] unfolding kept by (simp_all add: searched_def frame_ok_def)
      then show ?thesis
        using kernel_main_total [OF assms(3,4) map _ assms(5), of junk tsc rounds l]
        by (auto split: sum.splits outcome.splits)
    qed
    show ?thesis
      using run Entered c(2) bad good by (auto intro!: exI [of _ info0] exI [of _ w0])
  qed
qed

text \<open>The sample firmware and the kernel it enters, from one end to the other.\<close>

theorem power_on_outcome_witness:
  "case efi_main sample_firmware 1 2 \<lparr>efi = False, calls = []\<rparr> of
     (Returned st, l') \<Rightarrow> False
   | (Entered info, l') \<Rightarrow>
      (case kernel_main sample_platform echo_llama (\<lambda>_. []) 0 [(1, \<lambda>_. 0)] (Some info) [] sample_machine of
         Inl e \<Rightarrow> e \<in> {SignedOverflow, DivideByZero, BufferOverflow}
       | Inr NoBoot \<Rightarrow> False
       | Inr (NoMind mi) \<Rightarrow> False
       | Inr (Lives m' mi) \<Rightarrow> kernel_boot sample_platform info sample_machine = Inr m' \<and> mind_ok mi \<and> life_tick mi = 1)"
proof -
  have "kmem_static (\<lambda>_. 0) 0 kmem_sample"
    by (simp add: kmem_static_def kmem_sample_def)
  then have z: "zeroed (k_mem sample_machine)"
    by (auto simp: zeroed_def sample_machine_def)
  have start: "fst (llm_init echo_llama (llm_static [])) = 0"
    by (simp add: llm_init_def echo_llama_def)
  have "cam_ok (k_cam sample_machine)"
    by (simp add: sample_machine_def cam_ok_def cam_static_def)
  note k = power_on_outcome [OF sample_firmware_ok z this echo_llama_ok(1), where ih = 1 and stbl = 2 and w = False and
      p = sample_platform and junk = "\<lambda>_. []" and tsc = 0 and rounds = "[(1, \<lambda>_. 0)]" and l = "[]"]
  obtain l' where e: "efi_main sample_firmware 1 2 \<lparr>efi = False, calls = []\<rparr> = (Entered sample_handover, l')"
    using sample_handover by (metis prod.collapse)
  have kept: "\<exists>a. fst (find_rsdp sample_firmware info0 w0) = info0\<lparr>rsdp_addr := a\<rparr>" for info0 w0
    by (auto simp: sample_firmware_def)
  have map: "mmap_desc_size sample_handover \<noteq> 0"
      "mmap_count (boot_mem sample_platform) (mmap_addr sample_handover) (mmap_size sample_handover)
        (mmap_desc_size sample_handover) \<le> MAX_PAGES"
    by (simp_all add: sample_handover_def sample_platform_def efi_sample_pages MAX_PAGES_def)
  show ?thesis
    using k kept map start unfolding e by (auto split: sum.splits outcome.splits)
qed

end
