(* ===== verification/Spec2Isabelle.thy ===== *)
theory Spec2Isabelle
  imports PhysMem PageTable KernelHeap MemoryMgr StartMap KernelRun Ports Idt Gdt CString FileSys Serial Display Pci Drivers
    AionMemory MemoryFiles Senses Tokens Action Llm Consciousness Lifetime Boot Residence Bootloader
begin

text \<open>
  AION-OS is a freestanding x86-64 kernel whose only user program is a loop around a language
  model: a UEFI boot loader reads the kernel into memory, the kernel brings up memory, interrupts
  and drivers in a fixed order and wakes the consciousness, which then senses, feeds what it
  senses to the model, lets it generate, runs the actions found in the output and remembers the
  output, for ever. The development translates the C of \<^verbatim>\<open>src/\<close> function by function; the
  definitions keep the names of the source.

  \<^bold>\<open>How C is modelled.\<close> Integers are words of their width (\<open>u8\<close> to \<open>u64\<close>), and signed
  arithmetic that the source can overflow is on \<open>int\<close> with a check. Static data are records, and
  an operation takes and returns the record it works on. An operation that can leave defined
  behaviour (an index past an array, a division by zero, a signed overflow, a null pointer)
  returns \<open>Inl\<close> of a \<open>fault\<close> (theory Prelude), with \<open>rbind\<close> for sequencing; what a function
  reports itself (-1, NULL, false) is an ordinary value. Counting loops are \<open>for_loop\<close>, other loops
  recursions with a termination proof. Nothing runs on fuel. The loop that polls the serial port is
  partial, and the endless loop of the consciousness is the state after any number of rounds.

  \<^bold>\<open>What is a parameter.\<close> The devices behind the ports (\<open>bus\<close>, theory Ports), the bytes of device
  memory, the processor's time stamp, the llama.cpp library (\<open>llama\<close>, theory Llm), the firmware with
  gnu-efi (\<open>firmware\<close>, theory Bootloader), and the addresses the linker assigns. What the code needs
  of them is a named hypothesis where a property uses it (\<open>api_bounded\<close>: the library respects
  the sizes it is given; \<open>firmware_ok\<close>: success is not an error), with a concrete instance in its
  witness. The memory store and the actions take the heap and the file layer as arguments: the
  kernel has stubs for files (\<open>fs_stub\<close>), and the properties of persistence need a layer that keeps
  what is written (\<open>map_fs\<close>, theory MemoryFiles).
\<close>

section \<open>The parts\<close>

text \<open>
  \<^item> Prelude: faults, loops, words, little-endian reads. Interfaces: the contracts between the
    components as locales, a state with operations that keep an invariant (\<open>invariant_system\<close>), an
    allocator of page frames, and the heap with what its clients add to it.
  \<^item> PhysMem (\<^verbatim>\<open>pmm_*\<close> of \<^verbatim>\<open>kernel/memory/memory.c\<close>): the bitmap of frames. The abstraction is the
    set of free pages; allocation is the lowest free page, a run of pages the first fit, release the
    inverse, and the counter of free pages keeps its distance to the truth through every run of
    operations. It is interpreted as the frame allocator of the page tables.
  \<^item> PageTable (\<^verbatim>\<open>vmm_*\<close>): four-level tables in physical memory. The abstraction is the function from
    addresses to leaf entries (\<open>pt_view\<close>) under the invariant that the tables are a tree on frames that are
    not free; mapping updates this function at one page and nowhere else.
  \<^item> KernelHeap (\<^verbatim>\<open>kmalloc*\<close>): the bump allocator, blocks apart from each other below the size where
    the rounding wraps. MemoryMgr: swap, the page-fault handler, the status and \<^verbatim>\<open>memory_init\<close>, and the
    one system call that reads them (\<^verbatim>\<open>kernel/syscall/syscall.c\<close>).
  \<^item> StartMap: the start with enough memory. The two ranges that \<^verbatim>\<open>vmm_init\<close> maps need at most 2054
    tables besides the root; their frames come from the bottom of the memory, so that a run of 6151 pages leaves
    4096 for the heap. Then all of the first 4 GB, its image in the direct map and the heap translate.
  \<^item> KernelRun: the memory of the running kernel as one machine, whose steps are the calls of the memory
    manager, writes into frames through the direct map, and interrupts given by \<^verbatim>\<open>idt_dispatch\<close> to the
    registered page-fault handler. Its callers keep a discipline the code does not check (\<open>kernel_allowed\<close>):
    \<^verbatim>\<open>pmm_free\<close> is given only frames that are handed out at that moment, the heap is asked for at most 2\<open>^\<close>46 bytes,
    and writes go to frames of one's own or of the heap. The specification is an automaton (\<open>owner_step\<close>) on who owns each frame
    and what each page is mapped to; every step of the machine is one of its steps, and
    no frame ever has two owners (\<open>apart\<close>).
  \<^item> Ports, Idt, Gdt (\<^verbatim>\<open>kernel/include/io.h\<close>, \<^verbatim>\<open>kernel/arch/x86_64/\<close>): gates, the 8259A pair and its
    masks in step with the registered handlers, segment descriptors as the processor decodes them.
  \<^item> CString, Serial (\<^verbatim>\<open>kernel/drivers/serial.c\<close>): C strings as character lists, the formatter and the
    sender. What a format should print is specified apart from the formatter (\<open>printed\<close>), and the UART promises
    only to become ready and to send what is written right after it said so (\<open>uart_bus\<close>).
  \<^item> Display, Pci, Drivers (\<^verbatim>\<open>kernel/drivers/\<close>), FileSys (\<^verbatim>\<open>kernel/fs/fs.c\<close>): drawing stays in the
    frame and text appears as its glyphs at the cursor, the configuration scan, the devices and the stubs as they are.
  \<^item> AionMemory, MemoryFiles (\<^verbatim>\<open>consciousness/memory/aion_memory.c\<close>): the store of experiences with
    eviction, flush and load; what is flushed loads back, and clean entries stay in step with the files.
  \<^item> Senses (\<^verbatim>\<open>consciousness/senses/senses.c\<close>): brightness, motion and loudness; the integer square
    root is the floor of the real one.
  \<^item> Tokens, Action (\<^verbatim>\<open>consciousness/core/action.c\<close>): the parser of parameters, the fourteen
    handlers and the dispatch over the output of the model. One induction rule for the dispatch
    (\<open>action_loop_rule\<close>) carries the order of execution, what every action keeps, the paths that
    are written, the limits of the frequency and the faults that remain.
  \<^item> Llm (\<^verbatim>\<open>consciousness/runtime/llm.c\<close>): start, feeding with the compression of the context, and
    generation. The abstraction is the list of tokens of the context (\<open>lived\<close>); another is what the
    library has evaluated.
  \<^item> Consciousness (\<^verbatim>\<open>consciousness/core/consciousness.c\<close>): waking up, the signal, a round
    (\<open>live_tick\<close>) and any number of rounds on given surroundings, with the well-formedness of the whole mind
    (\<open>mind_ok\<close>) as the invariant. Lifetime: what storing an experience keeps, a whole life keeps
    (the locale \<open>memory_invariant\<close>); how much a life can hold. The index file overflows before the store is full, so the eviction is never reached; a life that only talks ends in its 4100th round.
  \<^item> Boot (\<^verbatim>\<open>kernel/kernel.c\<close>, \<^verbatim>\<open>kernel/process/scheduler.c\<close>): the start-up as a list of stages with
    what each leaves for the next, and \<^verbatim>\<open>kernel_main\<close> as a whole on the kernel's own heap and file layer.
    The machine of KernelRun starts from what the boot leaves, and of the 16 MB heap the boot takes at most
    161822 bytes. Residence: the whole program on one machine, with the frames in which the
    experiences are kept and, for a model that only talks, the exact length of its life.
  \<^item> Bootloader (\<^verbatim>\<open>bootloader/bootloader.c\<close>): the UEFI application, with a log of all its calls,
    prints and failed calls included; its last property runs from power on to the life of the program. Of
    \<^verbatim>\<open>find_rsdp\<close>, which is called and nowhere defined, nothing is assumed: the properties say what
    follows from what it does.

  \<^bold>\<open>Bounds.\<close> The limits are those of the source: 2\<open>^\<close>25 page frames (128 GB), 512 low pages, 4095
  tokens of context, 256 tokens an answer, 4096 bytes of output, 32 results, 4095 entries in the
  index of the memory. The properties that need room name it (\<open>heap_room\<close>, \<open>mem_count\<close>). The
  arithmetic of addresses assumes what the kernel does: the direct map reaches the frames it uses.
\<close>

section \<open>Not modelled\<close>

text \<open>
  \<^item> The assembly entry and the interrupt stubs (\<^verbatim>\<open>kernel/arch/asm/\<close>; the stubs are named in the C and
    not in the sources), the linker script, the Makefiles and the image builder.
  \<^item> The lines of the serial log outside the serial driver, the boot log and the two initialisations that
    do nothing else: they change no state that is read.
    Busy waits and \<^verbatim>\<open>hlt\<close> have no effect; a halt that ends the program is an outcome.
  \<^item> The log callback given to \<^verbatim>\<open>llama_log_set\<close>, the contents the actions read from files and
    the network into buffers that nothing reads, and the registers of the audio controller beyond
    the writes themselves.
  \<^item> Concurrency: the kernel runs one thread. Interrupts come between the operations of the memory
    manager in any order (KernelRun), not in the middle of one.
  \<^item> The processor's view of the pointers the C goes through: the direct map begins at an address
    that is not canonical, and memory behind it is modelled as the code means it, as the cells of the
    physical frames, whether or not a processor would accept the address.
  \<^item> Where the static data lie: every record of the model is apart from the frames that are handed out. The
    kernel is linked at 1 MB and its static data (\<^verbatim>\<open>phys_bitmap\<close> alone has 4 MB) reach beyond the
    2 MB that \<^verbatim>\<open>pmm_init\<close> withholds, so that on a real machine the allocator may hand out frames of the kernel's own
    data; the model has no addresses for them and cannot express this.
  \<^item> Compilation: \<^verbatim>\<open>llm.c\<close> contains a lambda expression that C does not have, and the boot loader
    calls a function that is nowhere defined, a parameter here; the former is read as what it means to do.
\<close>

end
